(* ===== verification/Prelude.thy ===== *)
theory Prelude
  imports Main "HOL-Library.Word" "HOL-Library.List_Lexorder" "HOL-Library.Sublist"
begin

text \<open>
  Shared vocabulary of the development.
  \<^item> Machine integers: \<open>u8\<close>, \<open>u16\<close>, \<open>u32\<close>, \<open>u64\<close> are words of that width; \<open>usize\<close> is
    \<open>nat\<close> (a length or an offset of something in memory). A cast \<open>x as u32\<close> is \<open>of_nat\<close>
    or \<open>ucast\<close>, which keep the low bits as the Rust cast does.
  \<^item> Byte buffers are lists of \<open>u8\<close>; \<open>slice\<close> and \<open>write_slice\<close> are Rust's range
    indexing and \<open>copy_from_slice\<close>, with the panic of an out-of-range access as a value.
  \<^item> Errors are values of \<open>error\<close>. A computation that also changes state is a function
    \<open>'s \<Rightarrow> (error + 'a) \<times> 's\<close>: the state is returned on the error branch too, because what
    the Rust code did before a \<open>?\<close> stays done.
  \<^item> \<open>runs m s Q\<close> is total correctness: \<open>m\<close> started in \<open>s\<close> returns normally, and its
    value and final state satisfy \<open>Q\<close>.
\<close>

section \<open>Types\<close>

type_synonym u8 = "8 word"
type_synonym u16 = "16 word"
type_synonym u32 = "32 word"
type_synonym u64 = "64 word"
type_synonym bytes = "u8 list"

text \<open>
  The errors of the program: \<open>io::Error\<close> kinds, panics of the language (an index out of
  range, an \<open>unwrap\<close> of \<open>None\<close>), a loop that does not end, and the \<open>anyhow!\<close> messages.
\<close>

datatype error =
    UnexpectedEof
  | InvalidData string
  | Panic
  | Diverges
  | NodeTooLarge nat
  | KeyTooLarge nat
  | Utf8Error
  | Message string

type_synonym 'a res = "error + 'a"
type_synonym ('s, 'a) M = "'s \<Rightarrow> 'a res \<times> 's"

named_theorems runs_intros "rules and equations for total correctness of stateful code"

lemma less_notD: "(x::'a::linorder) < y \<Longrightarrow> \<not> y \<le> x"
  by simp

lemma word_gt_0: "(0 < (x :: 'a::len word)) = (x \<noteq> 0)"
  by (rule word_neq_0_conv [symmetric])

section \<open>Fallible and stateful computations\<close>

definition rbind :: "'a res \<Rightarrow> ('a \<Rightarrow> 'b res) \<Rightarrow> 'b res" where
  "rbind r f = (case r of Inl e \<Rightarrow> Inl e | Inr x \<Rightarrow> f x)"

lemma rbind_simps [simp]:
  "rbind (Inl e) f = Inl e"
  "rbind (Inr x) f = f x"
  by (simp_all add: rbind_def)

lemma rbind_eq_Inr:
  "rbind r f = Inr y \<longleftrightarrow> (\<exists>x. r = Inr x \<and> f x = Inr y)"
  by (cases r) auto

definition ret :: "'a \<Rightarrow> ('s, 'a) M" where
  "ret x = (\<lambda>s. (Inr x, s))"

definition throw :: "error \<Rightarrow> ('s, 'a) M" where
  "throw e = (\<lambda>s. (Inl e, s))"

definition sbind :: "('s, 'a) M \<Rightarrow> ('a \<Rightarrow> ('s, 'b) M) \<Rightarrow> ('s, 'b) M" where
  "sbind m f = (\<lambda>s. case m s of (Inl e, s') \<Rightarrow> (Inl e, s') | (Inr x, s') \<Rightarrow> f x s')"

definition sthen :: "('s, 'a) M \<Rightarrow> ('s, 'b) M \<Rightarrow> ('s, 'b) M" where
  "sthen m n = sbind m (\<lambda>_. n)"

definition of_res :: "'a res \<Rightarrow> ('s, 'a) M" where
  "of_res r = (\<lambda>s. (r, s))"

definition gets :: "('s \<Rightarrow> 'a) \<Rightarrow> ('s, 'a) M" where
  "gets f = (\<lambda>s. (Inr (f s), s))"

definition modify :: "('s \<Rightarrow> 's) \<Rightarrow> ('s, unit) M" where
  "modify f = (\<lambda>s. (Inr (), f s))"

text \<open>\<open>for x in xs { body }\<close> with \<open>?\<close> inside the body.\<close>

fun for_each :: "('a \<Rightarrow> ('s, unit) M) \<Rightarrow> 'a list \<Rightarrow> ('s, unit) M" where
  "for_each f [] = ret ()"
| "for_each f (x # xs) = sthen (f x) (for_each f xs)"

text \<open>\<open>ret\<close>, \<open>throw\<close> and \<open>of_res\<close> are normalised to the pairing they stand for.\<close>

lemma M_normal [simp]:
  "ret x = Pair (Inr x)"
  "throw e = Pair (Inl e)"
  "of_res r = Pair r"
  by (simp_all add: ret_def throw_def of_res_def fun_eq_iff)

lemma gets_apply [simp]: "gets f s = (Inr (f s), s)"
  by (simp add: gets_def)

lemma modify_apply [simp]: "modify f s = (Inr (), f s)"
  by (simp add: modify_def)

lemma sbind_apply:
  "sbind m f s = (case m s of (Inl e, s') \<Rightarrow> (Inl e, s') | (Inr x, s') \<Rightarrow> f x s')"
  by (simp add: sbind_def)

lemma sbind_Inr [simp]: "m s = (Inr x, s') \<Longrightarrow> sbind m f s = f x s'"
  by (simp add: sbind_def)

lemma sbind_Inl [simp]: "m s = (Inl e, s') \<Longrightarrow> sbind m f s = (Inl e, s')"
  by (simp add: sbind_def)

lemma then_Inr [simp]: "m s = (Inr x, s') \<Longrightarrow> sthen m n s = n s'"
  by (simp add: sthen_def)

lemma then_Inl [simp]: "m s = (Inl e, s') \<Longrightarrow> sthen m n s = (Inl e, s')"
  by (simp add: sthen_def)

lemma sbind_simps [simp]:
  "sbind (Pair (Inr x)) f = f x"
  "sbind (Pair (Inl e)) f = Pair (Inl e)"
  "sthen (Pair (Inr x)) n = n"
  "sthen (Pair (Inl e)) n = Pair (Inl e)"
  "sbind (Pair r) f s = (case r of Inl e \<Rightarrow> (Inl e, s) | Inr x \<Rightarrow> f x s)"
  "sbind (gets g) f s = f (g s) s"
  "sthen (modify g) n s = n (g s)"
  by (auto simp: sbind_def sthen_def gets_def modify_def fun_eq_iff split: sum.splits)

definition runs :: "('s, 'a) M \<Rightarrow> 's \<Rightarrow> ('a \<Rightarrow> 's \<Rightarrow> bool) \<Rightarrow> bool" where
  "runs m s Q \<longleftrightarrow> (\<exists>x s'. m s = (Inr x, s') \<and> Q x s')"

lemma runsI: "m s = (Inr x, s') \<Longrightarrow> Q x s' \<Longrightarrow> runs m s Q"
  by (auto simp: runs_def)

lemma runsE:
  assumes "runs m s Q"
  obtains x s' where "m s = (Inr x, s')" and "Q x s'"
  using assms by (auto simp: runs_def)

lemma runs_mono: "runs m s P \<Longrightarrow> (\<And>x s'. P x s' \<Longrightarrow> Q x s') \<Longrightarrow> runs m s Q"
  by (auto simp: runs_def)

lemma runs_bind_eq: "runs (sbind m f) s Q \<longleftrightarrow> runs m s (\<lambda>x s'. runs (f x) s' Q)"
  by (cases "m s"; cases "fst (m s)") (auto simp: runs_def sbind_def)

lemma runs_then_eq: "runs (sthen m n) s Q \<longleftrightarrow> runs m s (\<lambda>_ s'. runs n s' Q)"
  by (simp add: sthen_def runs_bind_eq)

lemma runs_simps [simp]:
  "runs (Pair (Inr x)) s Q = Q x s"
  "runs (Pair (Inl e)) s Q = False"
  "runs (gets f) s Q = Q (f s) s"
  by (auto simp: runs_def)

lemma runs_modify [simp]: "runs (modify g) s Q = Q () (g s)"
  by (auto simp: runs_def)

lemma runs_of_res: "runs (Pair r) s Q = (case r of Inl e \<Rightarrow> False | Inr x \<Rightarrow> Q x s)"
  by (auto simp: runs_def split: sum.splits)

lemma runs_bindI [runs_intros]:
  "runs m s P \<Longrightarrow> (\<And>x s'. P x s' \<Longrightarrow> runs (f x) s' Q) \<Longrightarrow> runs (sbind m f) s Q"
  by (auto simp: runs_bind_eq intro: runs_mono)

lemma runs_thenI [runs_intros]:
  "runs m s P \<Longrightarrow> (\<And>x s'. P x s' \<Longrightarrow> runs n s' Q) \<Longrightarrow> runs (sthen m n) s Q"
  by (auto simp: runs_then_eq intro: runs_mono)

lemma runs_for_each:
  assumes "I [] s"
    and "\<And>ys x zs s. xs = ys @ x # zs \<Longrightarrow> I ys s \<Longrightarrow> runs (f x) s (\<lambda>_ s'. I (ys @ [x]) s')"
  shows "runs (for_each f xs) s (\<lambda>_ s'. I xs s')"
proof -
  have "runs (for_each f zs) s (\<lambda>_ s'. I xs s')" if "xs = ys @ zs" "I ys s" for ys zs s
    using that
  proof (induction zs arbitrary: ys s)
    case Nil
    then show ?case by simp
  next
    case (Cons z zs)
    have "runs (f z) s (\<lambda>_ s'. I (ys @ [z]) s')"
      using assms(2) Cons.prems by blast
    then show ?case
      by (auto simp: runs_then_eq Cons.prems(1) elim!: runs_mono intro!: Cons.IH [of "ys @ [z]", unfolded Cons.prems(1)])
  qed
  from this [of "[]" xs s] assms(1) show ?thesis by simp
qed

end
