(* ===== verification/Bytes.thy ===== *)
theory Bytes
  imports Prelude
begin

text \<open>
  Byte buffers and the pieces of Rust's standard library the storage engine uses on them:
  little-endian encoding of integers (\<open>to_le_bytes\<close>, \<open>from_le_bytes\<close>), range indexing,
  \<open>copy_from_slice\<close>, \<open>Vec::insert\<close>, \<open>Vec::remove\<close>, \<open>chunks\<close> and \<open>binary_search\<close>.
\<close>

named_theorems byte_simps "equations that compute with encoded integers and slices"

section \<open>Little-endian integers\<close>

fun le_enc :: "nat \<Rightarrow> nat \<Rightarrow> bytes" where
  "le_enc 0 x = []"
| "le_enc (Suc n) x = of_nat (x mod 256) # le_enc n (x div 256)"

fun le_dec :: "bytes \<Rightarrow> nat" where
  "le_dec [] = 0"
| "le_dec (b # bs) = unat b + 256 * le_dec bs"

definition u16_to_le :: "u16 \<Rightarrow> bytes" where
  "u16_to_le w = le_enc 2 (unat w)"

definition u32_to_le :: "u32 \<Rightarrow> bytes" where
  "u32_to_le w = le_enc 4 (unat w)"

definition u64_to_le :: "u64 \<Rightarrow> bytes" where
  "u64_to_le w = le_enc 8 (unat w)"

definition u16_from_le :: "bytes \<Rightarrow> u16" where
  "u16_from_le bs = of_nat (le_dec bs)"

definition u32_from_le :: "bytes \<Rightarrow> u32" where
  "u32_from_le bs = of_nat (le_dec bs)"

definition u64_from_le :: "bytes \<Rightarrow> u64" where
  "u64_from_le bs = of_nat (le_dec bs)"

lemma unat_less_pow: "unat (w :: 'a::len word) < 2 ^ LENGTH('a)"
  by (rule unsigned_less)

lemma length_le_enc [simp, byte_simps]: "length (le_enc n x) = n"
  by (induction n arbitrary: x) auto

lemma unat_byte_mod [simp]: "unat (of_nat (x mod 256) :: u8) = x mod 256"
  by (simp add: unat_of_nat)

lemma le_dec_enc: "le_dec (le_enc n x) = x mod 256 ^ n"
proof (induction n arbitrary: x)
  case 0
  then show ?case by simp
next
  case (Suc n)
  have "x mod 256 + 256 * (x div 256 mod 256 ^ n) = x mod (256 * 256 ^ n)"
    by (simp add: mod_mult2_eq)
  with Suc show ?case by (simp add: unat_of_nat)
qed

lemma le_dec_bound: "le_dec bs < 256 ^ length bs"
proof (induction bs)
  case Nil
  then show ?case by simp
next
  case (Cons b bs)
  have "unat b < 256"
    using unat_less_pow [of b] by simp
  moreover have "256 * le_dec bs + 256 \<le> 256 * 256 ^ length bs"
    using Cons by (metis Suc_leI mult.commute mult_Suc mult_le_mono1 add.commute)
  ultimately show ?case by simp
qed

lemma le_enc_dec: "length bs = n \<Longrightarrow> le_enc n (le_dec bs) = bs"
proof (induction n arbitrary: bs)
  case 0
  then show ?case by simp
next
  case (Suc n)
  then obtain b cs where bs: "bs = b # cs" and len: "length cs = n"
    by (cases bs) auto
  have b: "unat b < 256"
    using unat_less_pow [of b] by simp
  have "of_nat ((unat b + 256 * le_dec cs) mod 256) = b"
    using b by simp
  moreover have "(unat b + 256 * le_dec cs) div 256 = le_dec cs"
    using b by simp
  ultimately show ?case
    using Suc.IH [OF len] bs by simp
qed

lemma length_to_le [simp, byte_simps]:
  "length (u16_to_le a) = 2"
  "length (u32_to_le b) = 4"
  "length (u64_to_le c) = 8"
  by (simp_all add: u16_to_le_def u32_to_le_def u64_to_le_def)

lemma from_to_le [simp, byte_simps]:
  "u16_from_le (u16_to_le a) = a"
  "u32_from_le (u32_to_le b) = b"
  "u64_from_le (u64_to_le c) = c"
proof -
  show "u16_from_le (u16_to_le a) = a"
    using unat_less_pow [of a] by (simp add: u16_from_le_def u16_to_le_def le_dec_enc)
  show "u32_from_le (u32_to_le b) = b"
    using unat_less_pow [of b] by (simp add: u32_from_le_def u32_to_le_def le_dec_enc)
  show "u64_from_le (u64_to_le c) = c"
    using unat_less_pow [of c] by (simp add: u64_from_le_def u64_to_le_def le_dec_enc)
qed

lemma to_from_le [byte_simps]:
  "length bs = 2 \<Longrightarrow> u16_to_le (u16_from_le bs) = bs"
  "length bs = 4 \<Longrightarrow> u32_to_le (u32_from_le bs) = bs"
  "length bs = 8 \<Longrightarrow> u64_to_le (u64_from_le bs) = bs"
  using le_dec_bound [of bs]
  by (simp_all add: u16_from_le_def u16_to_le_def u32_from_le_def u32_to_le_def
      u64_from_le_def u64_to_le_def le_enc_dec unat_of_nat)

lemma u32_to_le_inject [simp]: "u32_to_le a = u32_to_le b \<longleftrightarrow> a = b"
  by (metis from_to_le(2))

section \<open>Slices\<close>

text \<open>\<open>&xs[a..b]\<close>, and the write \<open>dst[off..off + src.len()].copy_from_slice(src)\<close>.\<close>

definition slice :: "nat \<Rightarrow> nat \<Rightarrow> 'a list \<Rightarrow> 'a list" where
  "slice a b xs = take (b - a) (drop a xs)"

definition patch :: "nat \<Rightarrow> 'a list \<Rightarrow> 'a list \<Rightarrow> 'a list" where
  "patch off src dst = take off dst @ src @ drop (off + length src) dst"

definition write_slice :: "nat \<Rightarrow> 'a list \<Rightarrow> 'a list \<Rightarrow> 'a list res" where
  "write_slice off src dst =
     (if off + length src \<le> length dst then Inr (patch off src dst) else Inl Panic)"

definition read_slice :: "nat \<Rightarrow> nat \<Rightarrow> 'a list \<Rightarrow> 'a list res" where
  "read_slice a b xs = (if a \<le> b \<and> b \<le> length xs then Inr (slice a b xs) else Inl Panic)"

lemma length_slice [simp]: "length (slice a b xs) = min (b - a) (length xs - a)"
  by (simp add: slice_def)

lemma length_patch [simp]:
  "off + length src \<le> length dst \<Longrightarrow> length (patch off src dst) = length dst"
  by (simp add: patch_def)

lemma slice_patch_same:
  "off \<le> length dst \<Longrightarrow> b = off + length src \<Longrightarrow> slice off b (patch off src dst) = src"
  by (simp add: slice_def patch_def)

lemma slice_patch_before:
  assumes "b \<le> off" "off \<le> length dst"
  shows "slice a b (patch off src dst) = slice a b dst"
proof (cases "a \<le> b")
  case True
  then show ?thesis
    using assms by (simp add: slice_def patch_def drop_take min_def)
next
  case False
  then show ?thesis by (simp add: slice_def)
qed

lemma slice_patch_after:
  assumes "off + length src \<le> a" "off + length src \<le> length dst"
  shows "slice a b (patch off src dst) = slice a b dst"
proof -
  have "drop a (patch off src dst) = drop a dst"
    using assms by (simp add: patch_def)
  then show ?thesis by (simp add: slice_def)
qed

lemma patch_patch_same:
  "off \<le> length dst \<Longrightarrow> length a = length b \<Longrightarrow> patch off a (patch off b dst) = patch off a dst"
  by (simp add: patch_def)

lemma slice_append_left: "b \<le> length xs \<Longrightarrow> slice a b (xs @ ys) = slice a b xs"
  by (simp add: slice_def)

lemma slice_append_right:
  "length xs \<le> a \<Longrightarrow> slice a b (xs @ ys) = slice (a - length xs) (b - length xs) ys"
  by (simp add: slice_def)

lemma slice_append_exact [simp]:
  "slice (length xs) (length xs + length ys) (xs @ ys @ zs) = ys"
  by (simp add: slice_def)

lemma slice_full [simp]: "length xs \<le> b \<Longrightarrow> slice 0 b xs = xs"
  by (simp add: slice_def)

text \<open>Appending at the cursor: a buffer whose tail is still untouched.\<close>

lemma patch_cursor:
  "length src \<le> length pad \<Longrightarrow>
   patch (length done) src (done @ pad) = (done @ src) @ drop (length src) pad"
  by (simp add: patch_def)

section \<open>\<open>Vec\<close> operations\<close>

definition list_insert :: "nat \<Rightarrow> 'a \<Rightarrow> 'a list \<Rightarrow> 'a list" where
  "list_insert i x xs = take i xs @ x # drop i xs"

definition list_remove :: "nat \<Rightarrow> 'a list \<Rightarrow> 'a list" where
  "list_remove i xs = take i xs @ drop (Suc i) xs"

lemma length_list_insert [simp]: "i \<le> length xs \<Longrightarrow> length (list_insert i x xs) = Suc (length xs)"
  by (simp add: list_insert_def)

lemma length_list_remove [simp]: "i < length xs \<Longrightarrow> length (list_remove i xs) = length xs - 1"
  by (simp add: list_remove_def)

lemma list_remove_insert [simp]: "i \<le> length xs \<Longrightarrow> list_remove i (list_insert i x xs) = xs"
  by (simp add: list_remove_def list_insert_def)

text \<open>\<open>slice::chunks(n)\<close> for \<open>n > 0\<close>: pieces of \<open>n\<close> elements, the last one shorter.\<close>

function chunks :: "nat \<Rightarrow> 'a list \<Rightarrow> 'a list list" where
  "chunks n xs = (if xs = [] \<or> n = 0 then [] else take n xs # chunks n (drop n xs))"
  by pat_completeness auto
termination
  by (relation "measure (\<lambda>(n, xs). length xs)") auto

declare chunks.simps [simp del]

lemma chunks_Nil [simp]: "chunks n [] = []"
  by (simp add: chunks.simps)

lemma concat_chunks: "0 < n \<Longrightarrow> concat (chunks n xs) = xs"
proof (induction n xs rule: chunks.induct)
  case (1 n xs)
  then show ?case by (cases "xs = []") (simp_all add: chunks.simps [of n xs])
qed

lemma length_chunk: "c \<in> set (chunks n xs) \<Longrightarrow> length c \<le> n"
proof (induction n xs rule: chunks.induct)
  case (1 n xs)
  then show ?case by (auto simp: chunks.simps [of n xs] split: if_splits)
qed

lemma chunks_eq_Nil_iff: "0 < n \<Longrightarrow> chunks n xs = [] \<longleftrightarrow> xs = []"
  by (simp add: chunks.simps [of n xs])

section \<open>Binary search\<close>

text \<open>
  \<open>slice::binary_search_by\<close>: the comparison says how the element lies to the target.
  \<open>Inr i\<close> is \<open>Ok(i)\<close>, a match; \<open>Inl i\<close> is \<open>Err(i)\<close>, where a missing element belongs.
\<close>

datatype ordering = Less | Equal | Greater

definition cmp :: "'a::linorder \<Rightarrow> 'a \<Rightarrow> ordering" where
  "cmp x y = (if x < y then Less else if x = y then Equal else Greater)"

lemma cmp_iff:
  "cmp x y = Less \<longleftrightarrow> x < y"
  "cmp x y = Equal \<longleftrightarrow> x = y"
  "cmp x y = Greater \<longleftrightarrow> y < x"
  by (auto simp: cmp_def)

lemma cmp_simps [simp]:
  "x < y \<Longrightarrow> cmp x y = Less"
  "y < x \<Longrightarrow> cmp x y = Greater"
  "cmp x x = Equal"
  by (auto simp: cmp_def)

function bsearch :: "('a \<Rightarrow> ordering) \<Rightarrow> 'a list \<Rightarrow> nat \<Rightarrow> nat \<Rightarrow> nat + nat" where
  "bsearch f xs left right =
     (if left < right then
        (let mid = left + (right - left) div 2
         in case f (xs ! mid) of
              Equal \<Rightarrow> Inr mid
            | Less \<Rightarrow> bsearch f xs (Suc mid) right
            | Greater \<Rightarrow> bsearch f xs left mid)
      else Inl left)"
  by pat_completeness auto
termination
  by (relation "measure (\<lambda>(f, xs, l, r). r - l)") auto

declare bsearch.simps [simp del]

definition binary_search_by :: "('a \<Rightarrow> ordering) \<Rightarrow> 'a list \<Rightarrow> nat + nat" where
  "binary_search_by f xs = bsearch f xs 0 (length xs)"

text \<open>\<open>.unwrap_or_else(|e| e)\<close>: the position, found or not.\<close>

definition search_pos :: "nat + nat \<Rightarrow> nat" where
  "search_pos r = (case r of Inl i \<Rightarrow> i | Inr i \<Rightarrow> i)"

lemma bsearch_spec:
  assumes "right \<le> length xs" "left \<le> right"
    and "\<And>i j. i < j \<Longrightarrow> j < length xs \<Longrightarrow> key (xs ! i) < (key (xs ! j) :: 'k::linorder)"
    and "\<And>i. i < left \<Longrightarrow> key (xs ! i) < k"
    and "\<And>i. right \<le> i \<Longrightarrow> i < length xs \<Longrightarrow> k < key (xs ! i)"
  shows "case bsearch (\<lambda>x. cmp (key x) k) xs left right of
           Inr i \<Rightarrow> i < length xs \<and> key (xs ! i) = k
         | Inl i \<Rightarrow> i \<le> length xs \<and> (\<forall>j<i. key (xs ! j) < k) \<and> (\<forall>j. i \<le> j \<longrightarrow> j < length xs \<longrightarrow> k < key (xs ! j))"
  using assms
proof (induction "\<lambda>x. cmp (key x) k" xs left right rule: bsearch.induct)
  case (1 xs left right)
  show ?case
  proof (cases "left < right")
    case False
    with "1.prems" show ?thesis by (subst bsearch.simps) simp
  next
    case True
    define mid where "mid = left + (right - left) div 2"
    have mid: "left \<le> mid" "mid < right" "mid < length xs"
      using True "1.prems"(1) by (auto simp: mid_def)
    have less: "key (xs ! i) < key (xs ! j)" if "i < j" "j < length xs" for i j
      using "1.prems"(3) that by blast
    consider "key (xs ! mid) = k" | "key (xs ! mid) < k" | "k < key (xs ! mid)"
      by (metis linorder_neqE)
    then show ?thesis
    proof cases
      case 1
      then show ?thesis
        using True mid by (simp add: bsearch.simps [of _ xs left right] Let_def flip: mid_def)
    next
      case 2
      have "key (xs ! i) < k" if "i < Suc mid" for i
        using that less [of i mid] mid 2 by (cases "i = mid") auto
      then have "case bsearch (\<lambda>x. cmp (key x) k) xs (Suc mid) right of
           Inr i \<Rightarrow> i < length xs \<and> key (xs ! i) = k
         | Inl i \<Rightarrow> i \<le> length xs \<and> (\<forall>j<i. key (xs ! j) < k) \<and> (\<forall>j. i \<le> j \<longrightarrow> j < length xs \<longrightarrow> k < key (xs ! j))"
        using "1.hyps"(1) [OF True mid_def] "1.prems" mid 2 by simp
      then show ?thesis
        using True 2 by (simp add: bsearch.simps [of _ xs left right] Let_def flip: mid_def)
    next
      case 3
      have "k < key (xs ! i)" if "mid \<le> i" "i < length xs" for i
        using that less [of mid i] mid 3 by (cases "i = mid") auto
      then have "case bsearch (\<lambda>x. cmp (key x) k) xs left mid of
           Inr i \<Rightarrow> i < length xs \<and> key (xs ! i) = k
         | Inl i \<Rightarrow> i \<le> length xs \<and> (\<forall>j<i. key (xs ! j) < k) \<and> (\<forall>j. i \<le> j \<longrightarrow> j < length xs \<longrightarrow> k < key (xs ! j))"
        using "1.hyps"(2) [OF True mid_def] "1.prems" mid 3 by simp
      then show ?thesis
        using True 3 by (simp add: bsearch.simps [of _ xs left right] Let_def flip: mid_def)
    qed
  qed
qed

end
