(* ===== verification/Files.thy ===== *)
theory Files
  imports Bytes
begin

text \<open>
  A file of the operating system, as the engine uses it through \<open>std::fs::File\<close>: its
  contents, and the contents that the last \<open>sync_data\<close> forced to the device. A process
  crash keeps \<open>content\<close>; a power failure is only known to keep \<open>durable\<close>. The calls
  are taken to succeed, except that \<open>read_exact\<close> fails at the end of the file.
\<close>

record dfile =
  content :: bytes
  durable :: bytes

definition empty_file :: dfile where
  "empty_file = \<lparr>content = [], durable = []\<rparr>"

text \<open>\<open>seek(SeekFrom::Start(off))\<close> followed by \<open>read_exact\<close> of \<open>n\<close> bytes.\<close>

definition file_read :: "nat \<Rightarrow> nat \<Rightarrow> dfile \<Rightarrow> bytes res" where
  "file_read off n f =
     (if off + n \<le> length (content f) then Inr (slice off (off + n) (content f))
      else Inl UnexpectedEof)"

text \<open>
  \<open>seek\<close> followed by \<open>write_all\<close>: writing past the end fills the gap with zero bytes.
\<close>

definition file_write :: "nat \<Rightarrow> bytes \<Rightarrow> dfile \<Rightarrow> dfile" where
  "file_write off bs f =
     f\<lparr>content := patch off bs (content f @ replicate (off - length (content f)) 0)\<rparr>"

text \<open>\<open>write_all\<close> on a file opened with \<open>append(true)\<close>.\<close>

definition file_append :: "bytes \<Rightarrow> dfile \<Rightarrow> dfile" where
  "file_append bs f = f\<lparr>content := content f @ bs\<rparr>"

definition file_set_len_0 :: "dfile \<Rightarrow> dfile" where
  "file_set_len_0 f = f\<lparr>content := []\<rparr>"

definition file_sync :: "dfile \<Rightarrow> dfile" where
  "file_sync f = f\<lparr>durable := content f\<rparr>"

text \<open>A power failure: what the last \<open>sync_data\<close> forced to the device is what is left.\<close>

definition file_crash :: "dfile \<Rightarrow> dfile" where
  "file_crash f = f\<lparr>content := durable f\<rparr>"

lemma length_file_write:
  "length (content (file_write off bs f)) = max (off + length bs) (length (content f))"
  by (auto simp: file_write_def patch_def)

lemma file_write_durable [simp]: "durable (file_write off bs f) = durable f"
  by (simp add: file_write_def)

text \<open>What a read returns after a write: the bytes written, or what was there before.\<close>

lemma slice_file_write_same:
  "n = length bs \<Longrightarrow> slice off (off + n) (content (file_write off bs f)) = bs"
  by (simp add: file_write_def slice_patch_same)

lemma slice_file_write_disjoint:
  assumes "b \<le> off \<or> off + length bs \<le> a" "b \<le> length (content f)"
  shows "slice a b (content (file_write off bs f)) = slice a b (content f)"
proof (cases "b \<le> off")
  case True
  have "slice a b (content (file_write off bs f)) =
      slice a b (content f @ replicate (off - length (content f)) 0)"
    using True by (simp add: file_write_def slice_patch_before)
  then show ?thesis
    using assms(2) by (simp add: slice_append_left)
next
  case False
  then have after: "off + length bs \<le> a"
    using assms(1) by simp
  show ?thesis
  proof (cases "a \<le> b")
    case True
    then show ?thesis
      using after assms(2) by (simp add: file_write_def slice_patch_after)
  next
    case False
    then show ?thesis by (simp add: slice_def)
  qed
qed

text \<open>The gap that a write past the end leaves reads as zeros.\<close>

lemma slice_file_write_gap:
  assumes "length (content f) \<le> a" "b \<le> off"
  shows "slice a b (content (file_write off bs f)) = replicate (b - a) 0"
proof -
  have "slice a b (content (file_write off bs f)) =
      slice a b (content f @ replicate (off - length (content f)) 0)"
    using assms by (simp add: file_write_def slice_patch_before)
  also have "\<dots> = slice (a - length (content f)) (b - length (content f))
      (replicate (off - length (content f)) 0)"
    using assms(1) by (simp add: slice_append_right)
  also have "\<dots> = replicate (b - a) 0"
    using assms by (simp add: slice_def)
  finally show ?thesis .
qed

end
