(* ===== verification/Pager.thy ===== *)
theory Pager
  imports Files
begin

text \<open>
  The pager (\<open>src/storage/pager.rs\<close>): fixed-size pages in one file, page 0 holding the
  magic bytes, the B+ tree root, the head of the free list and the checkpoint LSN. The
  model keeps the file as bytes and computes the offsets the code computes. The lemmas
  relate it to an array of pages (\<open>page_at\<close>) and the free list to a stack of page ids.
\<close>

section \<open>Model\<close>

abbreviation PAGE_SIZE :: nat where
  "PAGE_SIZE \<equiv> 4096"

abbreviation U32_MAX :: u32 where
  "U32_MAX \<equiv> 4294967295"

type_synonym page_id = u32
type_synonym page = bytes

definition META_MAGIC :: bytes where
  "META_MAGIC = [77, 71, 68, 66]"

definition blank_page :: page where
  "blank_page = replicate PAGE_SIZE 0"

record pager =
  pfile :: dfile
  num_pages :: u32

definition pager_read_page :: "page_id \<Rightarrow> (pager, page) M" where
  "pager_read_page pid = (\<lambda>p.
     if num_pages p \<le> pid then (Inr blank_page, p)
     else (file_read (unat pid * PAGE_SIZE) PAGE_SIZE (pfile p), p))"

definition pager_write_page :: "page_id \<Rightarrow> page \<Rightarrow> (pager, unit) M" where
  "pager_write_page pid pg = (\<lambda>p.
     (Inr (), p\<lparr>pfile := file_write (unat pid * PAGE_SIZE) pg (pfile p),
                num_pages := (if num_pages p \<le> pid then pid + 1 else num_pages p)\<rparr>))"

definition meta_init :: page where
  "meta_init = patch 12 (u64_to_le 0) (patch 8 (u32_to_le U32_MAX)
     (patch 4 (u32_to_le 0) (patch 0 META_MAGIC blank_page)))"

definition pager_open :: "dfile \<Rightarrow> pager res" where
  "pager_open f =
     (let p = \<lparr>pfile = f, num_pages = of_nat (length (content f) div PAGE_SIZE)\<rparr>
      in if num_pages p = 0 then
           (case pager_write_page 0 meta_init p of (Inl e, p') \<Rightarrow> Inl e | (Inr _, p') \<Rightarrow> Inr p')
         else
           (case pager_read_page 0 p of
              (Inl e, p') \<Rightarrow> Inl e
            | (Inr m, p') \<Rightarrow>
                if slice 0 4 m \<noteq> META_MAGIC then Inl (InvalidData ''magic bytes mismatch'')
                else Inr p'))"

definition pager_allocate_page :: "(pager, page_id) M" where
  "pager_allocate_page =
     sbind (pager_read_page 0) (\<lambda>meta_page.
     sbind (gets num_pages) (\<lambda>n.
       let free_head = u32_from_le (slice 8 12 meta_page)
       in if free_head \<noteq> U32_MAX \<and> free_head < n \<and> free_head \<noteq> 0 then
            sbind (pager_read_page free_head) (\<lambda>free_page.
              let next_free = u32_from_le (slice 0 4 free_page)
              in sthen (pager_write_page 0 (patch 8 (u32_to_le next_free) meta_page))
                (sthen (pager_write_page free_head blank_page)
                  (ret free_head)))
          else
            sthen (pager_write_page n blank_page) (ret n)))"

definition pager_free_page :: "page_id \<Rightarrow> (pager, unit) M" where
  "pager_free_page pid =
     sbind (gets num_pages) (\<lambda>n.
       if pid = 0 \<or> n \<le> pid then ret ()
       else
         sbind (pager_read_page 0) (\<lambda>meta_page.
           let current_free_head = u32_from_le (slice 8 12 meta_page)
           in sthen (pager_write_page pid (patch 0 (u32_to_le current_free_head) blank_page))
                (pager_write_page 0 (patch 8 (u32_to_le pid) meta_page))))"

definition pager_read_checkpoint_lsn :: "(pager, u64) M" where
  "pager_read_checkpoint_lsn =
     sbind (pager_read_page 0) (\<lambda>meta_page. ret (u64_from_le (slice 12 20 meta_page)))"

definition pager_write_checkpoint_lsn :: "u64 \<Rightarrow> (pager, unit) M" where
  "pager_write_checkpoint_lsn lsn =
     sbind (pager_read_page 0) (\<lambda>meta_page.
       pager_write_page 0 (patch 12 (u64_to_le lsn) meta_page))"

definition pager_sync :: "(pager, unit) M" where
  "pager_sync = modify (\<lambda>p. p\<lparr>pfile := file_sync (pfile p)\<rparr>)"

section \<open>The file as an array of pages\<close>

text \<open>
  \<open>pager_wf\<close>: the counter agrees with the file, which holds at least the metadata page.
  \<open>page_at\<close> is the array of pages the file stands for; past the end it is blank.
\<close>

definition pager_wf :: "pager \<Rightarrow> bool" where
  "pager_wf p \<longleftrightarrow> unat (num_pages p) = length (content (pfile p)) div PAGE_SIZE \<and> num_pages p \<noteq> 0"

definition page_at :: "pager \<Rightarrow> page_id \<Rightarrow> page" where
  "page_at p pid =
     (if num_pages p \<le> pid then blank_page
      else slice (unat pid * PAGE_SIZE) (unat pid * PAGE_SIZE + PAGE_SIZE) (content (pfile p)))"

lemma length_blank [simp]: "length blank_page = PAGE_SIZE"
  by (simp add: blank_page_def)

lemma pager_wf_offset:
  assumes "pager_wf p" "pid < num_pages p"
  shows "unat pid * PAGE_SIZE + PAGE_SIZE \<le> length (content (pfile p))"
proof -
  have "Suc (unat pid) \<le> length (content (pfile p)) div PAGE_SIZE"
    using assms by (simp add: pager_wf_def word_less_nat_alt)
  then have "Suc (unat pid) * PAGE_SIZE \<le> length (content (pfile p))"
    by (simp add: less_eq_div_iff_mult_less_eq)
  then show ?thesis by simp
qed

lemma length_page_at [simp]: "pager_wf p \<Longrightarrow> length (page_at p pid) = PAGE_SIZE"
  using pager_wf_offset [of p pid] by (auto simp: page_at_def not_le)

lemma pager_read_page_eq: "pager_wf p \<Longrightarrow> pager_read_page pid p = (Inr (page_at p pid), p)"
  using pager_wf_offset [of p pid]
  by (auto simp: pager_read_page_def page_at_def file_read_def not_le)

definition pager_put :: "page_id \<Rightarrow> page \<Rightarrow> pager \<Rightarrow> pager" where
  "pager_put pid pg p = snd (pager_write_page pid pg p)"

lemma pager_write_page_eq: "pager_write_page pid pg p = (Inr (), pager_put pid pg p)"
  by (simp add: pager_put_def pager_write_page_def)

lemma num_pages_put:
  "num_pages (pager_put pid pg p) = (if num_pages p \<le> pid then pid + 1 else num_pages p)"
  by (simp add: pager_put_def pager_write_page_def)

lemma unat_plus_1: "x \<noteq> U32_MAX \<Longrightarrow> unat (x + 1) = Suc (unat x)"
  by (unat_arith, simp)

lemma less_imp_not_max: "pid < n \<Longrightarrow> pid \<noteq> U32_MAX"
  using unat_less_pow [of n] by (auto simp: word_less_nat_alt)

lemma pager_put_wf:
  assumes "pager_wf p" "length pg = PAGE_SIZE" "pid \<noteq> U32_MAX"
  shows "pager_wf (pager_put pid pg p)"
proof (cases "pid < num_pages p")
  case True
  then have "length (content (pfile (pager_put pid pg p))) = length (content (pfile p))"
    using pager_wf_offset [OF assms(1)] assms(2)
    by (simp add: pager_put_def pager_write_page_def length_file_write)
  then show ?thesis
    using True assms(1) less_notD [OF True] by (simp add: pager_wf_def num_pages_put)
next
  case False
  have "length (content (pfile p)) div PAGE_SIZE < Suc (unat pid)"
    using False assms(1) by (simp add: pager_wf_def word_less_nat_alt)
  then have "length (content (pfile p)) < Suc (unat pid) * PAGE_SIZE"
    by (simp add: div_less_iff_less_mult)
  then have "length (content (pfile (pager_put pid pg p))) = Suc (unat pid) * PAGE_SIZE"
    using assms(2) by (simp add: pager_put_def pager_write_page_def length_file_write)
  then show ?thesis
    using False unat_plus_1 [OF assms(3)]
    by (auto simp: pager_wf_def num_pages_put not_less simp flip: unat_eq_zero)
qed

text \<open>Writing a page changes that page of the array and no other.\<close>

lemma page_at_put:
  assumes "pager_wf p" "length pg = PAGE_SIZE" "pid \<noteq> U32_MAX" "pid \<le> num_pages p"
  shows "page_at (pager_put pid pg p) = (page_at p)(pid := pg)"
proof
  fix q
  have pid': "pid < num_pages (pager_put pid pg p)"
    using assms(3) unat_plus_1 [OF assms(3)] by (auto simp: num_pages_put word_less_nat_alt not_le)
  show "page_at (pager_put pid pg p) q = ((page_at p)(pid := pg)) q"
  proof (cases "q = pid")
    case True
    then show ?thesis
      using less_notD [OF pid'] assms(2)
      by (simp add: page_at_def) (simp add: pager_put_def pager_write_page_def slice_file_write_same)
  next
    case False
    have range: "q < num_pages (pager_put pid pg p) \<longleftrightarrow> q < num_pages p"
    proof (cases "pid < num_pages p")
      case True
      then show ?thesis by (simp add: num_pages_put less_notD)
    next
      case outside: False
      then have "pid = num_pages p"
        using assms(4) by simp
      moreover have "unat q \<noteq> unat pid"
        using False by (simp add: word_unat_eq_iff)
      ultimately show ?thesis
        using unat_plus_1 [OF assms(3)] by (auto simp: num_pages_put word_less_nat_alt)
    qed
    show ?thesis
    proof (cases "q < num_pages p")
      case True
      have "unat q < unat pid \<or> unat pid < unat q"
        using False by (metis linorder_neqE_nat word_unat_eq_iff)
      then have "unat q * PAGE_SIZE + PAGE_SIZE \<le> unat pid * PAGE_SIZE \<or>
          unat pid * PAGE_SIZE + length pg \<le> unat q * PAGE_SIZE"
        using assms(2) by auto
      from slice_file_write_disjoint [OF this pager_wf_offset [OF assms(1) True]]
      have "slice (unat q * PAGE_SIZE) (unat q * PAGE_SIZE + PAGE_SIZE)
          (content (pfile (pager_put pid pg p))) =
        slice (unat q * PAGE_SIZE) (unat q * PAGE_SIZE + PAGE_SIZE) (content (pfile p))"
        by (simp add: pager_put_def pager_write_page_def)
      then show ?thesis
        using True range False by (simp add: page_at_def less_notD)
    next
      case False
      then show ?thesis
        using range \<open>q \<noteq> pid\<close> by (auto simp: page_at_def not_le)
    qed
  qed
qed

lemmas pager_eqs = pager_read_page_eq pager_write_page_eq

section \<open>The metadata page\<close>

definition meta_root :: "page \<Rightarrow> page_id" where
  "meta_root m = u32_from_le (slice 4 8 m)"

definition meta_free :: "page \<Rightarrow> page_id" where
  "meta_free m = u32_from_le (slice 8 12 m)"

definition meta_lsn :: "page \<Rightarrow> u64" where
  "meta_lsn m = u64_from_le (slice 12 20 m)"

definition meta_magic_ok :: "page \<Rightarrow> bool" where
  "meta_magic_ok m \<longleftrightarrow> slice 0 4 m = META_MAGIC"

lemmas meta_defs = meta_root_def meta_free_def meta_lsn_def meta_magic_ok_def

text \<open>The four fields do not overlap: writing one leaves the other three.\<close>

lemma meta_fields_patch_free [simp]:
  assumes "length m = PAGE_SIZE"
  shows "meta_free (patch 8 (u32_to_le x) m) = x"
    "meta_root (patch 8 (u32_to_le x) m) = meta_root m"
    "meta_lsn (patch 8 (u32_to_le x) m) = meta_lsn m"
    "meta_magic_ok (patch 8 (u32_to_le x) m) = meta_magic_ok m"
  using assms by (simp_all add: meta_defs slice_patch_same slice_patch_before slice_patch_after)

lemma meta_fields_patch_root [simp]:
  assumes "length m = PAGE_SIZE"
  shows "meta_root (patch 4 (u32_to_le x) m) = x"
    "meta_free (patch 4 (u32_to_le x) m) = meta_free m"
    "meta_lsn (patch 4 (u32_to_le x) m) = meta_lsn m"
    "meta_magic_ok (patch 4 (u32_to_le x) m) = meta_magic_ok m"
  using assms by (simp_all add: meta_defs slice_patch_same slice_patch_before slice_patch_after)

lemma meta_fields_patch_lsn [simp]:
  assumes "length m = PAGE_SIZE"
  shows "meta_lsn (patch 12 (u64_to_le l) m) = l"
    "meta_free (patch 12 (u64_to_le l) m) = meta_free m"
    "meta_root (patch 12 (u64_to_le l) m) = meta_root m"
    "meta_magic_ok (patch 12 (u64_to_le l) m) = meta_magic_ok m"
  using assms by (simp_all add: meta_defs slice_patch_same slice_patch_before slice_patch_after)

lemma length_META_MAGIC [simp]: "length META_MAGIC = 4"
  by (simp add: META_MAGIC_def)

lemma meta_init_fields [simp]:
  "length meta_init = PAGE_SIZE"
  "meta_root meta_init = 0"
  "meta_free meta_init = U32_MAX"
  "meta_lsn meta_init = 0"
  "meta_magic_ok meta_init"
proof -
  show len: "length meta_init = PAGE_SIZE"
    by (simp add: meta_init_def)
  show "meta_root meta_init = 0" "meta_free meta_init = U32_MAX" "meta_lsn meta_init = 0"
    by (simp_all add: meta_init_def)
  have "meta_magic_ok (patch 0 META_MAGIC blank_page)"
    by (simp add: meta_magic_ok_def slice_patch_same)
  then show "meta_magic_ok meta_init"
    by (simp add: meta_init_def)
qed

section \<open>The free list\<close>

text \<open>
  \<open>free_list p h xs\<close>: starting at page id \<open>h\<close>, following the first four bytes of each
  page visits exactly the pages \<open>xs\<close> and ends at the marker \<open>u32::MAX\<close>.
  \<open>pager_inv p xs\<close> is the pager's invariant, with \<open>xs\<close> the free pages, most recently
  freed first.
\<close>

fun free_list :: "pager \<Rightarrow> page_id \<Rightarrow> page_id list \<Rightarrow> bool" where
  "free_list p h [] \<longleftrightarrow> h = U32_MAX"
| "free_list p h (x # xs) \<longleftrightarrow>
     h = x \<and> x \<noteq> 0 \<and> x < num_pages p \<and> free_list p (u32_from_le (slice 0 4 (page_at p x))) xs"

definition pager_inv :: "pager \<Rightarrow> page_id list \<Rightarrow> bool" where
  "pager_inv p xs \<longleftrightarrow> pager_wf p \<and> meta_magic_ok (page_at p 0) \<and>
     free_list p (meta_free (page_at p 0)) xs \<and> distinct xs"

lemma pager_inv_wf: "pager_inv p xs \<Longrightarrow> pager_wf p"
  by (simp add: pager_inv_def)

lemma free_list_range: "free_list p h xs \<Longrightarrow> x \<in> set xs \<Longrightarrow> x \<noteq> 0 \<and> x < num_pages p"
  by (induction xs arbitrary: h) auto

lemma free_list_cong:
  assumes "num_pages p \<le> num_pages q" "\<And>x. x \<in> set xs \<Longrightarrow> page_at q x = page_at p x"
  shows "free_list p h xs \<Longrightarrow> free_list q h xs"
  using assms by (induction xs arbitrary: h) auto

lemma free_list_unique: "free_list p h xs \<Longrightarrow> free_list p h ys \<Longrightarrow> xs = ys"
proof (induction xs arbitrary: h ys)
  case Nil
  then show ?case by (cases ys) (auto dest: less_imp_not_max)
next
  case (Cons x xs)
  then show ?case by (cases ys) (auto dest: less_imp_not_max)
qed

text \<open>Puts inside the file, as the operations of the free list make them.\<close>

lemma pager_put_in:
  assumes "pager_wf p" "pid < num_pages p" "length pg = PAGE_SIZE"
  shows "pager_wf (pager_put pid pg p)"
    "page_at (pager_put pid pg p) = (page_at p)(pid := pg)"
    "num_pages (pager_put pid pg p) = num_pages p"
  using assms less_imp_not_max [OF assms(2)]
  by (simp_all add: pager_put_wf page_at_put num_pages_put less_notD)

lemma wf_page_0: "pager_wf p \<Longrightarrow> 0 < num_pages p"
  by (simp add: pager_wf_def word_neq_0_conv)

text \<open>Two writes: the metadata page and one other page.\<close>

definition put2 :: "page \<Rightarrow> page_id \<Rightarrow> page \<Rightarrow> pager \<Rightarrow> pager" where
  "put2 m pid pg p = pager_put pid pg (pager_put 0 m p)"

lemma put2_facts:
  assumes "pager_wf p" "pid < num_pages p" "pid \<noteq> 0" "length pg = PAGE_SIZE" "length m = PAGE_SIZE"
  shows "pager_wf (put2 m pid pg p)"
    "page_at (put2 m pid pg p) = (page_at p)(0 := m, pid := pg)"
    "num_pages (put2 m pid pg p) = num_pages p"
  using assms wf_page_0 [OF assms(1)] by (simp_all add: put2_def pager_put_in)

lemma put2_swap:
  assumes "pager_wf p" "pid < num_pages p" "pid \<noteq> 0" "length pg = PAGE_SIZE" "length m = PAGE_SIZE"
  shows "pager_wf (pager_put 0 m (pager_put pid pg p))"
    "page_at (pager_put 0 m (pager_put pid pg p)) = (page_at p)(0 := m, pid := pg)"
    "num_pages (pager_put 0 m (pager_put pid pg p)) = num_pages p"
  using assms wf_page_0 [OF assms(1)] by (simp_all add: pager_put_in fun_upd_twist)

subsection \<open>Allocation\<close>

definition pager_grow :: "pager \<Rightarrow> pager" where
  "pager_grow p = pager_put (num_pages p) blank_page p"

lemma pager_grow_facts:
  assumes "pager_wf p" "num_pages p \<noteq> U32_MAX"
  shows "pager_wf (pager_grow p)" "page_at (pager_grow p) = page_at p"
    "num_pages (pager_grow p) = num_pages p + 1"
proof -
  show "pager_wf (pager_grow p)" "num_pages (pager_grow p) = num_pages p + 1"
    using assms by (simp_all add: pager_grow_def pager_put_wf num_pages_put)
  have "page_at p (num_pages p) = blank_page"
    by (simp add: page_at_def)
  then show "page_at (pager_grow p) = page_at p"
    using assms by (simp add: pager_grow_def page_at_put fun_upd_idem)
qed

lemma pager_allocate_reuse:
  assumes inv: "pager_inv p (x # xs)"
  defines "m \<equiv> patch 8 (u32_to_le (u32_from_le (slice 0 4 (page_at p x)))) (page_at p 0)"
  shows "pager_allocate_page p = (Inr x, put2 m x blank_page p)"
proof -
  have wf: "pager_wf p" and hd: "meta_free (page_at p 0) = x" "x \<noteq> 0" "x < num_pages p"
    using inv by (auto simp: pager_inv_def)
  have "pager_wf (pager_put 0 m p)"
    using wf wf_page_0 [OF wf] by (simp add: pager_put_in m_def)
  then show ?thesis
    using wf hd less_imp_not_max [OF hd(3)]
    by (simp add: pager_allocate_page_def pager_eqs meta_free_def put2_def m_def)
qed

lemma pager_allocate_grow:
  assumes "pager_inv p []"
  shows "pager_allocate_page p = (Inr (num_pages p), pager_grow p)"
  using assms
  by (simp add: pager_allocate_page_def pager_eqs pager_inv_def meta_free_def pager_grow_def)

lemma pager_inv_reuse:
  assumes inv: "pager_inv p (x # xs)"
  defines "m \<equiv> patch 8 (u32_to_le (u32_from_le (slice 0 4 (page_at p x)))) (page_at p 0)"
  shows "pager_inv (put2 m x blank_page p) xs"
proof -
  have wf: "pager_wf p" and x: "x \<noteq> 0" "x < num_pages p" "x \<notin> set xs"
    and rest: "free_list p (u32_from_le (slice 0 4 (page_at p x))) xs"
    and magic: "meta_magic_ok (page_at p 0)" and dist: "distinct xs"
    using inv by (auto simp: pager_inv_def)
  have len: "length m = PAGE_SIZE"
    using wf by (simp add: m_def)
  note facts = put2_facts [OF wf x(2,1) length_blank len]
  have "page_at (put2 m x blank_page p) y = page_at p y" if "y \<in> set xs" for y
    using that x free_list_range [OF rest that] by (auto simp: facts)
  then have "free_list (put2 m x blank_page p) (u32_from_le (slice 0 4 (page_at p x))) xs"
    using free_list_cong [OF _ _ rest] facts(3) by simp
  then show ?thesis
    using facts x magic dist wf by (simp add: pager_inv_def m_def)
qed

lemma pager_inv_grow:
  assumes "pager_inv p []" "num_pages p \<noteq> U32_MAX"
  shows "pager_inv (pager_grow p) []"
  using assms by (simp add: pager_inv_def pager_grow_facts)

subsection \<open>Release\<close>

lemma pager_free_page_eq:
  assumes "pager_wf p" "pid \<noteq> 0" "pid < num_pages p"
  shows "pager_free_page pid p =
    (Inr (), pager_put 0 (patch 8 (u32_to_le pid) (page_at p 0))
       (pager_put pid (patch 0 (u32_to_le (meta_free (page_at p 0))) blank_page) p))"
  using assms
  by (simp add: pager_free_page_def pager_eqs meta_free_def less_notD)

lemma pager_free_page_ignored:
  "pid = 0 \<or> num_pages p \<le> pid \<Longrightarrow> pager_free_page pid p = (Inr (), p)"
  by (auto simp: pager_free_page_def)

lemma pager_inv_free:
  assumes inv: "pager_inv p xs" and pid: "pid \<noteq> 0" "pid < num_pages p" "pid \<notin> set xs"
  shows "pager_inv (pager_put 0 (patch 8 (u32_to_le pid) (page_at p 0))
       (pager_put pid (patch 0 (u32_to_le (meta_free (page_at p 0))) blank_page) p)) (pid # xs)"
    (is "pager_inv ?q _")
proof -
  have wf: "pager_wf p" and magic: "meta_magic_ok (page_at p 0)" and dist: "distinct xs"
    and fl: "free_list p (meta_free (page_at p 0)) xs"
    using inv by (auto simp: pager_inv_def)
  let ?b = "patch 0 (u32_to_le (meta_free (page_at p 0))) blank_page"
  let ?m = "patch 8 (u32_to_le pid) (page_at p 0)"
  have lens: "length ?b = PAGE_SIZE" "length ?m = PAGE_SIZE"
    using wf by simp_all
  note facts = put2_swap [OF wf pid(2,1) lens]
  have "page_at ?q y = page_at p y" if "y \<in> set xs" for y
    using that pid free_list_range [OF fl that] by (auto simp: facts)
  then have "free_list ?q (meta_free (page_at p 0)) xs"
    using free_list_cong [OF _ _ fl] facts(3) by simp
  moreover have "u32_from_le (slice 0 4 ?b) = meta_free (page_at p 0)"
    by (simp add: slice_patch_same)
  ultimately show ?thesis
    using facts pid magic dist wf by (simp add: pager_inv_def)
qed

section \<open>The interface of a page allocator\<close>

text \<open>
  What a client of the free list relies on: the allocator keeps a list of free pages,
  hands out its head, grows by one page when the list is empty, and takes pages back at
  the front. \<open>avail s xs\<close> says that the free pages of state \<open>s\<close> are \<open>xs\<close>.
\<close>

locale page_allocator =
  fixes alloc :: "('s, page_id) M"
    and release :: "page_id \<Rightarrow> ('s, unit) M"
    and avail :: "'s \<Rightarrow> page_id list \<Rightarrow> bool"
    and extent :: "'s \<Rightarrow> page_id"
  assumes alloc_reuse: "avail s (x # xs) \<Longrightarrow> runs alloc s (\<lambda>r s'. r = x \<and> avail s' xs \<and> extent s' = extent s)"
    and alloc_grow: "avail s [] \<Longrightarrow> extent s \<noteq> U32_MAX \<Longrightarrow>
      runs alloc s (\<lambda>r s'. r = extent s \<and> avail s' [] \<and> extent s' = extent s + 1)"
    and release_push: "avail s xs \<Longrightarrow> pid \<noteq> 0 \<Longrightarrow> pid < extent s \<Longrightarrow> pid \<notin> set xs \<Longrightarrow>
      runs (release pid) s (\<lambda>_ s'. avail s' (pid # xs) \<and> extent s' = extent s)"
    and avail_range: "avail s xs \<Longrightarrow> x \<in> set xs \<Longrightarrow> x \<noteq> 0 \<and> x < extent s"
    and avail_distinct: "avail s xs \<Longrightarrow> distinct xs"
    and extent_pos: "avail s xs \<Longrightarrow> extent s \<noteq> 0"
begin

text \<open>
  \<open>accounted s live\<close>: every page but page 0 is either live or free, and never both.
\<close>

definition accounted :: "'s \<Rightarrow> page_id set \<Rightarrow> bool" where
  "accounted s live \<longleftrightarrow> (\<exists>xs. avail s xs \<and> live \<inter> set xs = {} \<and> live \<union> set xs = {0<..<extent s})"

lemma accounted_range: "accounted s live \<Longrightarrow> x \<in> live \<Longrightarrow> x \<noteq> 0 \<and> x < extent s"
  by (auto simp: accounted_def set_eq_iff)

lemma alloc_accounted:
  assumes "accounted s live" "extent s \<noteq> U32_MAX"
  shows "runs alloc s (\<lambda>r s'. r \<notin> live \<and> r \<noteq> 0 \<and> accounted s' (insert r live))"
proof -
  obtain xs where av: "avail s xs" and dis: "live \<inter> set xs = {}"
    and all: "live \<union> set xs = {0<..<extent s}"
    using assms(1) by (auto simp: accounted_def)
  show ?thesis
  proof (cases xs)
    case Nil
    have pos: "extent s \<noteq> 0"
      using extent_pos [OF av] .
    have grow: "{0<..<extent s + 1} = insert (extent s) {0<..<extent s}"
      using pos unat_plus_1 [OF assms(2)]
      by (auto simp: word_less_nat_alt word_unat_eq_iff)
    have "runs alloc s (\<lambda>r s'. r = extent s \<and> avail s' [] \<and> extent s' = extent s + 1)"
      using av Nil assms(2) by (simp add: alloc_grow)
    then show ?thesis
      by (rule runs_mono) (use all Nil pos in \<open>auto simp: accounted_def grow\<close>)
  next
    case (Cons y ys)
    have dist: "distinct xs" and range: "y \<noteq> 0" "y < extent s"
      using avail_distinct [OF av] avail_range [OF av, of y] Cons by auto
    have "runs alloc s (\<lambda>r s'. r = y \<and> avail s' ys \<and> extent s' = extent s)"
      using av Cons by (simp add: alloc_reuse)
    then show ?thesis
      by (rule runs_mono) (use dis all Cons dist range in \<open>auto simp: accounted_def\<close>)
  qed
qed

lemma release_accounted:
  assumes "accounted s live" "pid \<in> live"
  shows "runs (release pid) s (\<lambda>_ s'. accounted s' (live - {pid}))"
proof -
  obtain xs where av: "avail s xs" and dis: "live \<inter> set xs = {}"
    and all: "live \<union> set xs = {0<..<extent s}"
    using assms(1) by (auto simp: accounted_def)
  have "runs (release pid) s (\<lambda>_ s'. avail s' (pid # xs) \<and> extent s' = extent s)"
    using av accounted_range [OF assms] dis assms(2) by (auto intro: release_push)
  then show ?thesis
  proof (rule runs_mono)
    fix u s'
    assume "avail s' (pid # xs) \<and> extent s' = extent s"
    moreover have "(live - {pid}) \<inter> set (pid # xs) = {}"
      "(live - {pid}) \<union> set (pid # xs) = {0<..<extent s}"
      using dis all assms(2) by auto
    ultimately show "accounted s' (live - {pid})"
      unfolding accounted_def by metis
  qed
qed

lemma release_then_alloc:
  assumes "accounted s live" "pid \<in> live"
  shows "runs (sthen (release pid) alloc) s (\<lambda>r s'. r = pid)"
proof -
  obtain xs where av: "avail s xs" and dis: "live \<inter> set xs = {}"
    using assms(1) by (auto simp: accounted_def)
  have "runs (release pid) s (\<lambda>_ s'. avail s' (pid # xs) \<and> extent s' = extent s)"
    using av accounted_range [OF assms] dis assms(2) by (auto intro: release_push)
  then show ?thesis
    by (auto simp: runs_then_eq elim!: runs_mono dest!: alloc_reuse)
qed

end

text \<open>The pager provides that interface.\<close>

interpretation pager_alloc: page_allocator pager_allocate_page pager_free_page pager_inv num_pages
proof unfold_locales
  fix p x xs
  assume inv: "pager_inv p (x # xs)"
  then have "x < num_pages p" "x \<noteq> 0" "pager_wf p"
    by (auto simp: pager_inv_def)
  then show "runs pager_allocate_page p (\<lambda>r p'. r = x \<and> pager_inv p' xs \<and> num_pages p' = num_pages p)"
    using pager_inv_reuse [OF inv] by (simp add: runs_def pager_allocate_reuse [OF inv] put2_facts)
next
  fix p
  assume "pager_inv p []" "num_pages p \<noteq> U32_MAX"
  then show "runs pager_allocate_page p (\<lambda>r p'. r = num_pages p \<and> pager_inv p' [] \<and> num_pages p' = num_pages p + 1)"
    using pager_grow_facts(3) [of p] pager_inv_grow [of p]
    by (simp add: runs_def pager_allocate_grow pager_inv_wf)
next
  fix p xs pid
  assume inv: "pager_inv p xs" and pid: "pid \<noteq> 0" "pid < num_pages p" "pid \<notin> set xs"
  then show "runs (pager_free_page pid) p (\<lambda>_ p'. pager_inv p' (pid # xs) \<and> num_pages p' = num_pages p)"
    using pager_inv_free [OF inv pid] pager_inv_wf [OF inv]
    by (simp add: runs_def pager_free_page_eq put2_swap)
next
  fix p xs x
  assume "pager_inv p xs" "x \<in> set xs"
  then show "x \<noteq> 0 \<and> x < num_pages p"
    using free_list_range by (auto simp: pager_inv_def)
next
  fix p xs
  assume "pager_inv p xs"
  then show "distinct xs" "num_pages p \<noteq> 0"
    by (auto simp: pager_inv_def pager_wf_def)
qed

section \<open>Runs of the pager\<close>

text \<open>
  A client of the pager: it starts on a new file, keeps track of the pages it holds,
  writes and frees only those, and may set the checkpoint LSN. Reopening the file is
  a step too.
\<close>

inductive pager_run :: "pager \<Rightarrow> page_id set \<Rightarrow> bool" where
  start: "pager_open empty_file = Inr p \<Longrightarrow> pager_run p {}"
| allocate: "pager_run p live \<Longrightarrow> num_pages p \<noteq> U32_MAX \<Longrightarrow>
    pager_allocate_page p = (Inr pid, p') \<Longrightarrow> pager_run p' (insert pid live)"
| release: "pager_run p live \<Longrightarrow> pid \<in> live \<Longrightarrow>
    pager_free_page pid p = (r, p') \<Longrightarrow> pager_run p' (live - {pid})"
| store: "pager_run p live \<Longrightarrow> pid \<in> live \<Longrightarrow> length pg = PAGE_SIZE \<Longrightarrow>
    pager_write_page pid pg p = (r, p') \<Longrightarrow> pager_run p' live"
| checkpoint: "pager_run p live \<Longrightarrow> pager_write_checkpoint_lsn lsn p = (r, p') \<Longrightarrow> pager_run p' live"
| reopen: "pager_run p live \<Longrightarrow> pager_open (pfile p) = Inr p' \<Longrightarrow> pager_run p' live"

lemma pager_open_empty:
  obtains p where "pager_open empty_file = Inr p" "pager_inv p []" "num_pages p = 1"
    "page_at p 0 = meta_init"
proof -
  define q where "q = \<lparr>pfile = empty_file, num_pages = 0\<rparr>"
  define p where "p = pager_put 0 meta_init q"
  have eq: "content (pfile p) = meta_init" and n: "num_pages p = 1"
    by (simp_all add: p_def q_def pager_put_def pager_write_page_def file_write_def empty_file_def patch_def)
  have "pager_open empty_file = Inr p"
    by (simp add: pager_open_def pager_write_page_eq p_def q_def empty_file_def)
  moreover have at: "page_at p 0 = meta_init"
    by (simp add: page_at_def n eq)
  moreover have "pager_inv p []"
    using at by (simp add: pager_inv_def pager_wf_def eq n)
  ultimately show ?thesis using n that by blast
qed

lemma pager_reopen: "pager_wf p \<Longrightarrow> meta_magic_ok (page_at p 0) \<Longrightarrow> pager_open (pfile p) = Inr p"
proof -
  assume wf: "pager_wf p" and magic: "meta_magic_ok (page_at p 0)"
  have "of_nat (unat (num_pages p)) = num_pages p"
    by simp
  then have "of_nat (length (content (pfile p)) div PAGE_SIZE) = num_pages p"
    using wf by (simp only: pager_wf_def)
  then have "\<lparr>pfile = pfile p, num_pages = of_nat (length (content (pfile p)) div PAGE_SIZE)\<rparr> = p"
    by simp
  then show "pager_open (pfile p) = Inr p"
    using wf magic by (simp add: pager_open_def pager_read_page_eq meta_magic_ok_def pager_wf_def)
qed

lemma pager_write_accounted:
  assumes "pager_alloc.accounted p live" "pid \<in> live" "length pg = PAGE_SIZE"
  shows "pager_alloc.accounted (pager_put pid pg p) live"
proof -
  obtain xs where inv: "pager_inv p xs" and dis: "live \<inter> set xs = {}"
    and all: "live \<union> set xs = {0<..<num_pages p}"
    using assms(1) by (auto simp: pager_alloc.accounted_def)
  have pid: "pid \<noteq> 0" "pid < num_pages p" "pid \<notin> set xs"
    using pager_alloc.accounted_range [OF assms(1,2)] dis assms(2) by auto
  have wf: "pager_wf p" and fl: "free_list p (meta_free (page_at p 0)) xs"
    using inv by (auto simp: pager_inv_def)
  note facts = pager_put_in [OF wf pid(2) assms(3)]
  have "free_list (pager_put pid pg p) (meta_free (page_at p 0)) xs"
    by (rule free_list_cong [OF _ _ fl]) (use pid facts in auto)
  then have "pager_inv (pager_put pid pg p) xs"
    using inv facts pid by (simp add: pager_inv_def)
  then show ?thesis
    using dis all facts by (auto simp: pager_alloc.accounted_def)
qed

lemma pager_meta_accounted:
  assumes "pager_alloc.accounted p live" "length m = PAGE_SIZE"
    "meta_free m = meta_free (page_at p 0)" "meta_magic_ok m"
  shows "pager_alloc.accounted (pager_put 0 m p) live"
proof -
  obtain xs where inv: "pager_inv p xs" and dis: "live \<inter> set xs = {}"
    and all: "live \<union> set xs = {0<..<num_pages p}"
    using assms(1) by (auto simp: pager_alloc.accounted_def)
  have wf: "pager_wf p" and fl: "free_list p (meta_free (page_at p 0)) xs"
    using inv by (auto simp: pager_inv_def)
  note facts = pager_put_in [OF wf wf_page_0 [OF wf] assms(2)]
  have "free_list (pager_put 0 m p) (meta_free m) xs"
    unfolding assms(3) by (rule free_list_cong [OF _ _ fl]) (use free_list_range [OF fl] facts in auto)
  then have "pager_inv (pager_put 0 m p) xs"
    using inv facts assms by (simp add: pager_inv_def)
  then show ?thesis
    using dis all facts by (auto simp: pager_alloc.accounted_def)
qed

lemma accounted_inv: "pager_alloc.accounted p live \<Longrightarrow> \<exists>xs. pager_inv p xs"
  by (auto simp: pager_alloc.accounted_def)

lemma pager_run_accounted: "pager_run p live \<Longrightarrow> pager_alloc.accounted p live"
proof (induction rule: pager_run.induct)
  case (start p)
  obtain q where "pager_open empty_file = Inr q" "pager_inv q []" "num_pages q = 1"
    by (rule pager_open_empty)
  moreover have "{0<..<1::u32} = {}"
    by (auto simp: word_less_nat_alt)
  ultimately show ?case
    using start by (auto simp: pager_alloc.accounted_def)
next
  case (allocate p live pid p')
  then show ?case
    using pager_alloc.alloc_accounted [of p live] by (auto simp: runs_def)
next
  case (release p live pid r p')
  then show ?case
    using pager_alloc.release_accounted [of p live pid] by (auto simp: runs_def)
next
  case (store p live pid pg r p')
  then show ?case
    by (auto simp: pager_write_page_eq intro: pager_write_accounted)
next
  case (checkpoint p live lsn r p')
  have wf: "pager_wf p" and magic: "meta_magic_ok (page_at p 0)"
    using accounted_inv [OF checkpoint.IH] by (auto simp: pager_inv_def)
  then have "p' = pager_put 0 (patch 12 (u64_to_le lsn) (page_at p 0)) p"
    using checkpoint.hyps by (simp add: pager_write_checkpoint_lsn_def pager_eqs)
  then show ?case
    using checkpoint.IH wf magic by (simp add: pager_meta_accounted)
next
  case (reopen p live p')
  then show ?case
    using accounted_inv [OF reopen.IH] by (auto simp: pager_inv_def pager_reopen)
qed

lemma pager_allocate_frame:
  assumes "pager_alloc.accounted p live" "num_pages p \<noteq> U32_MAX"
  shows "runs pager_allocate_page p (\<lambda>pid p'. page_at p' pid = blank_page \<and>
    (\<forall>q. q \<noteq> pid \<longrightarrow> q \<noteq> 0 \<longrightarrow> page_at p' q = page_at p q) \<and>
    meta_root (page_at p' 0) = meta_root (page_at p 0) \<and>
    meta_lsn (page_at p' 0) = meta_lsn (page_at p 0))"
proof -
  obtain xs where inv: "pager_inv p xs"
    using accounted_inv [OF assms(1)] by blast
  have wf: "pager_wf p"
    using inv by (rule pager_inv_wf)
  show ?thesis
  proof (cases xs)
    case Nil
    moreover have "page_at p (num_pages p) = blank_page"
      by (simp add: page_at_def)
    ultimately show ?thesis
      using inv assms(2) by (simp add: runs_def pager_allocate_grow pager_grow_facts pager_inv_wf)
  next
    case (Cons x ys)
    then have "x \<noteq> 0" "x < num_pages p"
      using inv by (auto simp: pager_inv_def)
    then show ?thesis
      using inv wf unfolding Cons by (simp add: runs_def pager_allocate_reuse put2_facts)
  qed
qed

section \<open>Properties\<close>

text \<open>
  (C23) Page allocation is safe on every run of the pager that frees only pages it holds:
  the page handed out is not page 0 and not a page still in use, its contents are zeroed,
  and no page in use changes.
\<close>

theorem pager_allocate_fresh:
  assumes "pager_run p live" and "num_pages p \<noteq> U32_MAX"
  shows "\<exists>pid p'. pager_allocate_page p = (Inr pid, p') \<and> pid \<noteq> 0 \<and> pid \<notin> live \<and>
    page_at p' pid = blank_page \<and> (\<forall>q\<in>live. page_at p' q = page_at p q)"
proof -
  have acc: "pager_alloc.accounted p live"
    using assms(1) by (rule pager_run_accounted)
  obtain pid p' where eq: "pager_allocate_page p = (Inr pid, p')" and new: "pid \<noteq> 0" "pid \<notin> live"
    using pager_alloc.alloc_accounted [OF acc assms(2)] by (auto simp: runs_def)
  have "page_at p' pid = blank_page" and "\<And>q. q \<noteq> pid \<Longrightarrow> q \<noteq> 0 \<Longrightarrow> page_at p' q = page_at p q"
    using pager_allocate_frame [OF acc assms(2)] eq by (auto simp: runs_def)
  moreover have "q \<noteq> 0 \<and> q \<noteq> pid" if "q \<in> live" for q
    using pager_alloc.accounted_range [OF acc that] new that by auto
  ultimately show ?thesis
    using eq new by blast
qed

theorem pager_allocate_fresh_witness:
  "\<exists>p pid p'. pager_run p {} \<and> num_pages p = 1 \<and> pager_allocate_page p = (Inr pid, p') \<and> pid \<noteq> 0"
proof -
  obtain p where p: "pager_open empty_file = Inr p" "num_pages p = 1"
    by (rule pager_open_empty)
  then show ?thesis
    using pager_allocate_fresh [OF pager_run.start [OF p(1)]] pager_run.start [OF p(1)] by auto
qed

text \<open>
  (C24) No page is leaked or shared: on every run, the pages of the file other than page 0
  are exactly the pages in use together with the pages of the free list, and the two sets
  are disjoint.
\<close>

theorem pager_no_leak:
  assumes "pager_run p live"
  shows "\<exists>xs. pager_inv p xs \<and> live \<inter> set xs = {} \<and> live \<union> set xs = {0<..<num_pages p}"
  using pager_run_accounted [OF assms] by (simp add: pager_alloc.accounted_def)

theorem pager_no_leak_witness: "\<exists>p xs. pager_run p {} \<and> pager_inv p xs \<and> set xs = {0<..<num_pages p}"
proof -
  obtain p where p: "pager_open empty_file = Inr p"
    by (rule pager_open_empty)
  then show ?thesis
    using pager_no_leak [OF pager_run.start [OF p]] pager_run.start [OF p] by auto
qed

text \<open>
  The free list is last-in first-out: after a page in use is freed, the next
  allocation returns that page.
\<close>

theorem pager_free_then_allocate:
  assumes "pager_run p live" and "pid \<in> live"
  shows "\<exists>p' p''. pager_free_page pid p = (Inr (), p') \<and> pager_allocate_page p' = (Inr pid, p'')"
proof -
  have acc: "pager_alloc.accounted p live"
    using assms(1) by (rule pager_run_accounted)
  show ?thesis
    using pager_alloc.release_then_alloc [OF acc assms(2)]
    by (auto simp: runs_then_eq) (auto simp: runs_def)
qed

text \<open>
  A page that was written reads back as written, every other page reads as before,
  and the read does not fail: on a well-formed file, for any page inside the file or the
  one just past its end.
\<close>

theorem pager_write_read:
  assumes "pager_wf p" and "length pg = PAGE_SIZE" and "pid \<le> num_pages p" and "pid \<noteq> U32_MAX"
  shows "\<exists>p'. pager_write_page pid pg p = (Inr (), p') \<and> pager_wf p' \<and>
    pager_read_page pid p' = (Inr pg, p') \<and>
    (\<forall>q. q \<noteq> pid \<longrightarrow> fst (pager_read_page q p') = fst (pager_read_page q p))"
  using assms
  by (auto simp: pager_write_page_eq pager_put_wf pager_read_page_eq page_at_put)

theorem pager_write_read_witness:
  "\<exists>p p'. pager_wf p \<and> pager_write_page 1 (replicate PAGE_SIZE 7) p = (Inr (), p') \<and>
     pager_read_page 1 p' = (Inr (replicate PAGE_SIZE 7), p')"
proof -
  obtain p where p: "pager_inv p []" "num_pages p = 1"
    by (rule pager_open_empty)
  then show ?thesis
    using pager_write_read [OF pager_inv_wf, of p "[]" "replicate PAGE_SIZE 7" 1] pager_inv_wf [of p] by auto
qed

text \<open>
  Reopening is exact: opening the file of any pager reached by a run gives back the
  same pager, so the free list, the root and the checkpoint LSN survive.
\<close>

theorem pager_reopen_same:
  assumes "pager_run p live"
  shows "pager_open (pfile p) = Inr p"
  using accounted_inv [OF pager_run_accounted [OF assms]] by (auto simp: pager_inv_def pager_reopen)

end
