(* ===== verification/Lru.thy ===== *)
theory Lru
  imports Main
begin

text \<open>
  The interface of \<open>lru::LruCache\<close>, the third-party crate the buffer pool keeps its pages
  in. The crate's code is not part of the repository, so the pool is modelled over a
  record of its operations, and the locale \<open>lru_cache\<close> states what the crate documents
  about them: entries are kept in most-recently-used order, a lookup moves its entry to
  the front, a new entry in a full cache pushes out the last one. \<open>lru_iter\<close> is that
  order. The last section shows that the contract can be met.
\<close>

record ('k, 'v, 'c) lru_ops =
  lru_new :: "nat \<Rightarrow> 'c"
  lru_get :: "'k \<Rightarrow> 'c \<Rightarrow> 'v option \<times> 'c"
  lru_get_mut :: "'k \<Rightarrow> ('v \<Rightarrow> 'v) \<Rightarrow> 'c \<Rightarrow> 'c"
  lru_put :: "'k \<Rightarrow> 'v \<Rightarrow> 'c \<Rightarrow> 'c"
  lru_pop :: "'k \<Rightarrow> 'c \<Rightarrow> 'c"
  lru_pop_lru :: "'c \<Rightarrow> ('k \<times> 'v) option \<times> 'c"
  lru_contains :: "'k \<Rightarrow> 'c \<Rightarrow> bool"
  lru_len :: "'c \<Rightarrow> nat"
  lru_cap :: "'c \<Rightarrow> nat"
  lru_iter :: "'c \<Rightarrow> ('k \<times> 'v) list"
  lru_iter_mut :: "('k \<Rightarrow> 'v \<Rightarrow> 'v) \<Rightarrow> 'c \<Rightarrow> 'c"

section \<open>Entries in recency order\<close>

definition drop_key :: "'k \<Rightarrow> ('k \<times> 'v) list \<Rightarrow> ('k \<times> 'v) list" where
  "drop_key k es = filter (\<lambda>e. fst e \<noteq> k) es"

definition promote :: "'k \<Rightarrow> ('k \<times> 'v) list \<Rightarrow> ('k \<times> 'v) list" where
  "promote k es = (case map_of es k of None \<Rightarrow> es | Some v \<Rightarrow> (k, v) # drop_key k es)"

lemma map_of_drop_key: "map_of (drop_key k es) = (map_of es)(k := None)"
  by (induction es) (auto simp: drop_key_def fun_eq_iff)

lemma keys_drop_key [simp]: "fst ` set (drop_key k es) = fst ` set es - {k}"
  by (auto simp: drop_key_def)

lemma distinct_drop_key [simp]: "distinct (map fst es) \<Longrightarrow> distinct (map fst (drop_key k es))"
  by (simp add: drop_key_def distinct_map_filter)

lemma length_drop_key:
  "distinct (map fst es) \<Longrightarrow> k \<in> fst ` set es \<Longrightarrow> Suc (length (drop_key k es)) = length es"
proof (induction es)
  case Nil
  then show ?case by simp
next
  case (Cons e es)
  show ?case
  proof (cases "fst e = k")
    case True
    with Cons.prems have "k \<notin> fst ` set es"
      by simp
    then have "drop_key k es = es"
      unfolding drop_key_def by (intro filter_True) force
    with True show ?thesis by (simp add: drop_key_def)
  next
    case False
    with Cons show ?thesis by (auto simp: drop_key_def)
  qed
qed

lemma length_drop_key_le: "length (drop_key k es) \<le> length es"
  by (simp add: drop_key_def)

lemma map_of_promote [simp]: "map_of (promote k es) = map_of es"
  by (auto simp: promote_def map_of_drop_key fun_eq_iff split: option.splits)

lemma distinct_promote [simp]: "distinct (map fst es) \<Longrightarrow> distinct (map fst (promote k es))"
  by (auto simp: promote_def split: option.splits)

lemma length_promote [simp]: "distinct (map fst es) \<Longrightarrow> length (promote k es) = length es"
  by (auto simp: promote_def dest!: map_of_SomeD split: option.splits intro!: length_drop_key) force

section \<open>The contract\<close>

text \<open>
  \<open>ok c\<close> is the crate's own data invariant, which every operation keeps.
\<close>

locale lru_cache =
  fixes L :: "('k, 'v, 'c) lru_ops"
    and ok :: "'c \<Rightarrow> bool"
  assumes new: "0 < n \<Longrightarrow> ok (lru_new L n) \<and> lru_iter L (lru_new L n) = [] \<and> lru_cap L (lru_new L n) = n"
    and distinct_iter: "ok c \<Longrightarrow> distinct (map fst (lru_iter L c))"
    and len: "ok c \<Longrightarrow> lru_len L c = length (lru_iter L c)"
    and len_le_cap: "ok c \<Longrightarrow> lru_len L c \<le> lru_cap L c"
    and cap_pos: "ok c \<Longrightarrow> 0 < lru_cap L c"
    and contains: "ok c \<Longrightarrow> lru_contains L k c \<longleftrightarrow> k \<in> fst ` set (lru_iter L c)"
    and get: "ok c \<Longrightarrow> lru_get L k c = (r, c') \<Longrightarrow>
      r = map_of (lru_iter L c) k \<and> lru_iter L c' = promote k (lru_iter L c) \<and>
      lru_cap L c' = lru_cap L c \<and> ok c'"
    and get_mut: "ok c \<Longrightarrow>
      lru_iter L (lru_get_mut L k f c) =
        promote k (map (\<lambda>(k', v). (k', if k' = k then f v else v)) (lru_iter L c)) \<and>
      lru_cap L (lru_get_mut L k f c) = lru_cap L c \<and> ok (lru_get_mut L k f c)"
    and put: "ok c \<Longrightarrow>
      lru_iter L (lru_put L k v c) =
        (k, v) # (if lru_contains L k c then drop_key k (lru_iter L c)
                  else if lru_len L c = lru_cap L c then butlast (lru_iter L c)
                  else lru_iter L c) \<and>
      lru_cap L (lru_put L k v c) = lru_cap L c \<and> ok (lru_put L k v c)"
    and pop: "ok c \<Longrightarrow>
      lru_iter L (lru_pop L k c) = drop_key k (lru_iter L c) \<and>
      lru_cap L (lru_pop L k c) = lru_cap L c \<and> ok (lru_pop L k c)"
    and pop_lru: "ok c \<Longrightarrow> lru_pop_lru L c = (e, c') \<Longrightarrow>
      e = (if lru_iter L c = [] then None else Some (last (lru_iter L c))) \<and>
      lru_iter L c' = butlast (lru_iter L c) \<and> lru_cap L c' = lru_cap L c \<and> ok c'"
    and iter_mut: "ok c \<Longrightarrow>
      lru_iter L (lru_iter_mut L g c) = map (\<lambda>(k, v). (k, g k v)) (lru_iter L c) \<and>
      lru_cap L (lru_iter_mut L g c) = lru_cap L c \<and> ok (lru_iter_mut L g c)"
begin

text \<open>The cache as a map.\<close>

definition lookup :: "'c \<Rightarrow> 'k \<Rightarrow> 'v option" where
  "lookup c = map_of (lru_iter L c)"

lemma contains_lookup: "ok c \<Longrightarrow> lru_contains L k c \<longleftrightarrow> lookup c k \<noteq> None"
  by (simp add: contains lookup_def map_of_eq_None_iff)

lemma lookup_new: "0 < n \<Longrightarrow> lookup (lru_new L n) = Map.empty"
  using new by (simp add: lookup_def)

lemma lookup_get: "ok c \<Longrightarrow> lru_get L k c = (r, c') \<Longrightarrow> r = lookup c k \<and> lookup c' = lookup c \<and> ok c'"
  using get [of c k r c'] by (simp add: lookup_def)

lemma map_of_map_upd:
  "map_of (map (\<lambda>(k', v). (k', if k' = k then f v else v)) es) =
     (case map_of es k of None \<Rightarrow> map_of es | Some v \<Rightarrow> (map_of es)(k \<mapsto> f v))"
  by (induction es) (auto simp: fun_eq_iff split: option.splits)

lemma lookup_get_mut:
  "ok c \<Longrightarrow> lookup (lru_get_mut L k f c) =
     (case lookup c k of None \<Rightarrow> lookup c | Some v \<Rightarrow> (lookup c)(k \<mapsto> f v)) \<and> ok (lru_get_mut L k f c)"
  using get_mut [of c k f] by (auto simp: lookup_def map_of_map_upd split: option.splits)

lemma lookup_put:
  "ok c \<Longrightarrow> lru_contains L k c \<or> lru_len L c < lru_cap L c \<Longrightarrow>
   lookup (lru_put L k v c) = (lookup c)(k \<mapsto> v) \<and> ok (lru_put L k v c)"
  using put [of c k v] by (auto simp: lookup_def map_of_drop_key fun_eq_iff)

lemma lookup_pop: "ok c \<Longrightarrow> lookup (lru_pop L k c) = (lookup c)(k := None) \<and> ok (lru_pop L k c)"
  using pop [of c k] by (simp add: lookup_def map_of_drop_key)

lemma map_of_butlast:
  "distinct (map fst es) \<Longrightarrow> es \<noteq> [] \<Longrightarrow> map_of (butlast es) = (map_of es)(fst (last es) := None)"
proof (induction es)
  case Nil
  then show ?case by simp
next
  case (Cons e es)
  show ?case
  proof (cases "es = []")
    case True
    then show ?thesis by (auto simp: fun_eq_iff)
  next
    case False
    then have "fst (last es) \<noteq> fst e"
      using Cons.prems(1) by (metis distinct.simps(2) image_eqI last_in_set list.set_map list.simps(9))
    with False Cons show ?thesis by (auto simp: fun_eq_iff)
  qed
qed

lemma lookup_pop_lru:
  assumes "ok c" "lru_pop_lru L c = (r, c')" "lru_len L c = lru_cap L c"
  obtains k v where "r = Some (k, v)" "lookup c k = Some v" "lookup c' = (lookup c)(k := None)"
    "ok c'" "lru_len L c' < lru_cap L c'"
proof -
  have ne: "lru_iter L c \<noteq> []"
    using cap_pos [OF assms(1)] len [OF assms(1)] assms(3) by auto
  obtain k v where kv: "last (lru_iter L c) = (k, v)"
    by force
  then have "(k, v) \<in> set (lru_iter L c)"
    using last_in_set [OF ne] by simp
  then have "lookup c k = Some v"
    using distinct_iter [OF assms(1)] by (simp add: lookup_def)
  moreover have "r = Some (k, v)" "lookup c' = (lookup c)(k := None)" "ok c'"
    using pop_lru [OF assms(1,2)] ne kv map_of_butlast [OF distinct_iter [OF assms(1)] ne]
    by (simp_all add: lookup_def)
  moreover have "lru_len L c' < lru_cap L c'"
    using pop_lru [OF assms(1,2)] len assms(1,3) ne cap_pos [OF assms(1)]
    by (auto simp: len)
  ultimately show ?thesis using that by blast
qed

lemma lookup_iter_mut:
  "ok c \<Longrightarrow> lookup (lru_iter_mut L g c) = (\<lambda>k. map_option (g k) (lookup c k)) \<and> ok (lru_iter_mut L g c)"
proof -
  have "map_of (map (\<lambda>(k, v). (k, g k v)) es) = (\<lambda>k. map_option (g k) (map_of es k))" for es
    by (induction es) auto
  then show "ok c \<Longrightarrow> ?thesis"
    using iter_mut [of c g] by (simp add: lookup_def)
qed

lemma lookup_iff_iter: "ok c \<Longrightarrow> lookup c k = Some v \<longleftrightarrow> (k, v) \<in> set (lru_iter L c)"
  using distinct_iter [of c] by (simp add: lookup_def)

end

section \<open>The contract can be met\<close>

text \<open>A capacity with a list of entries, most recently used first.\<close>

type_synonym ('k, 'v) lru_list = "nat \<times> ('k \<times> 'v) list"

definition lru_list :: "('k, 'v, ('k, 'v) lru_list) lru_ops" where
  "lru_list = \<lparr>
     lru_new = (\<lambda>n. (n, [])),
     lru_get = (\<lambda>k (n, es). (map_of es k, (n, promote k es))),
     lru_get_mut = (\<lambda>k f (n, es). (n, promote k (map (\<lambda>(k', v). (k', if k' = k then f v else v)) es))),
     lru_put = (\<lambda>k v (n, es). (n, (k, v) # (if k \<in> fst ` set es then drop_key k es
                                            else if length es = n then butlast es else es))),
     lru_pop = (\<lambda>k (n, es). (n, drop_key k es)),
     lru_pop_lru = (\<lambda>(n, es). (if es = [] then None else Some (last es), (n, butlast es))),
     lru_contains = (\<lambda>k (n, es). k \<in> fst ` set es),
     lru_len = (\<lambda>(n, es). length es),
     lru_cap = (\<lambda>(n, es). n),
     lru_iter = (\<lambda>(n, es). es),
     lru_iter_mut = (\<lambda>g (n, es). (n, map (\<lambda>(k, v). (k, g k v)) es))\<rparr>"

definition lru_list_ok :: "('k, 'v) lru_list \<Rightarrow> bool" where
  "lru_list_ok c \<longleftrightarrow> 0 < fst c \<and> distinct (map fst (snd c)) \<and> length (snd c) \<le> fst c"

lemma map_fst_upd [simp]:
  "map fst (map (\<lambda>(k', v). (k', if k' = k then f v else v)) es) = map fst es"
  "map fst (map (\<lambda>(k, v). (k, g k v)) es) = map fst es"
  by (induction es) auto

lemma distinct_butlast_keys: "distinct (map fst es) \<Longrightarrow> distinct (map fst (butlast es))"
  by (simp add: map_butlast distinct_butlast)

lemmas lru_list_defs = lru_list_def lru_list_ok_def

interpretation lru_list: lru_cache lru_list lru_list_ok
proof unfold_locales
  fix c :: "('a, 'b) lru_list" and k v
  assume ok: "lru_list_ok c"
  obtain n es where c: "c = (n, es)"
    by (cases c)
  have "length (drop_key k es) < n" if "k \<in> fst ` set es"
    using that ok length_drop_key [of es k] by (auto simp: c lru_list_ok_def)
  then show "lru_iter lru_list (lru_put lru_list k v c) =
        (k, v) # (if lru_contains lru_list k c then drop_key k (lru_iter lru_list c)
                  else if lru_len lru_list c = lru_cap lru_list c then butlast (lru_iter lru_list c)
                  else lru_iter lru_list c) \<and>
      lru_cap lru_list (lru_put lru_list k v c) = lru_cap lru_list c \<and>
      lru_list_ok (lru_put lru_list k v c)"
    using ok by (auto simp: c lru_list_defs distinct_butlast_keys dest: in_set_butlastD
        intro!: imageI Suc_leI)
  show "lru_iter lru_list (lru_pop lru_list k c) = drop_key k (lru_iter lru_list c) \<and>
      lru_cap lru_list (lru_pop lru_list k c) = lru_cap lru_list c \<and> lru_list_ok (lru_pop lru_list k c)"
    using ok length_drop_key_le [of k es] by (auto simp: c lru_list_defs)
qed (auto simp: lru_list_defs distinct_butlast_keys simp del: map_map split: prod.splits if_splits)

end
