(* ===== verification/BufferPool.thy ===== *)
theory BufferPool
  imports Pager Lru
begin

text \<open>
  The buffer pool (\<open>src/storage/buffer_pool.rs\<close>): an LRU cache of pages over the pager.
  A \<open>PageRef\<close> (\<open>Arc<RwLock<Page>>\<close>) is an index into \<open>frames\<close>, the heap of pages in
  memory, because \<open>write_page\<close> changes a cached page in place, through the reference.
  The cache itself is the third-party \<open>LruCache\<close>: its operations are the argument \<open>L\<close>.
  Locks are not modelled; every operation is one sequential step.
\<close>

section \<open>Model\<close>

type_synonym page_ref = nat
type_synonym 'c cache_ops = "(page_id, page_ref \<times> bool, 'c) lru_ops"

record 'c pool =
  pager :: pager
  cache :: 'c
  frames :: "page list"
  dirty_write_count :: u32
  sync_interval :: u32

definition pool_new :: "'c cache_ops \<Rightarrow> pager \<Rightarrow> nat \<Rightarrow> 'c pool" where
  "pool_new L p capacity =
     \<lparr>pager = p, cache = lru_new L (max capacity 1), frames = [],
      dirty_write_count = 0, sync_interval = 0\<rparr>"

definition pool_with_sync_interval :: "u32 \<Rightarrow> 'c pool \<Rightarrow> 'c pool" where
  "pool_with_sync_interval interval s = s\<lparr>sync_interval := interval\<rparr>"

text \<open>Running an operation of the pager, or of the cache, on the part of the state it owns.\<close>

definition on_pager :: "(pager, 'a) M \<Rightarrow> ('c pool, 'a) M" where
  "on_pager m = (\<lambda>s. case m (pager s) of (r, p') \<Rightarrow> (r, s\<lparr>pager := p'\<rparr>))"

definition on_cache :: "('c \<Rightarrow> 'a \<times> 'c) \<Rightarrow> ('c pool, 'a) M" where
  "on_cache f = (\<lambda>s. case f (cache s) of (x, c') \<Rightarrow> (Inr x, s\<lparr>cache := c'\<rparr>))"

definition upd_cache :: "('c \<Rightarrow> 'c) \<Rightarrow> ('c pool, unit) M" where
  "upd_cache f = modify (\<lambda>s. s\<lparr>cache := f (cache s)\<rparr>)"

text \<open>\<open>Arc::new(RwLock::new(page))\<close>, \<open>page_ref.read()\<close> and \<open>*page_ref.write() = page\<close>.\<close>

definition new_frame :: "page \<Rightarrow> ('c pool, page_ref) M" where
  "new_frame pg = (\<lambda>s. (Inr (length (frames s)), s\<lparr>frames := frames s @ [pg]\<rparr>))"

definition read_frame :: "page_ref \<Rightarrow> ('c pool, page) M" where
  "read_frame r = gets (\<lambda>s. frames s ! r)"

definition write_frame :: "page_ref \<Rightarrow> page \<Rightarrow> ('c pool, unit) M" where
  "write_frame r pg = modify (\<lambda>s. s\<lparr>frames := (frames s)[r := pg]\<rparr>)"

definition pool_put_and_evict :: "'c cache_ops \<Rightarrow> page_id \<Rightarrow> page_ref \<Rightarrow> bool \<Rightarrow> ('c pool, unit) M" where
  "pool_put_and_evict L pid r is_dirty =
     sthen
       (sbind (gets cache) (\<lambda>c.
          if lru_len L c = lru_cap L c \<and> \<not> lru_contains L pid c then
            sbind (on_cache (lru_pop_lru L)) (\<lambda>evicted.
              case evicted of
                Some (evict_id, evict_ref, evict_dirty) \<Rightarrow>
                  if evict_dirty then
                    sbind (read_frame evict_ref) (\<lambda>pg. on_pager (pager_write_page evict_id pg))
                  else ret ()
              | None \<Rightarrow> ret ())
          else ret ()))
       (sbind (on_cache (lru_get L pid)) (\<lambda>entry.
          case entry of
            Some (_, curr_dirty) \<Rightarrow> upd_cache (lru_put L pid (r, is_dirty \<or> curr_dirty))
          | None \<Rightarrow> upd_cache (lru_put L pid (r, is_dirty))))"

definition pool_fetch_page :: "'c cache_ops \<Rightarrow> page_id \<Rightarrow> ('c pool, page_ref) M" where
  "pool_fetch_page L pid =
     sbind (on_cache (lru_get L pid)) (\<lambda>entry.
       case entry of
         Some (r, _) \<Rightarrow> ret r
       | None \<Rightarrow>
           sbind (on_pager (pager_read_page pid)) (\<lambda>pg.
           sbind (new_frame pg) (\<lambda>r.
           sthen (pool_put_and_evict L pid r False) (ret r))))"

definition pool_flush_all :: "'c cache_ops \<Rightarrow> ('c pool, unit) M" where
  "pool_flush_all L =
     sbind (gets (\<lambda>s. filter (\<lambda>(pid, r, d). d) (lru_iter L (cache s)))) (\<lambda>to_flush.
     sthen (upd_cache (lru_iter_mut L (\<lambda>pid (r, d). (r, False))))
       (for_each (\<lambda>(pid, r, d).
          sbind (read_frame r) (\<lambda>pg. on_pager (pager_write_page pid pg))) to_flush))"

definition pool_sync :: "('c pool, unit) M" where
  "pool_sync = on_pager pager_sync"

definition pool_flush_and_sync :: "'c cache_ops \<Rightarrow> ('c pool, unit) M" where
  "pool_flush_and_sync L = sthen (pool_flush_all L) pool_sync"

definition pool_count_dirty_write :: "'c cache_ops \<Rightarrow> ('c pool, unit) M" where
  "pool_count_dirty_write L =
     sbind (gets sync_interval) (\<lambda>interval.
       if 0 < interval then
         sthen (modify (\<lambda>s. s\<lparr>dirty_write_count := dirty_write_count s + 1\<rparr>))
           (sbind (gets dirty_write_count) (\<lambda>dwc.
              if interval \<le> dwc then
                sthen (modify (\<lambda>s. s\<lparr>dirty_write_count := 0\<rparr>)) (pool_flush_and_sync L)
              else ret ()))
       else ret ())"

definition pool_mark_dirty :: "'c cache_ops \<Rightarrow> page_id \<Rightarrow> ('c pool, unit) M" where
  "pool_mark_dirty L pid =
     sthen (upd_cache (lru_get_mut L pid (\<lambda>(r, d). (r, True)))) (pool_count_dirty_write L)"

definition pool_write_page :: "'c cache_ops \<Rightarrow> page_id \<Rightarrow> page \<Rightarrow> ('c pool, unit) M" where
  "pool_write_page L pid pg =
     sbind (on_cache (lru_get L pid)) (\<lambda>entry.
       case entry of
         Some (r, _) \<Rightarrow> sthen (write_frame r pg) (pool_mark_dirty L pid)
       | None \<Rightarrow>
           sbind (new_frame pg) (\<lambda>r.
           sthen (pool_put_and_evict L pid r True) (pool_count_dirty_write L)))"

definition pool_allocate_page :: "('c pool, page_id) M" where
  "pool_allocate_page = on_pager pager_allocate_page"

definition pool_free_page :: "'c cache_ops \<Rightarrow> page_id \<Rightarrow> ('c pool, unit) M" where
  "pool_free_page L pid = sthen (upd_cache (lru_pop L pid)) (on_pager (pager_free_page pid))"

definition pool_get_num_pages :: "'c pool \<Rightarrow> u32" where
  "pool_get_num_pages s = num_pages (pager s)"

definition pool_write_checkpoint_lsn :: "u64 \<Rightarrow> ('c pool, unit) M" where
  "pool_write_checkpoint_lsn lsn = on_pager (pager_write_checkpoint_lsn lsn)"

section \<open>Rules for the building blocks\<close>

lemma runs_on_pager [simp]: "runs (on_pager m) s Q = runs m (pager s) (\<lambda>x p. Q x (s\<lparr>pager := p\<rparr>))"
  by (auto simp: runs_def on_pager_def split: prod.splits)

lemma runs_on_cache [simp]:
  "runs (on_cache f) s Q = Q (fst (f (cache s))) (s\<lparr>cache := snd (f (cache s))\<rparr>)"
  by (auto simp: runs_def on_cache_def split: prod.splits)

lemma runs_upd_cache [simp]: "runs (upd_cache f) s Q = Q () (s\<lparr>cache := f (cache s)\<rparr>)"
  by (simp add: upd_cache_def)

lemma runs_new_frame [simp]: "runs (new_frame pg) s Q = Q (length (frames s)) (s\<lparr>frames := frames s @ [pg]\<rparr>)"
  by (auto simp: runs_def new_frame_def)

lemma runs_read_frame [simp]: "runs (read_frame r) s Q = Q (frames s ! r) s"
  by (simp add: read_frame_def)

lemma runs_write_frame [simp]: "runs (write_frame r pg) s Q = Q () (s\<lparr>frames := (frames s)[r := pg]\<rparr>)"
  by (simp add: write_frame_def)

lemma runs_pager_write [simp]: "runs (pager_write_page pid pg) p Q = Q () (pager_put pid pg p)"
  by (simp add: runs_def pager_write_page_eq)

section \<open>What the pool holds\<close>

text \<open>
  \<open>view s pid\<close> is the page a fetch returns: the cached copy if there is one, else the
  page on disk. A cached page is \<open>dirty\<close>, or clean; a clean page is \<open>coherent\<close> when it
  equals the page on disk. The pool's invariant \<open>pool_ok\<close>: cached references are valid
  and not shared between pages, and dirty pages lie inside the file.
\<close>

definition pool_entry :: "'c cache_ops \<Rightarrow> 'c pool \<Rightarrow> page_id \<Rightarrow> (page_ref \<times> bool) option" where
  "pool_entry L s pid = map_of (lru_iter L (cache s)) pid"

definition pool_disk :: "'c pool \<Rightarrow> page_id \<Rightarrow> page" where
  "pool_disk s = page_at (pager s)"

definition pool_view :: "'c cache_ops \<Rightarrow> 'c pool \<Rightarrow> page_id \<Rightarrow> page" where
  "pool_view L s pid =
     (case pool_entry L s pid of Some (r, d) \<Rightarrow> frames s ! r | None \<Rightarrow> pool_disk s pid)"

definition pool_dirty :: "'c cache_ops \<Rightarrow> 'c pool \<Rightarrow> page_id \<Rightarrow> bool" where
  "pool_dirty L s pid \<longleftrightarrow> (\<exists>r. pool_entry L s pid = Some (r, True))"

definition pool_coherent :: "'c cache_ops \<Rightarrow> 'c pool \<Rightarrow> page_id \<Rightarrow> bool" where
  "pool_coherent L s pid \<longleftrightarrow> pool_dirty L s pid \<or> pool_view L s pid = pool_disk s pid"

definition pool_ok :: "'c cache_ops \<Rightarrow> ('c \<Rightarrow> bool) \<Rightarrow> 'c pool \<Rightarrow> bool" where
  "pool_ok L ok s \<longleftrightarrow> ok (cache s) \<and> pager_wf (pager s) \<and>
     (\<forall>pid r d. pool_entry L s pid = Some (r, d) \<longrightarrow>
        r < length (frames s) \<and> length (frames s ! r) = PAGE_SIZE \<and> (d \<longrightarrow> pid < num_pages (pager s))) \<and>
     (\<forall>pid pid' r d d'. pool_entry L s pid = Some (r, d) \<longrightarrow> pool_entry L s pid' = Some (r, d') \<longrightarrow> pid = pid')"

text \<open>
  \<open>pool_evolves L X s s'\<close>: outside the pages \<open>X\<close>, the step from \<open>s\<close> to \<open>s'\<close> changed
  nothing a client can see; on disk it wrote at most pages that were dirty, with their
  contents.
\<close>

definition pool_evolves :: "'c cache_ops \<Rightarrow> page_id set \<Rightarrow> 'c pool \<Rightarrow> 'c pool \<Rightarrow> bool" where
  "pool_evolves L X s s' \<longleftrightarrow> num_pages (pager s') = num_pages (pager s) \<and>
     (\<forall>q. q \<notin> X \<longrightarrow>
        (pool_coherent L s q \<longrightarrow> pool_view L s' q = pool_view L s q \<and> pool_coherent L s' q) \<and>
        (pool_dirty L s' q \<longrightarrow> pool_dirty L s q) \<and>
        (pool_disk s' q = pool_disk s q \<or> pool_dirty L s q \<and> pool_disk s' q = pool_view L s q))"

locale pool_cache = lru_cache L ok
  for L :: "'c cache_ops" and ok :: "'c \<Rightarrow> bool"
begin

abbreviation "entry \<equiv> pool_entry L"
abbreviation "disk \<equiv> pool_disk"
abbreviation "view \<equiv> pool_view L"
abbreviation "dirty \<equiv> pool_dirty L"
abbreviation "coherent \<equiv> pool_coherent L"
abbreviation "pool_okay \<equiv> pool_ok L ok"
abbreviation "evolves \<equiv> pool_evolves L"

lemmas disk_def = pool_disk_def
lemmas view_def = pool_view_def [of L]
lemmas dirty_def = pool_dirty_def [of L]
lemmas coherent_def = pool_coherent_def [of L]
lemmas evolves_def = pool_evolves_def [of L]

lemma entry_def: "entry s pid = lookup (cache s) pid"
  by (simp add: pool_entry_def lookup_def)

lemma evolves_refl [simp]: "evolves X s s"
  by (simp add: evolves_def)

lemma evolves_trans:
  assumes "evolves X s t" "evolves X t u"
  shows "evolves X s u"
  unfolding evolves_def
proof (intro conjI allI impI)
  show "num_pages (pager u) = num_pages (pager s)"
    using assms by (simp add: evolves_def)
next
  fix q
  assume q: "q \<notin> X"
  have s: "coherent s q \<Longrightarrow> view t q = view s q \<and> coherent t q" "dirty t q \<Longrightarrow> dirty s q"
    "disk t q = disk s q \<or> dirty s q \<and> disk t q = view s q"
    using assms(1) q by (auto simp: evolves_def)
  have t: "coherent t q \<Longrightarrow> view u q = view t q \<and> coherent u q" "dirty u q \<Longrightarrow> dirty t q"
    "disk u q = disk t q \<or> dirty t q \<and> disk u q = view t q"
    using assms(2) q by (auto simp: evolves_def)
  show "coherent s q \<Longrightarrow> view u q = view s q" "coherent s q \<Longrightarrow> coherent u q" "dirty u q \<Longrightarrow> dirty s q"
    using s t by auto
  have "dirty t q \<Longrightarrow> view t q = view s q"
    using s by (auto simp: coherent_def)
  then show "disk u q = disk s q \<or> dirty s q \<and> disk u q = view s q"
    using s t by auto
qed

lemma evolves_mono: "evolves X s t \<Longrightarrow> X \<subseteq> Y \<Longrightarrow> evolves Y s t"
  by (auto simp: evolves_def)

lemma view_None: "entry s pid = None \<Longrightarrow> view s pid = disk s pid"
  by (simp add: view_def)

lemma uncached_coherent: "entry s pid = None \<Longrightarrow> coherent s pid"
  by (simp add: coherent_def view_None)

lemma dirty_coherent: "dirty s pid \<Longrightarrow> coherent s pid"
  by (simp add: coherent_def)

lemma pool_okD:
  assumes "pool_okay s"
  shows "ok (cache s)" "pager_wf (pager s)"
    "entry s pid = Some (r, d) \<Longrightarrow> r < length (frames s) \<and> length (frames s ! r) = PAGE_SIZE"
    "dirty s pid \<Longrightarrow> pid < num_pages (pager s)"
    "entry s pid = Some (r, d) \<Longrightarrow> entry s pid' = Some (r, d') \<Longrightarrow> pid = pid'"
  using assms unfolding pool_ok_def dirty_def by blast+

lemma length_view: "pool_okay s \<Longrightarrow> length (view s pid) = PAGE_SIZE"
  by (auto simp: view_def disk_def pool_okD split: option.splits)



subsection \<open>Steps that leave the entries alone\<close>

lemma runs_pager_read: "pager_wf p \<Longrightarrow> runs (pager_read_page pid) p Q = Q (page_at p pid) p"
  by (simp add: runs_def pager_read_page_eq)

lemma evolves_fill:
  assumes "evolves {pid} s s'" "coherent s pid \<Longrightarrow> view s' pid = view s pid \<and> coherent s' pid"
    "dirty s' pid \<Longrightarrow> dirty s pid" "disk s' pid = disk s pid \<or> dirty s pid \<and> disk s' pid = view s pid"
  shows "evolves {} s s'"
proof -
  have "(coherent s q \<longrightarrow> view s' q = view s q \<and> coherent s' q) \<and> (dirty s' q \<longrightarrow> dirty s q) \<and>
      (disk s' q = disk s q \<or> dirty s q \<and> disk s' q = view s q)" for q
    using assms by (cases "q = pid") (auto simp: evolves_def)
  then show ?thesis
    using assms(1) by (simp add: evolves_def)
qed

lemma same_page:
  assumes "entry s' q = entry s q" "disk s' q = disk s q"
    "\<And>r d. entry s q = Some (r, d) \<Longrightarrow> frames s' ! r = frames s ! r"
  shows "view s' q = view s q" "dirty s' q = dirty s q" "coherent s' q = coherent s q"
  using assms by (auto simp: view_def dirty_def coherent_def split: option.splits)

lemma same_state:
  assumes "entry s' = entry s" "frames s' = frames s" "pager s' = pager s"
  shows "view s' = view s" "dirty s' = dirty s" "disk s' = disk s" "coherent s' = coherent s"
    "ok (cache s') \<Longrightarrow> pool_okay s \<Longrightarrow> pool_okay s'" "evolves X s s'"
proof -
  show disk: "disk s' = disk s" and dirty: "dirty s' = dirty s"
    using assms by (simp_all add: disk_def dirty_def fun_eq_iff)
  show view: "view s' = view s"
    using same_page(1) [of s' _ s] assms disk by (simp add: fun_eq_iff)
  show coh: "coherent s' = coherent s"
    using disk dirty view by (simp add: coherent_def fun_eq_iff)
  show "ok (cache s') \<Longrightarrow> pool_okay s \<Longrightarrow> pool_okay s'"
    using assms by (simp add: pool_ok_def)
  show "evolves X s s'"
    using disk dirty view coh assms by (simp add: evolves_def)
qed

lemma get_step:
  assumes "pool_okay s" "s' = s\<lparr>cache := snd (lru_get L pid (cache s))\<rparr>"
  shows "fst (lru_get L pid (cache s)) = entry s pid" "entry s' = entry s" "pool_okay s'"
    "evolves X s s'" "view s' = view s" "disk s' = disk s" "frames s' = frames s" "pager s' = pager s"
    "lru_len L (cache s') = lru_len L (cache s)" "lru_cap L (cache s') = lru_cap L (cache s)"
    "lru_contains L q (cache s') = lru_contains L q (cache s)"
proof -
  obtain e c' where eq: "lru_get L pid (cache s) = (e, c')"
    by (cases "lru_get L pid (cache s)")
  note ok_s = pool_okD(1) [OF assms(1)]
  have e: "e = lookup (cache s) pid" "lookup c' = lookup (cache s)" "ok c'"
    using lookup_get [OF ok_s eq] by auto
  have iter: "lru_iter L c' = promote pid (lru_iter L (cache s))" "lru_cap L c' = lru_cap L (cache s)"
    using get [OF ok_s eq] by auto
  show ent: "entry s' = entry s"
    using e eq assms(2) by (simp add: entry_def fun_eq_iff)
  show "fst (lru_get L pid (cache s)) = entry s pid"
    using e eq by (simp add: entry_def)
  have "cache s' = c'" "frames s' = frames s" "pager s' = pager s"
    using assms(2) eq by auto
  then show "pool_okay s'" "evolves X s s'" "view s' = view s" "disk s' = disk s" "frames s' = frames s"
    "pager s' = pager s" "lru_cap L (cache s') = lru_cap L (cache s)"
    "lru_len L (cache s') = lru_len L (cache s)"
    "lru_contains L q (cache s') = lru_contains L q (cache s)"
    using same_state [OF ent] e assms(1) iter len ok_s distinct_iter
    by (auto simp: contains_lookup)
qed

subsection \<open>Eviction and insertion\<close>

text \<open>The pager after the victim of an eviction was written back, if it was dirty.\<close>

lemma write_back:
  assumes "pool_okay s" "entry s k = Some (er, ed)" "ok c'" "lookup c' = (lookup (cache s))(k := None)"
    and "s' = s\<lparr>cache := c', pager := (if ed then pager_put k (frames s ! er) (pager s) else pager s)\<rparr>"
  shows "pool_okay s'" "evolves {} s s'" "entry s' = (entry s)(k := None)"
proof -
  have ent: "entry s' = (entry s)(k := None)"
    using assms(4,5) by (simp add: entry_def fun_eq_iff)
  have len: "length (frames s ! er) = PAGE_SIZE" and wf: "pager_wf (pager s)"
    using pool_okD [OF assms(1)] assms(2) by auto
  have inside: "k < num_pages (pager s)" if ed
    using pool_okD(4) [OF assms(1), of k] assms(2) that by (auto simp: dirty_def)
  have disk: "disk s' = (if ed then (disk s)(k := frames s ! er) else disk s)"
    and wf': "pager_wf (pager s')" and n: "num_pages (pager s') = num_pages (pager s)"
    using pager_put_in [OF wf inside len] wf assms(5) by (auto simp: disk_def)
  show "entry s' = (entry s)(k := None)"
    by (rule ent)
  show "pool_okay s'"
    using assms(1,3,5) wf' n ent by (auto simp: pool_ok_def split: if_splits)
  have viewk: "view s k = frames s ! er"
    using assms(2) by (simp add: view_def)
  have fr: "frames s' = frames s"
    using assms(5) by simp
  have "(coherent s q \<longrightarrow> view s' q = view s q \<and> coherent s' q) \<and> (dirty s' q \<longrightarrow> dirty s q) \<and>
      (disk s' q = disk s q \<or> dirty s q \<and> disk s' q = view s q)" for q
  proof (cases "q = k")
    case True
    have "view s' k = disk s' k" "\<not> dirty s' k"
      using ent by (simp_all add: view_def dirty_def)
    moreover have "ed \<Longrightarrow> disk s' k = view s k \<and> dirty s k"
      using disk viewk assms(2) by (auto simp: dirty_def)
    moreover have "\<not> ed \<Longrightarrow> disk s' k = disk s k \<and> \<not> dirty s k"
      using disk assms(2) by (auto simp: dirty_def)
    ultimately show ?thesis
      using True by (cases ed) (auto simp: coherent_def)
  next
    case False
    then have "entry s' q = entry s q" "disk s' q = disk s q"
      using ent disk by auto
    then show ?thesis
      using same_page [of s' q s] fr by simp
  qed
  then show "evolves {} s s'"
    using n by (simp add: evolves_def)
qed


definition fresh_ref :: "'c pool \<Rightarrow> page_ref \<Rightarrow> bool" where
  "fresh_ref s r \<longleftrightarrow> r < length (frames s) \<and> length (frames s ! r) = PAGE_SIZE \<and>
     (\<forall>q d. entry s q \<noteq> Some (r, d))"

lemma insert_entry:
  assumes "pool_okay s" "fresh_ref s r" "entry s pid = None" "d \<longrightarrow> pid < num_pages (pager s)"
    and "ok c'" "lookup c' = (lookup (cache s))(pid \<mapsto> (r, d))" "s' = s\<lparr>cache := c'\<rparr>"
  shows "pool_okay s'" "evolves {pid} s s'" "entry s' = (entry s)(pid \<mapsto> (r, d))"
    "view s' pid = frames s ! r" "disk s' = disk s"
proof -
  show ent: "entry s' = (entry s)(pid \<mapsto> (r, d))"
    using assms(6,7) by (simp add: entry_def fun_eq_iff)
  show disk: "disk s' = disk s"
    using assms(7) by (simp add: disk_def)
  have st: "frames s' = frames s" "pager s' = pager s" "cache s' = c'"
    using assms(7) by auto
  show "view s' pid = frames s ! r"
    using ent st by (simp add: view_def)
  show "evolves {pid} s s'"
    using same_page [of s' _ s] ent disk st by (auto simp: evolves_def)
  have "r \<noteq> r'" if "entry s q = Some (r', d')" for q r' d'
    using assms(2) that by (auto simp: fresh_ref_def)
  then show "pool_okay s'"
    using assms(1,2,4,5) ent st by (auto simp: pool_ok_def fresh_ref_def split: if_splits)
qed

text \<open>
  Putting a page into the cache: the victim, if one must go, is written back when it is
  dirty, so nothing a client can see changes.
\<close>

lemma put_and_evict_spec:
  assumes "pool_okay s" "fresh_ref s r" "entry s pid = None" "d \<longrightarrow> pid < num_pages (pager s)"
  shows "runs (pool_put_and_evict L pid r d) s (\<lambda>_ s'. pool_okay s' \<and> evolves {pid} s s' \<and>
    entry s' pid = Some (r, d) \<and> disk s' pid = disk s pid \<and> frames s' = frames s \<and> sync_interval s' = sync_interval s)"
proof -
  let ?c = "cache s"
  have ok_c: "ok ?c"
    using pool_okD(1) [OF assms(1)] .
  have finish: "runs (sbind (on_cache (lru_get L pid)) (\<lambda>entry.
          case entry of
            Some (_, curr_dirty) \<Rightarrow> upd_cache (lru_put L pid (r, d \<or> curr_dirty))
          | None \<Rightarrow> upd_cache (lru_put L pid (r, d)))) s1
        (\<lambda>_ s'. pool_okay s' \<and> evolves {pid} s s' \<and> entry s' pid = Some (r, d) \<and> disk s' pid = disk s pid \<and>
           frames s' = frames s \<and> sync_interval s' = sync_interval s)"
    if s1: "pool_okay s1" "evolves {} s s1" "frames s1 = frames s" "sync_interval s1 = sync_interval s"
      and sub: "\<And>q. entry s1 q = entry s q \<or> entry s1 q = None"
      and room: "lru_len L (cache s1) < lru_cap L (cache s1)" for s1
  proof -
    have none: "entry s1 pid = None"
      using sub assms(3) by metis
    have fresh: "fresh_ref s1 r"
      using assms(2) s1(3) sub by (auto simp: fresh_ref_def) (metis option.distinct(1))
    have d: "d \<longrightarrow> pid < num_pages (pager s1)"
      using assms(4) s1(2) by (simp add: evolves_def)
    define s2 where "s2 = s1\<lparr>cache := snd (lru_get L pid (cache s1))\<rparr>"
    note g = get_step [OF s1(1) s2_def]
    have fresh2: "fresh_ref s2 r" and none2: "entry s2 pid = None"
      using fresh none g by (simp_all add: fresh_ref_def)
    have put: "ok (lru_put L pid (r, d) (cache s2))"
      "lookup (lru_put L pid (r, d) (cache s2)) = (lookup (cache s2))(pid \<mapsto> (r, d))"
      using lookup_put [OF pool_okD(1) [OF g(3)]] room g by auto
    define s3 where "s3 = s2\<lparr>cache := lru_put L pid (r, d) (cache s2)\<rparr>"
    note i = insert_entry [OF g(3) fresh2 none2 _ put s3_def]
    have ev: "evolves {pid} s s3"
      using evolves_trans [OF evolves_mono [OF s1(2)] evolves_trans [OF g(4) i(2)]] d g by simp
    have "disk s1 pid = disk s pid"
      using s1(2) assms(3) by (auto simp: evolves_def dirty_def)
    then have "disk s3 pid = disk s pid"
      using i(5) d g by simp
    moreover have "pool_okay s3" "entry s3 pid = Some (r, d)" "frames s2 = frames s" "sync_interval s2 = sync_interval s"
      "frames s3 = frames s2" "sync_interval s3 = sync_interval s2"
      using i d g s1 by (auto simp: s3_def s2_def)
    ultimately show ?thesis
      using ev none g(1)
      by (simp add: runs_bind_eq flip: s2_def) (simp flip: s3_def)
  qed
  show ?thesis
  proof (cases "lru_len L ?c = lru_cap L ?c \<and> \<not> lru_contains L pid ?c")
    case False
    moreover have "\<not> lru_contains L pid ?c"
      using assms(3) contains_lookup [OF ok_c] by (simp add: entry_def)
    ultimately have "lru_len L ?c < lru_cap L ?c"
      using len_le_cap [OF ok_c] by simp
    then show ?thesis
      using False finish [of s] assms(1)
      by (auto simp: pool_put_and_evict_def runs_then_eq runs_bind_eq)
  next
    case True
    obtain e c1 where pl: "lru_pop_lru L ?c = (e, c1)"
      by (cases "lru_pop_lru L ?c")
    obtain k er ed where e: "e = Some (k, er, ed)" "lookup ?c k = Some (er, ed)"
      and c1: "lookup c1 = (lookup ?c)(k := None)" "ok c1" "lru_len L c1 < lru_cap L c1"
      using lookup_pop_lru [OF ok_c pl] True by (metis surj_pair)
    have ent: "entry s k = Some (er, ed)"
      using e by (simp add: entry_def)
    define s1 where "s1 = s\<lparr>cache := c1, pager := (if ed then pager_put k (frames s ! er) (pager s) else pager s)\<rparr>"
    note w = write_back [OF assms(1) ent c1(2,1) s1_def]
    have "runs (sbind (on_cache (lru_get L pid)) (\<lambda>entry.
          case entry of
            Some (_, curr_dirty) \<Rightarrow> upd_cache (lru_put L pid (r, d \<or> curr_dirty))
          | None \<Rightarrow> upd_cache (lru_put L pid (r, d)))) s1
        (\<lambda>_ s'. pool_okay s' \<and> evolves {pid} s s' \<and> entry s' pid = Some (r, d) \<and> disk s' pid = disk s pid \<and>
           frames s' = frames s \<and> sync_interval s' = sync_interval s)"
      using finish [OF w(1,2)] w(3) c1(3) by (simp add: s1_def)
    then show ?thesis
      using True pl e
      by (cases ed) (simp_all add: pool_put_and_evict_def runs_then_eq runs_bind_eq s1_def)
  qed
qed


subsection \<open>Fetching\<close>

lemma new_frame_step:
  assumes "pool_okay s" "length pg = PAGE_SIZE" "s' = s\<lparr>frames := frames s @ [pg]\<rparr>"
  shows "pool_okay s'" "evolves X s s'" "entry s' = entry s" "view s' = view s" "disk s' = disk s"
    "fresh_ref s' (length (frames s))" "frames s' ! length (frames s) = pg" "pager s' = pager s"
    "sync_interval s' = sync_interval s"
proof -
  show st: "entry s' = entry s" "disk s' = disk s" "frames s' ! length (frames s) = pg"
    "pager s' = pager s" "sync_interval s' = sync_interval s"
    using assms(3) by (auto simp: entry_def disk_def fun_eq_iff)
  have cache: "cache s' = cache s"
    using assms(3) by simp
  have old: "frames s' ! r = frames s ! r" "r < length (frames s')" if "entry s q = Some (r, d)" for q r d
    using pool_okD(3) [OF assms(1) that] assms(3) by (auto simp: nth_append)
  show "pool_okay s'"
    using assms(1) st old cache by (auto simp: pool_ok_def)
  have page: "view s' q = view s q" "dirty s' q = dirty s q" "coherent s' q = coherent s q" for q
    using same_page [of s' q s] st old(1) by auto
  then show "view s' = view s" "evolves X s s'"
    using st by (auto simp: evolves_def)
  show "fresh_ref s' (length (frames s))"
    using assms pool_okD(3) [OF assms(1)] st by (fastforce simp: fresh_ref_def)
qed

lemma fetch_page_spec:
  assumes "pool_okay s"
  shows "runs (pool_fetch_page L pid) s (\<lambda>r s'. pool_okay s' \<and> evolves {} s s' \<and>
    frames s' ! r = view s pid \<and> view s' pid = view s pid \<and> sync_interval s' = sync_interval s)"
proof -
  define s1 where "s1 = s\<lparr>cache := snd (lru_get L pid (cache s))\<rparr>"
  note g = get_step [OF assms s1_def]
  show ?thesis
  proof (cases "entry s pid")
    case (Some e)
    obtain r d where e: "e = (r, d)"
      by (cases e)
    then have "frames s ! r = view s pid"
      using Some by (simp add: view_def)
    then show ?thesis
      using Some e g by (simp add: pool_fetch_page_def runs_bind_eq flip: s1_def) (simp add: s1_def)
  next
    case None
    define s2 where "s2 = s1\<lparr>frames := frames s1 @ [page_at (pager s1) pid]\<rparr>"
    have wf: "pager_wf (pager s1)"
      using pool_okD(2) [OF g(3)] .
    note n = new_frame_step [OF g(3) length_page_at [OF wf] s2_def]
    have none: "entry s2 pid = None"
      using None g n by simp
    have "runs (pool_put_and_evict L pid (length (frames s1)) False) s2
      (\<lambda>_ s'. pool_okay s' \<and> evolves {} s s' \<and> frames s' ! length (frames s1) = view s pid \<and>
        view s' pid = view s pid \<and> sync_interval s' = sync_interval s)"
    proof (rule runs_mono [OF put_and_evict_spec [OF n(1,6) none]])
      show "False \<longrightarrow> pid < num_pages (pager s2)" by simp
    next
      fix u s'
      assume a: "pool_okay s' \<and> evolves {pid} s2 s' \<and> entry s' pid = Some (length (frames s1), False) \<and>
        disk s' pid = disk s2 pid \<and> frames s' = frames s2 \<and> sync_interval s' = sync_interval s2"
      have v: "view s pid = page_at (pager s1) pid"
        using None g by (simp add: view_def disk_def)
      have vs': "view s' pid = view s pid"
        using a n v by (simp add: view_def)
      have "disk s' pid = disk s pid" "\<not> dirty s' pid" "view s pid = disk s pid"
        using a n g None by (auto simp: dirty_def view_None)
      moreover have "evolves {pid} s s'"
        using a evolves_trans [OF evolves_trans [OF g(4) n(2)]] by blast
      ultimately have "evolves {} s s'"
        using vs' by (intro evolves_fill) (auto simp: coherent_def)
      then show "pool_okay s' \<and> evolves {} s s' \<and> frames s' ! length (frames s1) = view s pid \<and>
        view s' pid = view s pid \<and> sync_interval s' = sync_interval s"
        using a n v vs' by (simp add: s1_def)
    qed
    moreover have "s1\<lparr>pager := pager s, frames := frames s @ [page_at (pager s) pid]\<rparr> = s2"
      by (simp add: s2_def s1_def)
    ultimately show ?thesis
      using None g wf
      by (simp add: pool_fetch_page_def runs_bind_eq runs_then_eq runs_pager_read flip: s1_def)
  qed
qed


subsection \<open>Flushing\<close>

lemma flush_writes:
  assumes "pager_wf (pager s)" "distinct (map fst es)"
    "\<And>pid r d. (pid, r, d) \<in> set es \<Longrightarrow> pid < num_pages (pager s) \<and> length (frames s ! r) = PAGE_SIZE"
  shows "\<exists>p'. for_each (\<lambda>(pid, r, d).
          sbind (read_frame r) (\<lambda>pg. on_pager (pager_write_page pid pg))) es s = (Inr (), s\<lparr>pager := p'\<rparr>) \<and>
     pager_wf p' \<and> num_pages p' = num_pages (pager s) \<and>
     page_at p' = (\<lambda>q. case map_of es q of Some (r, d) \<Rightarrow> frames s ! r | None \<Rightarrow> page_at (pager s) q)"
  using assms
proof (induction es arbitrary: s)
  case Nil
  have "s\<lparr>pager := pager s\<rparr> = s"
    by simp
  with Nil show ?case by (auto intro!: exI [of _ "pager s"])
next
  case (Cons e es)
  obtain pid r d where e: "e = (pid, r, d)"
    by (cases e) auto
  define s1 where "s1 = s\<lparr>pager := pager_put pid (frames s ! r) (pager s)\<rparr>"
  have pid: "pid < num_pages (pager s)" "length (frames s ! r) = PAGE_SIZE"
    using Cons.prems(3) e by auto
  note put = pager_put_in [OF Cons.prems(1) pid]
  have "\<exists>p'. for_each (\<lambda>(pid, r, d).
          sbind (read_frame r) (\<lambda>pg. on_pager (pager_write_page pid pg))) es s1 = (Inr (), s1\<lparr>pager := p'\<rparr>) \<and>
     pager_wf p' \<and> num_pages p' = num_pages (pager s1) \<and>
     page_at p' = (\<lambda>q. case map_of es q of Some (r, d) \<Rightarrow> frames s1 ! r | None \<Rightarrow> page_at (pager s1) q)"
    using Cons.prems put by (intro Cons.IH) (auto simp: s1_def)
  then obtain p' where p': "for_each (\<lambda>(pid, r, d).
          sbind (read_frame r) (\<lambda>pg. on_pager (pager_write_page pid pg))) es s1 = (Inr (), s1\<lparr>pager := p'\<rparr>)"
     "pager_wf p'" "num_pages p' = num_pages (pager s1)"
     "page_at p' = (\<lambda>q. case map_of es q of Some (r, d) \<Rightarrow> frames s1 ! r | None \<Rightarrow> page_at (pager s1) q)"
    by blast
  have first: "sbind (read_frame r) (\<lambda>pg. on_pager (pager_write_page pid pg)) s = (Inr (), s1)"
    by (simp add: read_frame_def on_pager_def pager_write_page_eq s1_def)
  have "map_of es pid = None"
    using Cons.prems(2) e by (simp add: map_of_eq_None_iff)
  then have "page_at p' = (\<lambda>q. case map_of (e # es) q of Some (r, d) \<Rightarrow> frames s ! r | None \<Rightarrow> page_at (pager s) q)"
    using p'(4) put e by (auto simp: s1_def fun_eq_iff split: option.splits)
  moreover have "for_each (\<lambda>(pid, r, d).
          sbind (read_frame r) (\<lambda>pg. on_pager (pager_write_page pid pg))) (e # es) s = (Inr (), s\<lparr>pager := p'\<rparr>)"
    using p'(1) first e by (simp add: s1_def)
  ultimately show ?case
    using p' put by (auto simp: s1_def)
qed

text \<open>
  After a flush no page is dirty and every coherent page is on disk as the client sees it.
\<close>

lemma flush_all_spec:
  assumes "pool_okay s"
  shows "runs (pool_flush_all L) s (\<lambda>_ s'. pool_okay s' \<and> evolves {} s s' \<and> view s' = view s \<and>
    (\<forall>q. \<not> dirty s' q) \<and> (\<forall>q. coherent s q \<longrightarrow> disk s' q = view s q) \<and> frames s' = frames s \<and>
    (\<forall>q. \<not> dirty s q \<longrightarrow> disk s' q = disk s q) \<and> sync_interval s' = sync_interval s)"
proof -
  let ?es = "filter (\<lambda>(pid, r, d). d) (lru_iter L (cache s))"
  let ?g = "\<lambda>pid (r, d). (r, False)"
  define s1 where "s1 = s\<lparr>cache := lru_iter_mut L ?g (cache s)\<rparr>"
  have ok_s: "ok (cache s)" and wf: "pager_wf (pager s)"
    using pool_okD [OF assms] by auto
  have lk: "lookup (cache s1) = (\<lambda>q. map_option (?g q) (lookup (cache s) q))" "ok (cache s1)"
    using lookup_iter_mut [OF ok_s, of ?g] by (simp_all add: s1_def)
  have ent1: "entry s1 q = map_option (\<lambda>(r, d). (r, False)) (entry s q)" for q
    using lk(1) by (simp add: entry_def)
  have mem: "(q, r, d) \<in> set ?es \<longleftrightarrow> d \<and> entry s q = Some (r, True)" for q r d
    using lookup_iff_iter [OF ok_s] by (auto simp: entry_def)
  have dist: "distinct (map fst ?es)"
    using distinct_iter [OF ok_s] by (simp add: distinct_map_filter)
  have mo: "map_of ?es q = (case entry s q of Some (r, True) \<Rightarrow> Some (r, True) | _ \<Rightarrow> None)" for q
  proof (cases "map_of ?es q")
    case None
    then have "\<not> (\<exists>v. (q, v) \<in> set ?es)"
      using map_of_eq_None_iff [of ?es q] by force
    then show ?thesis
      using None mem [of q _ True] by (auto split: option.splits bool.splits)
  next
    case (Some v)
    then have "(q, v) \<in> set ?es"
      by (rule map_of_SomeD)
    then show ?thesis
      using Some mem [of q "fst v" "snd v"] by (cases v) auto
  qed
  have "\<And>pid r d. (pid, r, d) \<in> set ?es \<Longrightarrow> pid < num_pages (pager s1) \<and> length (frames s1 ! r) = PAGE_SIZE"
    using pool_okD(3,4) [OF assms] mem by (auto simp: s1_def dirty_def)
  then obtain p' where p': "for_each (\<lambda>(pid, r, d).
          sbind (read_frame r) (\<lambda>pg. on_pager (pager_write_page pid pg))) ?es s1 = (Inr (), s1\<lparr>pager := p'\<rparr>)"
     "pager_wf p'" "num_pages p' = num_pages (pager s1)"
     "page_at p' = (\<lambda>q. case map_of ?es q of Some (r, d) \<Rightarrow> frames s1 ! r | None \<Rightarrow> page_at (pager s1) q)"
    using flush_writes [of s1 ?es] wf dist by (auto simp: s1_def)
  define s2 where "s2 = s1\<lparr>pager := p'\<rparr>"
  have run: "pool_flush_all L s = (Inr (), s2)"
    using p'(1) by (simp add: pool_flush_all_def upd_cache_def s2_def flip: s1_def) 
  have fr: "frames s2 = frames s" "sync_interval s2 = sync_interval s" "cache s2 = cache s1" "pager s2 = p'"
    by (simp_all add: s2_def s1_def)
  have ent2: "entry s2 q = map_option (\<lambda>(r, d). (r, False)) (entry s q)" for q
    using ent1 fr by (simp add: entry_def)
  have disk2: "disk s2 q = (if dirty s q then view s q else disk s q)" for q
    using p'(4) mo by (auto simp: disk_def fr s1_def dirty_def view_def split: option.splits bool.splits)
  have view2: "view s2 q = view s q" for q
    using ent2 fr disk2 by (auto simp: view_def dirty_def split: option.splits)
  have dirty2: "\<not> dirty s2 q" for q
    using ent2 by (auto simp: dirty_def)
  have ok2: "pool_okay s2"
    using assms lk(2) p' ent2 fr by (fastforce simp: pool_ok_def s1_def)
  have "evolves {} s s2"
    using disk2 view2 dirty2 p'(3) fr by (auto simp: evolves_def coherent_def s1_def)
  then show ?thesis
    using run ok2 view2 dirty2 disk2 fr by (auto simp: runs_def coherent_def fun_eq_iff)
qed


lemma sync_spec:
  assumes "pool_okay s"
  shows "runs pool_sync s (\<lambda>_ s'. pool_okay s' \<and> evolves {} s s' \<and> view s' = view s \<and> disk s' = disk s \<and>
    entry s' = entry s \<and> frames s' = frames s \<and> dirty s' = dirty s \<and>
    durable (pfile (pager s')) = content (pfile (pager s')) \<and> sync_interval s' = sync_interval s)"
proof -
  define s' where "s' = s\<lparr>pager := (pager s)\<lparr>pfile := file_sync (pfile (pager s))\<rparr>\<rparr>"
  have st: "entry s' = entry s" "frames s' = frames s" "num_pages (pager s') = num_pages (pager s)"
    "cache s' = cache s" "sync_interval s' = sync_interval s"
    "durable (pfile (pager s')) = content (pfile (pager s'))"
    "content (pfile (pager s')) = content (pfile (pager s))"
    by (auto simp: s'_def entry_def fun_eq_iff file_sync_def)
  then have disk: "disk s' = disk s" and wf: "pager_wf (pager s') = pager_wf (pager s)"
    by (simp_all add: disk_def page_at_def pager_wf_def fun_eq_iff)
  have page: "view s' q = view s q" "dirty s' q = dirty s q" "coherent s' q = coherent s q" for q
    using same_page [of s' q s] st disk by auto
  moreover have "pool_okay s'"
    using assms st wf by (simp add: pool_ok_def)
  moreover have "pool_sync s = (Inr (), s')"
    by (simp add: pool_sync_def on_pager_def pager_sync_def s'_def)
  ultimately show ?thesis
    using st disk by (simp add: runs_def evolves_def fun_eq_iff)
qed

lemma flush_and_sync_spec:
  assumes "pool_okay s"
  shows "runs (pool_flush_and_sync L) s (\<lambda>_ s'. pool_okay s' \<and> evolves {} s s' \<and> view s' = view s \<and>
    (\<forall>q. \<not> dirty s' q) \<and> (\<forall>q. coherent s q \<longrightarrow> disk s' q = view s q) \<and>
    durable (pfile (pager s')) = content (pfile (pager s')) \<and> sync_interval s' = sync_interval s)"
  unfolding pool_flush_and_sync_def runs_then_eq
proof (rule runs_mono [OF flush_all_spec [OF assms]])
  fix u s1
  assume a: "pool_okay s1 \<and> evolves {} s s1 \<and> view s1 = view s \<and>
    (\<forall>q. \<not> dirty s1 q) \<and> (\<forall>q. coherent s q \<longrightarrow> disk s1 q = view s q) \<and> frames s1 = frames s \<and>
    (\<forall>q. \<not> dirty s q \<longrightarrow> disk s1 q = disk s q) \<and> sync_interval s1 = sync_interval s"
  then have "pool_okay s1" by simp
  then show "runs pool_sync s1 (\<lambda>_ s'. pool_okay s' \<and> evolves {} s s' \<and> view s' = view s \<and>
    (\<forall>q. \<not> dirty s' q) \<and> (\<forall>q. coherent s q \<longrightarrow> disk s' q = view s q) \<and>
    durable (pfile (pager s')) = content (pfile (pager s')) \<and> sync_interval s' = sync_interval s)"
    by (rule runs_mono [OF sync_spec]) (use a in \<open>auto intro: evolves_trans\<close>)
qed

lemma counter_step:
  assumes "pool_okay s"
  shows "pool_okay (s\<lparr>dirty_write_count := n\<rparr>)" "evolves X s (s\<lparr>dirty_write_count := n\<rparr>)"
    "view (s\<lparr>dirty_write_count := n\<rparr>) = view s" "coherent (s\<lparr>dirty_write_count := n\<rparr>) = coherent s"
  using same_state [of "s\<lparr>dirty_write_count := n\<rparr>" s] assms pool_okD(1) [OF assms]
  by (auto simp: entry_def fun_eq_iff)

lemma count_dirty_write_spec:
  assumes "pool_okay s"
  shows "runs (pool_count_dirty_write L) s (\<lambda>_ s'. pool_okay s' \<and> evolves {} s s' \<and> view s' = view s \<and>
    sync_interval s' = sync_interval s)"
proof (cases "0 < sync_interval s \<and> sync_interval s \<le> dirty_write_count s + 1")
  case False
  then show ?thesis
    using assms counter_step [OF assms]
    by (auto simp: pool_count_dirty_write_def runs_bind_eq runs_then_eq)
next
  case True
  let ?s0 = "s\<lparr>dirty_write_count := 0\<rparr>"
  note z = counter_step [OF assms, where n = 0]
  have "runs (pool_flush_and_sync L) ?s0 (\<lambda>_ s'. pool_okay s' \<and> evolves {} s s' \<and> view s' = view s \<and>
    sync_interval s' = sync_interval s)"
    by (rule runs_mono [OF flush_and_sync_spec [OF z(1)]]) (use z in \<open>auto intro: evolves_trans\<close>)
  with True show ?thesis
    by (auto simp: pool_count_dirty_write_def runs_bind_eq runs_then_eq)
qed

subsection \<open>Writing\<close>

lemma count_after_write:
  assumes "pool_okay t" "evolves {pid} s t" "view t pid = pg" "coherent t pid"
    "disk t pid = disk s pid" "sync_interval t = sync_interval s"
  shows "runs (pool_count_dirty_write L) t (\<lambda>_ s'. pool_okay s' \<and> evolves {pid} s s' \<and>
    view s' pid = pg \<and> coherent s' pid \<and> (disk s' pid = disk s pid \<or> disk s' pid = pg) \<and> sync_interval s' = sync_interval s)"
proof (rule runs_mono [OF count_dirty_write_spec [OF assms(1)]])
  fix u s'
  assume a: "pool_okay s' \<and> evolves {} t s' \<and> view s' = view t \<and> sync_interval s' = sync_interval t"
  then have "evolves {pid} s s'"
    using evolves_trans [OF assms(2)] evolves_mono [of "{}" t s' "{pid}"] by simp
  moreover have "coherent s' pid" "disk s' pid = disk s pid \<or> disk s' pid = pg"
    using a assms(3,4,5) by (auto simp: evolves_def)
  ultimately show "pool_okay s' \<and> evolves {pid} s s' \<and>
    view s' pid = pg \<and> coherent s' pid \<and> (disk s' pid = disk s pid \<or> disk s' pid = pg) \<and> sync_interval s' = sync_interval s"
    using a assms by simp
qed

lemma write_page_spec:
  assumes "pool_okay s" "pid < num_pages (pager s)" "length pg = PAGE_SIZE"
  shows "runs (pool_write_page L pid pg) s (\<lambda>_ s'. pool_okay s' \<and> evolves {pid} s s' \<and>
    view s' pid = pg \<and> coherent s' pid \<and> (disk s' pid = disk s pid \<or> disk s' pid = pg) \<and> sync_interval s' = sync_interval s)"
proof -
  define s1 where "s1 = s\<lparr>cache := snd (lru_get L pid (cache s))\<rparr>"
  note g = get_step [OF assms(1) s1_def]
  have si: "sync_interval s1 = sync_interval s"
    by (simp add: s1_def)
  show ?thesis
  proof (cases "entry s pid")
    case (Some e)
    obtain r d where e: "e = (r, d)"
      by (cases e)
    let ?f = "\<lambda>(r, d). (r, True)"
    define s2 where "s2 = s1\<lparr>frames := (frames s1)[r := pg], cache := lru_get_mut L pid ?f (cache s1)\<rparr>"
    have r: "r < length (frames s1)"
      using pool_okD(3) [OF g(3), of pid r d] Some e g by simp
    have lk: "lookup (cache s2) = (lookup (cache s1))(pid \<mapsto> (r, True))" "ok (cache s2)"
      using lookup_get_mut [OF pool_okD(1) [OF g(3)], of pid ?f] Some e g
      by (auto simp: s2_def entry_def fun_eq_iff)
    have ent: "entry s2 = (entry s)(pid \<mapsto> (r, True))"
      using lk(1) g(2) by (simp add: entry_def fun_eq_iff)
    have fr: "frames s2 = (frames s)[r := pg]" "pager s2 = pager s" "sync_interval s2 = sync_interval s"
      "disk s2 = disk s"
      using g si by (simp_all add: s2_def disk_def)
    have other: "r' \<noteq> r" if "entry s q = Some (r', d')" "q \<noteq> pid" for q r' d'
      using pool_okD(5) [OF assms(1), of pid r d q d'] Some e that by auto
    have ok2: "pool_okay s2"
      using assms lk(2) ent fr other r g(7) pool_okD(5) [OF assms(1)]
      by (auto simp: pool_ok_def nth_list_update) 
    have "view s2 q = view s q \<and> dirty s2 q = dirty s q \<and> coherent s2 q = coherent s q" if "q \<noteq> pid" for q
    proof -
      have e: "entry s2 q = entry s q" "disk s2 q = disk s q"
        using that ent fr by simp_all
      have f: "\<And>r' d'. entry s q = Some (r', d') \<Longrightarrow> frames s2 ! r' = frames s ! r'"
        using other that fr by fastforce
      show ?thesis
        using same_page [OF e f] by simp
    qed
    then have "evolves {pid} s s2"
      using fr by (simp add: evolves_def)
    moreover have "view s2 pid = pg" "coherent s2 pid"
      using ent fr r g(7) by (auto simp: view_def coherent_def dirty_def)
    ultimately have "runs (pool_count_dirty_write L) s2 (\<lambda>_ s'. pool_okay s' \<and> evolves {pid} s s' \<and>
        view s' pid = pg \<and> coherent s' pid \<and> (disk s' pid = disk s pid \<or> disk s' pid = pg) \<and> sync_interval s' = sync_interval s)"
      using count_after_write [OF ok2] fr by simp
    moreover have "s1\<lparr>frames := (frames s)[r := pg], cache := lru_get_mut L pid ?f (cache s1)\<rparr> = s2"
      using g by (simp add: s2_def)
    ultimately show ?thesis
      using Some e g
      by (simp add: pool_write_page_def pool_mark_dirty_def runs_bind_eq runs_then_eq flip: s1_def)
  next
    case None
    define s2 where "s2 = s1\<lparr>frames := frames s1 @ [pg]\<rparr>"
    note n = new_frame_step [OF g(3) assms(3) s2_def]
    have "runs (pool_put_and_evict L pid (length (frames s1)) True) s2 (\<lambda>_ t.
        runs (pool_count_dirty_write L) t (\<lambda>_ s'. pool_okay s' \<and> evolves {pid} s s' \<and>
        view s' pid = pg \<and> coherent s' pid \<and> (disk s' pid = disk s pid \<or> disk s' pid = pg) \<and> sync_interval s' = sync_interval s))"
    proof (rule runs_mono [OF put_and_evict_spec [OF n(1,6)]])
      show "entry s2 pid = None" "True \<longrightarrow> pid < num_pages (pager s2)"
        using None g n assms by simp_all
    next
      fix u t
      assume a: "pool_okay t \<and> evolves {pid} s2 t \<and> entry t pid = Some (length (frames s1), True) \<and>
        disk t pid = disk s2 pid \<and> frames t = frames s2 \<and> sync_interval t = sync_interval s2"
      then have "evolves {pid} s t"
        using evolves_trans [OF evolves_trans [OF g(4) n(2)]] by blast
      moreover have "view t pid = pg" "coherent t pid" "sync_interval t = sync_interval s"
        using a n si by (auto simp: view_def coherent_def dirty_def)
      ultimately show "runs (pool_count_dirty_write L) t (\<lambda>_ s'. pool_okay s' \<and> evolves {pid} s s' \<and>
        view s' pid = pg \<and> coherent s' pid \<and> (disk s' pid = disk s pid \<or> disk s' pid = pg) \<and> sync_interval s' = sync_interval s)"
        using count_after_write [of t pid s pg] a n g by simp
    qed
    then show ?thesis
      using None g
      by (simp add: pool_write_page_def runs_bind_eq runs_then_eq s2_def flip: s1_def)
  qed
qed

subsection \<open>A new pool\<close>

lemma pool_new_ok:
  assumes "pager_wf p"
  shows "pool_okay (pool_with_sync_interval i (pool_new L p n))"
    "view (pool_with_sync_interval i (pool_new L p n)) = page_at p"
    "coherent (pool_with_sync_interval i (pool_new L p n)) pid"
    "entry (pool_with_sync_interval i (pool_new L p n)) pid = None"
    "pager (pool_with_sync_interval i (pool_new L p n)) = p"
proof -
  let ?s = "pool_with_sync_interval i (pool_new L p n)"
  have ent: "entry ?s pid = None" for pid
    using lookup_new [of "max n 1"] by (simp add: entry_def pool_with_sync_interval_def pool_new_def)
  then show "entry ?s pid = None" .
  show pg: "pager ?s = p"
    by (simp add: pool_with_sync_interval_def pool_new_def)
  have "ok (cache ?s)"
    using new [of "max n 1"] by (simp add: pool_with_sync_interval_def pool_new_def)
  then show "pool_okay ?s"
    using assms ent pg by (simp add: pool_ok_def)
  show "view ?s = page_at p"
    using ent pg by (simp add: view_def disk_def fun_eq_iff)
  show "coherent ?s pid"
    using ent by (simp add: uncached_coherent)
qed


subsection \<open>Growing the file\<close>

lemma allocate_grow_spec:
  assumes "pool_okay s" "meta_free (disk s 0) = U32_MAX" "num_pages (pager s) \<noteq> U32_MAX"
  shows "runs pool_allocate_page s (\<lambda>pid s'. pool_okay s' \<and> pid = num_pages (pager s) \<and>
    num_pages (pager s') = num_pages (pager s) + 1 \<and> view s' = view s \<and> disk s' = disk s \<and>
    coherent s' = coherent s \<and> dirty s' = dirty s \<and> sync_interval s' = sync_interval s)"
proof -
  have wf: "pager_wf (pager s)"
    using pool_okD [OF assms(1)] by simp
  define s' where "s' = s\<lparr>pager := pager_grow (pager s)\<rparr>"
  have run: "pool_allocate_page s = (Inr (num_pages (pager s)), s')"
    using wf assms(2)
    by (simp add: pool_allocate_page_def on_pager_def pager_allocate_page_def pager_eqs
        meta_free_def pager_grow_def s'_def disk_def)
  note grow = pager_grow_facts [OF wf assms(3)]
  have st: "entry s' = entry s" "disk s' = disk s" "frames s' = frames s" "cache s' = cache s"
    "num_pages (pager s') = num_pages (pager s) + 1" "pager_wf (pager s')" "sync_interval s' = sync_interval s"
    using grow by (auto simp: s'_def entry_def disk_def fun_eq_iff)
  have page: "view s' = view s" "dirty s' = dirty s" "coherent s' = coherent s"
    using same_page [of s' _ s] st by (auto simp: fun_eq_iff)
  have "pid < num_pages (pager s')" if "pid < num_pages (pager s)" for pid
    using that st(5) unat_plus_1 [OF assms(3)] by (simp add: word_less_nat_alt)
  then have "pool_okay s'"
    using assms(1) st by (simp add: pool_ok_def)
  then show ?thesis
    using run page st by (simp add: runs_def)
qed

end

section \<open>The pool as an array of pages\<close>

text \<open>
  What the B+ tree relies on: a store of pages that is read, written and extended, and
  nothing else. \<open>view\<close> is its contents and \<open>size\<close> the number of pages; \<open>inv\<close> is what
  the provider keeps to itself. \<open>meta_ok\<close> restricts what may be written to page 0, which
  the pager shares with its client.
\<close>

locale page_store =
  fixes fetch :: "page_id \<Rightarrow> ('s, page) M"
    and store :: "page_id \<Rightarrow> page \<Rightarrow> ('s, unit) M"
    and extend :: "('s, page_id) M"
    and view :: "'s \<Rightarrow> page_id \<Rightarrow> page"
    and size :: "'s \<Rightarrow> page_id"
    and inv :: "'s \<Rightarrow> bool"
    and meta_ok :: "page \<Rightarrow> bool"
  assumes fetch_law: "inv s \<Longrightarrow>
      runs (fetch pid) s (\<lambda>pg s'. pg = view s pid \<and> inv s' \<and> view s' = view s \<and> size s' = size s)"
    and store_law: "inv s \<Longrightarrow> pid < size s \<Longrightarrow> length pg = PAGE_SIZE \<Longrightarrow> (pid = 0 \<longrightarrow> meta_ok pg) \<Longrightarrow>
      runs (store pid pg) s (\<lambda>_ s'. inv s' \<and> view s' = (view s)(pid := pg) \<and> size s' = size s)"
    and extend_law: "inv s \<Longrightarrow> size s \<noteq> U32_MAX \<Longrightarrow>
      runs extend s (\<lambda>pid s'. pid = size s \<and> inv s' \<and> view s' = view s \<and> size s' = size s + 1)"
    and view_length: "inv s \<Longrightarrow> length (view s pid) = PAGE_SIZE"
    and meta_law: "inv s \<Longrightarrow> meta_ok (view s 0)"
    and size_pos: "inv s \<Longrightarrow> 0 < size s"

text \<open>\<open>buffer_pool.fetch_page(id)?.read()\<close>, as every reader of the pool uses it.\<close>

definition pool_read :: "'c cache_ops \<Rightarrow> page_id \<Rightarrow> ('c pool, page) M" where
  "pool_read L pid = sbind (pool_fetch_page L pid) read_frame"

text \<open>
  The pool keeps that contract while its free list is empty: page 0 says so, in memory and
  on disk.
\<close>

definition meta_steady :: "u64 \<Rightarrow> page \<Rightarrow> bool" where
  "meta_steady lsn m \<longleftrightarrow> meta_free m = U32_MAX \<and> meta_magic_ok m \<and> meta_lsn m = lsn"

definition pool_steady :: "'c cache_ops \<Rightarrow> ('c \<Rightarrow> bool) \<Rightarrow> u64 \<Rightarrow> 'c pool \<Rightarrow> bool" where
  "pool_steady L ok lsn s \<longleftrightarrow> pool_ok L ok s \<and> (\<forall>q. pool_coherent L s q) \<and>
     meta_steady lsn (pool_disk s 0) \<and> meta_steady lsn (pool_view L s 0)"

context pool_cache
begin

lemma evolves_steady:
  assumes "pool_steady L ok lsn s" "pool_okay s'" "evolves {} s s'"
  shows "pool_steady L ok lsn s'" "view s' = view s" "num_pages (pager s') = num_pages (pager s)"
  using assms by (auto simp: pool_steady_def evolves_def fun_eq_iff) metis

lemma read_spec:
  assumes "pool_okay s"
  shows "runs (pool_read L pid) s (\<lambda>pg s'. pool_okay s' \<and> evolves {} s s' \<and> pg = view s pid)"
  unfolding pool_read_def runs_bind_eq
  by (rule runs_mono [OF fetch_page_spec [OF assms]]) simp

end

text \<open>Clients of the pool also leave the checkpoint number in page 0 alone.\<close>

locale tree_pool = pool_cache L ok for L :: "'c cache_ops" and ok +
  fixes lsn :: u64
begin

sublocale pool_store: page_store "pool_read L" "pool_write_page L" pool_allocate_page view
  "\<lambda>s. num_pages (pager s)" "pool_steady L ok lsn" "meta_steady lsn"
proof unfold_locales
  fix s pid
  assume st: "pool_steady L ok lsn s"
  then have ok: "pool_okay s"
    by (simp add: pool_steady_def)
  show "runs (pool_read L pid) s (\<lambda>pg s'. pg = view s pid \<and> pool_steady L ok lsn s' \<and>
      view s' = view s \<and> num_pages (pager s') = num_pages (pager s))"
    by (rule runs_mono [OF read_spec [OF ok]]) (use evolves_steady [OF st] in auto)
  show "length (view s pid) = PAGE_SIZE" "meta_steady lsn (view s 0)"
    using st by (simp_all add: pool_steady_def length_view)
  show "0 < num_pages (pager s)"
    using pool_okD(2) [OF ok] by (rule wf_page_0)
next
  fix s pid pg
  assume st: "pool_steady L ok lsn s" and pid: "pid < num_pages (pager s)" and len: "length pg = PAGE_SIZE"
    and meta: "pid = 0 \<longrightarrow> meta_steady lsn pg"
  then have ok: "pool_okay s"
    by (simp add: pool_steady_def)
  show "runs (pool_write_page L pid pg) s (\<lambda>_ s'. pool_steady L ok lsn s' \<and>
      view s' = (view s)(pid := pg) \<and> num_pages (pager s') = num_pages (pager s))"
  proof (rule runs_mono [OF write_page_spec [OF ok pid len]])
    fix u s'
    assume a: "pool_okay s' \<and> evolves {pid} s s' \<and> view s' pid = pg \<and> coherent s' pid \<and>
      (disk s' pid = disk s pid \<or> disk s' pid = pg) \<and> sync_interval s' = sync_interval s"
    have other: "view s' q = view s q \<and> coherent s' q \<and> (disk s' q = disk s q \<or> disk s' q = view s q)"
      if "q \<noteq> pid" for q
      using a st that by (auto simp: evolves_def pool_steady_def)
    then have "view s' = (view s)(pid := pg)"
      using a by (auto simp: fun_eq_iff)
    moreover have "coherent s' q" for q
      using a other by (cases "q = pid") auto
    moreover have "meta_steady lsn (disk s' 0)"
      using a other [of 0] st meta by (cases "pid = 0") (auto simp: pool_steady_def)
    moreover have "meta_steady lsn (view s' 0)"
      using a other [of 0] st meta by (cases "pid = 0") (auto simp: pool_steady_def)
    ultimately show "pool_steady L ok lsn s' \<and> view s' = (view s)(pid := pg) \<and>
        num_pages (pager s') = num_pages (pager s)"
      using a by (simp add: pool_steady_def evolves_def)
  qed
next
  fix s
  assume st: "pool_steady L ok lsn s" and room: "num_pages (pager s) \<noteq> U32_MAX"
  then have ok: "pool_okay s" and free: "meta_free (disk s 0) = U32_MAX"
    by (simp_all add: pool_steady_def meta_steady_def)
  show "runs pool_allocate_page s (\<lambda>pid s'. pid = num_pages (pager s) \<and> pool_steady L ok lsn s' \<and>
      view s' = view s \<and> num_pages (pager s') = num_pages (pager s) + 1)"
    by (rule runs_mono [OF allocate_grow_spec [OF ok free room]]) (use st in \<open>auto simp: pool_steady_def\<close>)
qed

end

section \<open>Sequences of reads and writes\<close>

text \<open>
  A client that reads and writes pages, and the same client over a plain array of pages.
\<close>

datatype page_op = ReadOp page_id | WriteOp page_id page

fun run_ops :: "(page_id \<Rightarrow> ('s, page) M) \<Rightarrow> (page_id \<Rightarrow> page \<Rightarrow> ('s, unit) M) \<Rightarrow> page_op list \<Rightarrow>
    ('s, page list) M" where
  "run_ops fetch store [] = ret []"
| "run_ops fetch store (ReadOp pid # ops) =
     sbind (fetch pid) (\<lambda>pg. sbind (run_ops fetch store ops) (\<lambda>pgs. ret (pg # pgs)))"
| "run_ops fetch store (WriteOp pid pg # ops) = sthen (store pid pg) (run_ops fetch store ops)"

fun array_ops :: "page_op list \<Rightarrow> (page_id \<Rightarrow> page) \<Rightarrow> page list \<times> (page_id \<Rightarrow> page)" where
  "array_ops [] m = ([], m)"
| "array_ops (ReadOp pid # ops) m = (case array_ops ops m of (pgs, m') \<Rightarrow> (m pid # pgs, m'))"
| "array_ops (WriteOp pid pg # ops) m = array_ops ops (m(pid := pg))"

fun op_ok :: "(page \<Rightarrow> bool) \<Rightarrow> page_id \<Rightarrow> page_op \<Rightarrow> bool" where
  "op_ok meta n (ReadOp pid) = True"
| "op_ok meta n (WriteOp pid pg) \<longleftrightarrow> pid < n \<and> length pg = PAGE_SIZE \<and> (pid = 0 \<longrightarrow> meta pg)"

context page_store
begin

lemma run_ops_array:
  "inv s \<Longrightarrow> list_all (op_ok meta_ok (size s)) ops \<Longrightarrow>
   runs (run_ops fetch store ops) s (\<lambda>pgs s'.
     inv s' \<and> (pgs, view s') = array_ops ops (view s) \<and> size s' = size s)"
proof (induction ops arbitrary: s)
  case Nil
  then show ?case by simp
next
  case (Cons op ops)
  show ?case
  proof (cases op)
    case (ReadOp pid)
    show ?thesis
      unfolding ReadOp run_ops.simps runs_bind_eq
    proof (rule runs_mono [OF fetch_law [OF Cons.prems(1)]])
      fix pg s1
      assume a: "pg = view s pid \<and> inv s1 \<and> view s1 = view s \<and> size s1 = size s"
      show "runs (run_ops fetch store ops) s1 (\<lambda>pgs s2. runs (ret (pg # pgs)) s2 (\<lambda>pgs s'.
          inv s' \<and> (pgs, view s') = array_ops (ReadOp pid # ops) (view s) \<and> size s' = size s))"
        by (rule runs_mono [OF Cons.IH]) (use a Cons.prems in \<open>auto split: prod.splits\<close>)
    qed
  next
    case (WriteOp pid pg)
    show ?thesis
      unfolding WriteOp run_ops.simps runs_then_eq
    proof (rule runs_mono [OF store_law [OF Cons.prems(1)]])
      fix u s1
      assume a: "inv s1 \<and> view s1 = (view s)(pid := pg) \<and> size s1 = size s"
      then show "runs (run_ops fetch store ops) s1 (\<lambda>pgs s'.
          inv s' \<and> (pgs, view s') = array_ops (WriteOp pid pg # ops) (view s) \<and> size s' = size s)"
        using Cons.IH [of s1] Cons.prems by (simp del: fun_upd_apply)
    qed (use Cons.prems WriteOp in auto)
  qed
qed

end

context tree_pool
begin

lemmas pool_ops_array = pool_store.run_ops_array

end

context pool_cache
begin

lemma new_steady:
  assumes "pager_inv p []"
  shows "pool_steady L ok (meta_lsn (page_at p 0)) (pool_with_sync_interval i (pool_new L p n))"
  using pool_new_ok [OF pager_inv_wf [OF assms], of i n] assms
  by (auto simp: pool_steady_def meta_steady_def pager_inv_def disk_def)

lemma flush_steady:
  assumes "pool_steady L ok lsn s"
  shows "runs (pool_flush_and_sync L) s (\<lambda>_ s'. pool_steady L ok lsn s' \<and> view s' = view s \<and>
    disk s' = view s \<and> durable (pfile (pager s')) = content (pfile (pager s')) \<and>
    num_pages (pager s') = num_pages (pager s))"
proof -
  have ok: "pool_okay s"
    using assms by (simp add: pool_steady_def)
  show ?thesis
  proof (rule runs_mono [OF flush_and_sync_spec [OF ok]])
    fix u s'
    assume a: "pool_okay s' \<and> evolves {} s s' \<and> view s' = view s \<and>
      (\<forall>q. \<not> dirty s' q) \<and> (\<forall>q. coherent s q \<longrightarrow> disk s' q = view s q) \<and>
      durable (pfile (pager s')) = content (pfile (pager s')) \<and> sync_interval s' = sync_interval s"
    then have "pool_okay s'" "evolves {} s s'"
      by simp_all
    note st = evolves_steady [OF assms this]
    have "disk s' = view s"
      using a assms by (simp add: pool_steady_def fun_eq_iff)
    then show "pool_steady L ok lsn s' \<and> view s' = view s \<and> disk s' = view s \<and>
      durable (pfile (pager s')) = content (pfile (pager s')) \<and> num_pages (pager s') = num_pages (pager s)"
      using a st by simp
  qed
qed

end

interpretation list_pool: pool_cache lru_list lru_list_ok
  by unfold_locales

interpretation list_tree: tree_pool lru_list lru_list_ok 0
  by unfold_locales

lemma list_pool_exists:
  obtains p where "pager_open empty_file = Inr p" "num_pages p = 1"
    "pool_steady lru_list lru_list_ok 0 (pool_with_sync_interval i (pool_new lru_list p n))"
    "pool_view lru_list (pool_with_sync_interval i (pool_new lru_list p n)) = page_at p"
    "num_pages (pager (pool_with_sync_interval i (pool_new lru_list p n))) = 1"
    "page_at p 0 = meta_init"
proof -
  obtain p where p: "pager_open empty_file = Inr p" "pager_inv p []" "num_pages p = 1" "page_at p 0 = meta_init"
    by (rule pager_open_empty)
  show ?thesis
    using that [OF p(1,3)] list_pool.new_steady [OF p(2), of i n] p
      list_pool.pool_new_ok [OF pager_inv_wf [OF p(2)], of i n] by simp
qed

section \<open>Properties\<close>

text \<open>
  (C16) The pool is transparent: for every cache that keeps the crate's contract, every
  capacity and every sync interval, a client that reads and writes pages through the pool
  gets exactly the pages it would get from a plain array of pages, whatever is evicted,
  written back or flushed in between, and no call fails.
\<close>

theorem pool_refines_array:
  assumes "lru_cache L ok" and "pool_steady L ok lsn s"
    and "list_all (op_ok (meta_steady lsn) (num_pages (pager s))) ops"
  shows "\<exists>s'. run_ops (pool_read L) (pool_write_page L) ops s =
      (Inr (fst (array_ops ops (pool_view L s))), s') \<and>
    pool_view L s' = snd (array_ops ops (pool_view L s)) \<and> pool_steady L ok lsn s'"
proof -
  from assms(1) have "tree_pool L ok"
    by (intro tree_pool.intro pool_cache.intro)
  then have "runs (run_ops (pool_read L) (pool_write_page L) ops) s (\<lambda>pgs s'.
      pool_steady L ok lsn s' \<and> (pgs, pool_view L s') = array_ops ops (pool_view L s) \<and>
      num_pages (pager s') = num_pages (pager s))"
    using assms(2,3) by (rule tree_pool.pool_ops_array)
  then show ?thesis
    by (auto simp: runs_def prod_eq_iff)
qed


theorem pool_refines_array_witness:
  "\<exists>p s'. run_ops (pool_read lru_list) (pool_write_page lru_list)
       [WriteOp 0 (patch 4 [9, 0, 0, 0] meta_init), ReadOp 7, ReadOp 0]
       (pool_with_sync_interval 1 (pool_new lru_list p 1)) =
     (Inr [blank_page, patch 4 [9, 0, 0, 0] meta_init], s')"
proof -
  let ?pg = "patch 4 [9, 0, 0, 0] meta_init"
  let ?ops = "[WriteOp 0 ?pg, ReadOp 7, ReadOp 0]"
  obtain p where p: "num_pages p = 1"
    "pool_steady lru_list lru_list_ok 0 (pool_with_sync_interval 1 (pool_new lru_list p 1))"
    "pool_view lru_list (pool_with_sync_interval 1 (pool_new lru_list p 1)) = page_at p"
    "num_pages (pager (pool_with_sync_interval 1 (pool_new lru_list p 1))) = 1"
    by (rule list_pool_exists)
  have blank: "page_at p 7 = blank_page"
    using p(1) by (simp add: page_at_def)
  have "list_all (op_ok (meta_steady 0) 1) ?ops"
    by (simp add: meta_steady_def meta_free_def meta_lsn_def meta_magic_ok_def meta_init_def slice_def patch_def
        blank_page_def META_MAGIC_def)
  then show ?thesis
    using pool_refines_array [OF lru_list.lru_cache_axioms p(2), of ?ops] p(3,4) blank by auto
qed

text \<open>
  (C17) Flushing makes the pool durable: after \<open>flush_and_sync\<close>, a power failure followed by
  opening the data file gives back a pager in which every page is the one the pool held.
\<close>

theorem pool_flush_durable:
  assumes "lru_cache L ok" and "pool_steady L ok lsn s"
  shows "\<exists>s' p. pool_flush_and_sync L s = (Inr (), s') \<and> pool_view L s' = pool_view L s \<and>
    pager_open (file_crash (pfile (pager s'))) = Inr p \<and> page_at p = pool_view L s"
proof -
  from assms(1) have "pool_cache L ok"
    by (rule pool_cache.intro)
  from pool_cache.flush_steady [OF this assms(2)] obtain s' where
    run: "pool_flush_and_sync L s = (Inr (), s')" and st: "pool_steady L ok lsn s'"
      "pool_view L s' = pool_view L s" "pool_disk s' = pool_view L s"
      "durable (pfile (pager s')) = content (pfile (pager s'))"
    by (auto simp: runs_def)
  have "file_crash (pfile (pager s')) = pfile (pager s')"
    using st(4) by (simp add: file_crash_def)
  moreover have "pager_wf (pager s')" "meta_magic_ok (page_at (pager s') 0)"
    using st(1) by (simp_all add: pool_steady_def pool_ok_def meta_steady_def pool_disk_def)
  ultimately have "pager_open (file_crash (pfile (pager s'))) = Inr (pager s')"
    by (simp add: pager_reopen)
  then show ?thesis
    using run st by (auto simp: pool_disk_def)
qed

theorem pool_flush_durable_witness:
  "\<exists>p s' p'. pool_flush_and_sync lru_list (pool_with_sync_interval 0 (pool_new lru_list p 4)) = (Inr (), s') \<and>
     pager_open (file_crash (pfile (pager s'))) = Inr p' \<and> page_at p' 0 = meta_init"
proof -
  obtain p where p: "page_at p 0 = meta_init"
    "pool_steady lru_list lru_list_ok 0 (pool_with_sync_interval 0 (pool_new lru_list p 4))"
    "pool_view lru_list (pool_with_sync_interval 0 (pool_new lru_list p 4)) = page_at p"
    by (rule list_pool_exists)
  then show ?thesis
    using pool_flush_durable [OF lru_list.lru_cache_axioms p(2)] by metis
qed

end
