(* ===== verification/Node.thy ===== *)
theory Node
  imports Pager
begin

text \<open>
  Nodes of the B+ tree and their encoding in a page (\<open>src/storage/btree.rs\<close>, \<open>Node\<close>).
  A leaf is written as a type byte, the number of records, the parent and the next leaf,
  then each record as two length-prefixed byte strings; an internal node as a type byte,
  the number of keys, the parent, the children and the length-prefixed keys. The decoder
  stops at the end of the page instead of indexing past it.
\<close>

section \<open>Model\<close>

definition NODE_TYPE_LEAF :: u8 where
  "NODE_TYPE_LEAF = 0"

definition NODE_TYPE_INTERNAL :: u8 where
  "NODE_TYPE_INTERNAL = 1"

abbreviation LEAF_HEADER_SIZE :: nat where
  "LEAF_HEADER_SIZE \<equiv> 11"

abbreviation INTERNAL_HEADER_SIZE :: nat where
  "INTERNAL_HEADER_SIZE \<equiv> 7"

type_synonym key = bytes

record leaf_node =
  lf_parent :: "page_id option"
  lf_next :: "page_id option"
  lf_records :: "(key \<times> bytes) list"

record internal_node =
  in_parent :: "page_id option"
  in_keys :: "key list"
  in_children :: "page_id list"

datatype node = Leaf leaf_node | Internal internal_node

fun encoded_size :: "node \<Rightarrow> nat" where
  "encoded_size (Leaf l) =
     LEAF_HEADER_SIZE + sum_list (map (\<lambda>(k, v). 4 + length k + 4 + length v) (lf_records l))"
| "encoded_size (Internal i) =
     INTERNAL_HEADER_SIZE + length (in_children i) * 4 + sum_list (map (\<lambda>k. 4 + length k) (in_keys i))"

text \<open>\<open>id.unwrap_or(u32::MAX)\<close>, and back.\<close>

definition id_or_max :: "page_id option \<Rightarrow> page_id" where
  "id_or_max p = (case p of None \<Rightarrow> U32_MAX | Some q \<Rightarrow> q)"

definition max_or_id :: "page_id \<Rightarrow> page_id option" where
  "max_or_id q = (if q = U32_MAX then None else Some q)"

text \<open>
  The encoder keeps a page and an offset. Each field is one \<open>copy_from_slice\<close> at the
  offset, which then moves past the field.
\<close>

fun write_fields :: "bytes list \<Rightarrow> nat \<Rightarrow> page \<Rightarrow> page res" where
  "write_fields [] off pg = Inr pg"
| "write_fields (f # fs) off pg =
     rbind (write_slice off f pg) (\<lambda>pg'. write_fields fs (off + length f) pg')"

definition record_fields :: "key \<times> bytes \<Rightarrow> bytes list" where
  "record_fields r =
     (case r of (k, v) \<Rightarrow> [u32_to_le (of_nat (length k)), k, u32_to_le (of_nat (length v)), v])"

definition key_fields :: "key \<Rightarrow> bytes list" where
  "key_fields k = [u32_to_le (of_nat (length k)), k]"

fun node_fields :: "node \<Rightarrow> bytes list" where
  "node_fields (Leaf l) =
     [[NODE_TYPE_LEAF], u16_to_le (of_nat (length (lf_records l))),
      u32_to_le (id_or_max (lf_parent l)), u32_to_le (id_or_max (lf_next l))] @
     concat (map record_fields (lf_records l))"
| "node_fields (Internal i) =
     [[NODE_TYPE_INTERNAL], u16_to_le (of_nat (length (in_keys i))),
      u32_to_le (id_or_max (in_parent i))] @
     map u32_to_le (in_children i) @ concat (map key_fields (in_keys i))"

definition to_page :: "node \<Rightarrow> page res" where
  "to_page n =
     (let size = encoded_size n
      in if PAGE_SIZE < size then Inl (NodeTooLarge size)
         else write_fields (node_fields n) 0 blank_page)"

text \<open>The three loops of the decoder. \<open>break\<close> leaves what was read so far.\<close>

fun read_records :: "nat \<Rightarrow> nat \<Rightarrow> page \<Rightarrow> (key \<times> bytes) list" where
  "read_records 0 off pg = []"
| "read_records (Suc n) off pg =
     (if PAGE_SIZE < off + 4 then []
      else
        let klen = unat (u32_from_le (slice off (off + 4) pg)); off = off + 4
        in if PAGE_SIZE < off + klen then []
           else
             let k = slice off (off + klen) pg; off = off + klen
             in if PAGE_SIZE < off + 4 then []
                else
                  let vlen = unat (u32_from_le (slice off (off + 4) pg)); off = off + 4
                  in if PAGE_SIZE < off + vlen then []
                     else (k, slice off (off + vlen) pg) # read_records n (off + vlen) pg)"

fun read_children :: "nat \<Rightarrow> nat \<Rightarrow> page \<Rightarrow> page_id list \<times> nat" where
  "read_children 0 off pg = ([], off)"
| "read_children (Suc n) off pg =
     (if PAGE_SIZE < off + 4 then ([], off)
      else
        (case read_children n (off + 4) pg of
           (cs, off') \<Rightarrow> (u32_from_le (slice off (off + 4) pg) # cs, off')))"

fun read_keys :: "nat \<Rightarrow> nat \<Rightarrow> page \<Rightarrow> key list" where
  "read_keys 0 off pg = []"
| "read_keys (Suc n) off pg =
     (if PAGE_SIZE < off + 4 then []
      else
        let klen = unat (u32_from_le (slice off (off + 4) pg)); off = off + 4
        in if PAGE_SIZE < off + klen then []
           else slice off (off + klen) pg # read_keys n (off + klen) pg)"

definition from_page :: "page \<Rightarrow> node" where
  "from_page pg =
     (let node_type = pg ! 0;
          num_elements = unat (u16_from_le (slice 1 3 pg));
          parent = max_or_id (u32_from_le (slice 3 7 pg))
      in if node_type = NODE_TYPE_LEAF then
           Leaf \<lparr>lf_parent = parent, lf_next = max_or_id (u32_from_le (slice 7 11 pg)),
                 lf_records = read_records num_elements 11 pg\<rparr>
         else
           (case read_children (Suc num_elements) 7 pg of
              (children, off) \<Rightarrow>
                Internal \<lparr>in_parent = parent, in_keys = read_keys num_elements off pg,
                          in_children = children\<rparr>))"

section \<open>The encoder\<close>

lemma write_fields_cursor:
  "length (concat fs) \<le> length pad \<Longrightarrow>
   write_fields fs (length done) (done @ pad) = Inr (done @ concat fs @ drop (length (concat fs)) pad)"
proof (induction fs arbitrary: "done" pad)
  case Nil
  then show ?case by simp
next
  case (Cons f fs)
  have "write_fields fs (length (done @ f)) ((done @ f) @ drop (length f) pad) =
      Inr ((done @ f) @ concat fs @ drop (length (concat fs)) (drop (length f) pad))"
    using Cons.prems by (intro Cons.IH) simp
  then show ?case
    using Cons.prems by (simp add: write_slice_def patch_cursor add.commute)
qed

lemma length_record_fields [simp]:
  "length (concat (record_fields r)) = 4 + length (fst r) + 4 + length (snd r)"
  by (simp add: record_fields_def split: prod.split)

lemma length_key_fields [simp]: "length (concat (key_fields k)) = 4 + length k"
  by (simp add: key_fields_def)

lemma length_concat_concat: "length (concat (concat (map f xs))) = sum_list (map (\<lambda>x. length (concat (f x))) xs)"
  by (induction xs) auto

lemma length_node_fields: "length (concat (node_fields n)) = encoded_size n"
proof (cases n)
  case (Leaf l)
  have "sum_list (map (\<lambda>r. 4 + length (fst r) + 4 + length (snd r)) (lf_records l)) =
      sum_list (map (\<lambda>(k, v). 4 + length k + 4 + length v) (lf_records l))"
    by (simp add: case_prod_unfold)
  then show ?thesis
    by (simp add: Leaf length_concat_concat)
next
  case (Internal i)
  have "length (concat (map u32_to_le cs)) = length cs * 4" for cs
    by (induction cs) auto
  then show ?thesis
    by (simp add: Internal length_concat_concat)
qed

lemma to_page_eq:
  assumes "encoded_size n \<le> PAGE_SIZE"
  shows "to_page n = Inr (concat (node_fields n) @ replicate (PAGE_SIZE - encoded_size n) 0)"
  using assms write_fields_cursor [of "node_fields n" blank_page "[]"]
  by (simp add: to_page_def blank_page_def length_node_fields)

lemma length_to_page: "to_page n = Inr pg \<Longrightarrow> length pg = PAGE_SIZE"
proof -
  assume a: "to_page n = Inr pg"
  then have "encoded_size n \<le> PAGE_SIZE"
    by (auto simp: to_page_def Let_def split: if_splits)
  with a show ?thesis
    by (auto simp: to_page_eq length_node_fields)
qed

section \<open>The decoder inverts the encoder\<close>

lemma slice_at:
  "length done = off \<Longrightarrow> length xs = n \<Longrightarrow> slice off (off + n) (done @ xs @ rest) = xs"
  by auto

lemma unat_of_nat_page: "n \<le> PAGE_SIZE \<Longrightarrow> unat (of_nat n :: u32) = n"
  by (simp add: unat_of_nat)

lemma read_records_encoded:
  assumes "pg = done @ concat (concat (map record_fields rs)) @ rest" "length pg = PAGE_SIZE"
  shows "read_records (length rs) (length done) pg = rs"
  using assms
proof (induction rs arbitrary: "done")
  case Nil
  then show ?case by simp
next
  case (Cons r rs)
  obtain k v where r: "r = (k, v)"
    by (cases r)
  let ?tl = "concat (concat (map record_fields rs)) @ rest"
  have len: "length done + 4 + length k + 4 + length v \<le> PAGE_SIZE"
    using arg_cong [OF Cons.prems(1), of length] Cons.prems(2)
    by (simp add: r record_fields_def [of "(k, v)"])
  have pg: "pg = done @ u32_to_le (of_nat (length k)) @ k @ u32_to_le (of_nat (length v)) @ v @ ?tl"
    using Cons.prems(1) by (simp add: r record_fields_def [of "(k, v)"])
  let ?d1 = "done @ u32_to_le (of_nat (length k))"
  let ?d2 = "?d1 @ k"
  let ?d3 = "?d2 @ u32_to_le (of_nat (length v))"
  have s1: "slice (length done) (length done + 4) pg = u32_to_le (of_nat (length k))"
    unfolding pg by (intro slice_at) simp_all
  have s2: "slice (length done + 4) (length done + 4 + length k) pg = k"
    using slice_at [of ?d1 "length done + 4" k "length k"] pg by simp
  have s3: "slice (length done + 4 + length k) (length done + 4 + length k + 4) pg =
      u32_to_le (of_nat (length v))"
    using slice_at [of ?d2 "length done + 4 + length k" "u32_to_le (of_nat (length v))" 4] pg by simp
  have s4: "slice (length done + 4 + length k + 4) (length done + 4 + length k + 4 + length v) pg = v"
    using slice_at [of ?d3 "length done + 4 + length k + 4" v "length v"] pg by simp
  have u: "unat (of_nat (length k) :: u32) = length k" "unat (of_nat (length v) :: u32) = length v"
    using len by (simp_all add: unat_of_nat_page)
  have "read_records (length rs) (length (?d3 @ v)) pg = rs"
    by (rule Cons.IH) (use pg Cons.prems(2) in simp_all)
  then have "read_records (length rs) (length done + 4 + length k + 4 + length v) pg = rs"
    by (simp add: add.commute add.left_commute)
  moreover have "\<not> PAGE_SIZE < length done + 4" "\<not> PAGE_SIZE < length done + 4 + length k"
    "\<not> PAGE_SIZE < length done + 4 + length k + 4"
    "\<not> PAGE_SIZE < length done + 4 + length k + 4 + length v"
    using len by linarith+
  ultimately show ?case
    unfolding r length_Cons read_records.simps Let_def s1 from_to_le u s2 s3 s4
    by (simp only: if_False)
qed

lemma read_children_encoded:
  assumes "pg = done @ concat (map u32_to_le cs) @ rest" "length pg = PAGE_SIZE"
  shows "read_children (length cs) (length done) pg = (cs, length done + length cs * 4)"
  using assms
proof (induction cs arbitrary: "done")
  case Nil
  then show ?case by simp
next
  case (Cons c cs)
  have len: "length done + 4 \<le> PAGE_SIZE"
    using arg_cong [OF Cons.prems(1), of length] Cons.prems(2) by simp
  have s: "slice (length done) (length done + 4) pg = u32_to_le c"
    unfolding Cons.prems(1) by (simp add: slice_at)
  have "read_children (length cs) (length (done @ u32_to_le c)) pg =
      (cs, length (done @ u32_to_le c) + length cs * 4)"
    by (rule Cons.IH) (use Cons.prems in simp_all)
  then show ?case
    using len s by simp
qed

lemma read_keys_encoded:
  assumes "pg = done @ concat (concat (map key_fields ks)) @ rest" "length pg = PAGE_SIZE"
  shows "read_keys (length ks) (length done) pg = ks"
  using assms
proof (induction ks arbitrary: "done")
  case Nil
  then show ?case by simp
next
  case (Cons k ks)
  let ?tl = "concat (concat (map key_fields ks)) @ rest"
  let ?d1 = "done @ u32_to_le (of_nat (length k))"
  have len: "length done + 4 + length k \<le> PAGE_SIZE"
    using arg_cong [OF Cons.prems(1), of length] Cons.prems(2)
    by (simp add: key_fields_def [of k])
  have pg: "pg = done @ u32_to_le (of_nat (length k)) @ k @ ?tl"
    using Cons.prems(1) by (simp add: key_fields_def [of k])
  have s1: "slice (length done) (length done + 4) pg = u32_to_le (of_nat (length k))"
    unfolding pg by (intro slice_at) simp_all
  have s2: "slice (length done + 4) (length done + 4 + length k) pg = k"
    using slice_at [of ?d1 "length done + 4" k "length k"] pg by simp
  have u: "unat (of_nat (length k) :: u32) = length k"
    using len by (simp add: unat_of_nat_page)
  have "read_keys (length ks) (length (?d1 @ k)) pg = ks"
    by (rule Cons.IH) (use pg Cons.prems(2) in simp_all)
  then have "read_keys (length ks) (length done + 4 + length k) pg = ks"
    by (simp add: add.commute add.left_commute)
  then show ?case
    using len s1 s2 u by (simp add: Let_def)
qed

text \<open>
  The nodes the format can carry: one more child than keys, and no reference to the page
  id \<open>u32::MAX\<close>, which stands for none.
\<close>

fun node_ok :: "node \<Rightarrow> bool" where
  "node_ok (Leaf l) \<longleftrightarrow> lf_parent l \<noteq> Some U32_MAX \<and> lf_next l \<noteq> Some U32_MAX"
| "node_ok (Internal i) \<longleftrightarrow> in_parent i \<noteq> Some U32_MAX \<and> length (in_children i) = Suc (length (in_keys i))"

lemma max_or_id_inverse [simp]: "p \<noteq> Some U32_MAX \<Longrightarrow> max_or_id (id_or_max p) = p"
  by (cases p) (auto simp: max_or_id_def id_or_max_def)

lemma unat_of_nat_u16: "n < 65536 \<Longrightarrow> unat (of_nat n :: u16) = n"
  by (simp add: unat_of_nat)

lemma sum_list_ge_length: "(\<And>x. x \<in> set xs \<Longrightarrow> c \<le> f x) \<Longrightarrow> c * length xs \<le> (sum_list (map f xs) :: nat)"
  by (induction xs) fastforce+

lemma encoded_count:
  "encoded_size (Leaf l) \<le> PAGE_SIZE \<Longrightarrow> length (lf_records l) < 65536"
  "encoded_size (Internal i) \<le> PAGE_SIZE \<Longrightarrow> length (in_keys i) < 65536"
  using sum_list_ge_length [of "lf_records l" 1 "\<lambda>(k, v). 4 + length k + 4 + length v"]
    sum_list_ge_length [of "in_keys i" 1 "\<lambda>k. 4 + length k"]
  by (auto split: prod.splits)

lemma header_slices:
  "slice (Suc 0) 3 (t # u16_to_le n @ u32_to_le p @ rest) = u16_to_le n"
  "slice 3 7 (t # u16_to_le n @ u32_to_le p @ rest) = u32_to_le p"
  "slice 7 11 (t # u16_to_le n @ u32_to_le p @ u32_to_le q @ rest) = u32_to_le q"
  by (simp_all add: slice_def)

lemma from_page_leaf:
  assumes "pg = concat (node_fields (Leaf l)) @ rest" "length pg = PAGE_SIZE"
    "node_ok (Leaf l)" "length (lf_records l) < 65536"
  shows "from_page pg = Leaf l"
proof -
  let ?h = "[NODE_TYPE_LEAF] @ u16_to_le (of_nat (length (lf_records l))) @
    u32_to_le (id_or_max (lf_parent l)) @ u32_to_le (id_or_max (lf_next l))"
  have pg: "pg = ?h @ concat (concat (map record_fields (lf_records l))) @ rest"
    using assms(1) by simp
  have "read_records (length (lf_records l)) 11 pg = lf_records l"
    using read_records_encoded [OF pg assms(2)] by simp
  moreover have "pg ! 0 = NODE_TYPE_LEAF"
    "slice 1 3 pg = u16_to_le (of_nat (length (lf_records l)))"
    "slice 3 7 pg = u32_to_le (id_or_max (lf_parent l))"
    "slice 7 11 pg = u32_to_le (id_or_max (lf_next l))"
    using pg by (simp_all add: header_slices)
  ultimately show ?thesis
    using assms(3,4) by (simp add: from_page_def unat_of_nat_u16)
qed

lemma from_page_internal:
  assumes "pg = concat (node_fields (Internal i)) @ rest" "length pg = PAGE_SIZE"
    "node_ok (Internal i)" "length (in_keys i) < 65536"
  shows "from_page pg = Internal i"
proof -
  let ?h = "[NODE_TYPE_INTERNAL] @ u16_to_le (of_nat (length (in_keys i))) @
    u32_to_le (id_or_max (in_parent i))"
  let ?cs = "concat (map u32_to_le (in_children i))"
  let ?ks = "concat (concat (map key_fields (in_keys i)))"
  have pg: "pg = ?h @ ?cs @ ?ks @ rest" "pg = (?h @ ?cs) @ ?ks @ rest"
    using assms(1) by simp_all
  have "length (concat (map u32_to_le cs)) = length cs * 4" for cs
    by (induction cs) auto
  then have "read_keys (length (in_keys i)) (7 + length (in_children i) * 4) pg = in_keys i"
    using read_keys_encoded [OF pg(2) assms(2)] by simp
  moreover have "read_children (Suc (length (in_keys i))) 7 pg =
      (in_children i, 7 + length (in_children i) * 4)"
    using read_children_encoded [OF pg(1) assms(2)] assms(3) by simp
  moreover have "pg ! 0 = NODE_TYPE_INTERNAL"
    "slice 1 3 pg = u16_to_le (of_nat (length (in_keys i)))"
    "slice 3 7 pg = u32_to_le (id_or_max (in_parent i))"
    using pg by (simp_all add: header_slices)
  moreover have "NODE_TYPE_INTERNAL \<noteq> NODE_TYPE_LEAF"
    by (simp add: NODE_TYPE_LEAF_def NODE_TYPE_INTERNAL_def)
  ultimately show ?thesis
    using assms(3,4) by (simp add: from_page_def unat_of_nat_u16 del: read_children.simps)
qed

lemma from_page_encoded:
  assumes "node_ok n" "encoded_size n \<le> PAGE_SIZE"
  shows "from_page (concat (node_fields n) @ replicate (PAGE_SIZE - encoded_size n) 0) = n"
proof -
  have len: "length (concat (node_fields n) @ replicate (PAGE_SIZE - encoded_size n) 0) = PAGE_SIZE"
    using assms(2) by (simp only: length_append length_node_fields length_replicate)
  show ?thesis
  proof (cases n)
    case (Leaf l)
    then show ?thesis
      using from_page_leaf [OF refl len [unfolded Leaf]] assms encoded_count(1) [of l] by simp
  next
    case (Internal i)
    then show ?thesis
      using from_page_internal [OF refl len [unfolded Internal]] assms encoded_count(2) [of i] by simp
  qed
qed

section \<open>Decoded nodes fit in a page\<close>

lemma read_records_size:
  "off \<le> PAGE_SIZE \<Longrightarrow>
   off + sum_list (map (\<lambda>(k, v). 4 + length k + 4 + length v) (read_records n off pg)) \<le> PAGE_SIZE"
proof (induction n off pg rule: read_records.induct)
  case (1 off pg)
  then show ?case by simp
next
  case (2 n off pg)
  define klen where "klen = unat (u32_from_le (slice off (off + 4) pg))"
  define off1 where "off1 = off + 4 + klen"
  define vlen where "vlen = unat (u32_from_le (slice off1 (off1 + 4) pg))"
  define off2 where "off2 = off1 + 4 + vlen"
  have unfold: "read_records (Suc n) off pg =
      (if PAGE_SIZE < off + 4 \<or> PAGE_SIZE < off1 \<or> PAGE_SIZE < off1 + 4 \<or> PAGE_SIZE < off2 then []
       else (slice (off + 4) off1 pg, slice (off1 + 4) off2 pg) # read_records n off2 pg)"
    by (simp add: Let_def klen_def off1_def vlen_def off2_def)
  show ?case
  proof (cases "PAGE_SIZE < off + 4 \<or> PAGE_SIZE < off1 \<or> PAGE_SIZE < off1 + 4 \<or> PAGE_SIZE < off2")
    case True
    then show ?thesis
      unfolding unfold using 2(2) by simp
  next
    case False
    then have "off2 + sum_list (map (\<lambda>(k, v). 4 + length k + 4 + length v) (read_records n off2 pg)) \<le> PAGE_SIZE"
      using 2(1) [OF _ klen_def refl] by (simp add: off1_def off2_def vlen_def)
    then show ?thesis
      unfolding unfold using False by (simp add: off1_def off2_def)
  qed
qed

lemma read_children_size:
  "off \<le> PAGE_SIZE \<Longrightarrow> read_children n off pg = (cs, off') \<Longrightarrow>
   off' = off + length cs * 4 \<and> off' \<le> PAGE_SIZE"
  by (induction n off pg arbitrary: cs off' rule: read_children.induct) (auto split: if_splits prod.splits)

lemma read_keys_size:
  "off \<le> PAGE_SIZE \<Longrightarrow> off + sum_list (map (\<lambda>k. 4 + length k) (read_keys n off pg)) \<le> PAGE_SIZE"
proof (induction n off pg rule: read_keys.induct)
  case (1 off pg)
  then show ?case by simp
next
  case (2 n off pg)
  define klen where "klen = unat (u32_from_le (slice off (off + 4) pg))"
  show ?case
  proof (cases "PAGE_SIZE < off + 4 \<or> PAGE_SIZE < off + 4 + klen")
    case True
    then show ?thesis
      using 2(2) by (auto simp: Let_def klen_def)
  next
    case False
    then have "off + 4 + klen + sum_list (map (\<lambda>k. 4 + length k) (read_keys n (off + 4 + klen) pg)) \<le> PAGE_SIZE"
      using 2(1) [OF _ klen_def refl] by simp
    then show ?thesis
      using False by (simp add: Let_def flip: klen_def)
  qed
qed

lemma from_page_size: "encoded_size (from_page pg) \<le> PAGE_SIZE"
proof (cases "pg ! 0 = NODE_TYPE_LEAF")
  case True
  then show ?thesis
    using read_records_size [of 11 "unat (u16_from_le (slice 1 3 pg))" pg]
    by (simp add: from_page_def Let_def)
next
  case False
  obtain cs off where c: "read_children (Suc (unat (u16_from_le (slice 1 3 pg)))) 7 pg = (cs, off)"
    by fastforce
  then have "off = 7 + length cs * 4" "off \<le> PAGE_SIZE"
    using read_children_size [OF _ c] by simp_all
  then show ?thesis
    using False c read_keys_size [of off "unat (u16_from_le (slice 1 3 pg))" pg]
    by (simp add: from_page_def Let_def del: read_children.simps)
qed
section \<open>Properties\<close>

text \<open>
  (C22) The node encoding is exact: a node that fits in a page is encoded without an index
  out of range into exactly one page, and decoding that page gives the node back.
\<close>

theorem node_round_trip:
  assumes "node_ok n" and "encoded_size n \<le> PAGE_SIZE"
  shows "\<exists>pg. to_page n = Inr pg \<and> length pg = PAGE_SIZE \<and> from_page pg = n"
  using to_page_eq [OF assms(2)] from_page_encoded [OF assms] assms(2)
  by (simp add: length_node_fields)

theorem node_round_trip_witness:
  "\<exists>pg. to_page (Leaf \<lparr>lf_parent = Some 3, lf_next = None, lf_records = [([1, 2], [3]), ([4], [])]\<rparr>) = Inr pg \<and>
     from_page pg = Leaf \<lparr>lf_parent = Some 3, lf_next = None, lf_records = [([1, 2], [3]), ([4], [])]\<rparr>"
  using node_round_trip [of "Leaf \<lparr>lf_parent = Some 3, lf_next = None, lf_records = [([1, 2], [3]), ([4], [])]\<rparr>"]
  by auto

text \<open>
  The encoder refuses exactly the nodes that do not fit, and it never panics: its
  result is a page or the error that carries the size.
\<close>

theorem to_page_total:
  "to_page n = Inl (NodeTooLarge (encoded_size n)) \<and> PAGE_SIZE < encoded_size n \<or>
   (\<exists>pg. to_page n = Inr pg \<and> length pg = PAGE_SIZE \<and> encoded_size n \<le> PAGE_SIZE)"
  using to_page_eq [of n] by (cases "encoded_size n \<le> PAGE_SIZE") (auto simp: to_page_def length_node_fields)

end
