(* ===== verification/BTree.thy ===== *)
theory BTree
  imports BufferPool Node
begin

text \<open>
  The B+ tree (\<open>src/storage/btree.rs\<close>, \<open>BTree\<close>): every operation, over the buffer pool and
  the node encoding. Nodes point to their parent and leaves to the next leaf by page id.
  Loops and recursions that follow such pointers run on fuel, \<open>Diverges\<close> when it is
  spent. The fuel is computed from the number of pages of the file when the walk starts,
  so that a walk along distinct pages always ends before it.
\<close>

section \<open>Model\<close>

abbreviation MAX_INLINE_VAL_SIZE :: nat where
  "MAX_INLINE_VAL_SIZE \<equiv> 2000"

abbreviation MAX_KEY_SIZE :: nat where
  "MAX_KEY_SIZE \<equiv> 1024"

definition OVERFLOW_MAGIC :: bytes where
  "OVERFLOW_MAGIC = [79, 86, 82, 70]"

record 'c btree =
  buffer_pool :: "'c pool"
  root_page_id :: page_id

definition on_pool :: "('c pool, 'a) M \<Rightarrow> ('c btree, 'a) M" where
  "on_pool m = (\<lambda>t. case m (buffer_pool t) of (r, p') \<Rightarrow> (r, t\<lparr>buffer_pool := p'\<rparr>))"

definition walk_fuel :: "'c btree \<Rightarrow> nat" where
  "walk_fuel t = 4 * unat (num_pages (pager (buffer_pool t))) + 4"

definition empty_leaf :: node where
  "empty_leaf = Leaf \<lparr>lf_parent = None, lf_next = None, lf_records = []\<rparr>"

definition bt_new :: "'c cache_ops \<Rightarrow> 'c pool \<Rightarrow> 'c btree res \<times> 'c pool" where
  "bt_new L pool =
     (let open_root =
        sbind (pool_read L 0) (\<lambda>meta.
          let stored_root = u32_from_le (slice 4 8 meta)
          in if stored_root = 0 \<or> stored_root = U32_MAX then
               sbind pool_allocate_page (\<lambda>new_page_id.
               sbind (of_res (to_page empty_leaf)) (\<lambda>pg.
               sthen (pool_write_page L new_page_id pg)
               (sbind (pool_read L 0) (\<lambda>cloned.
               sthen (pool_write_page L 0 (patch 4 (u32_to_le new_page_id) cloned))
               (ret new_page_id)))))
             else ret stored_root)
      in case open_root pool of
           (Inl e, pool') \<Rightarrow> (Inl e, pool')
         | (Inr root, pool') \<Rightarrow> (Inr \<lparr>buffer_pool = pool', root_page_id = root\<rparr>, pool'))"

definition persist_root_page_id :: "'c cache_ops \<Rightarrow> page_id \<Rightarrow> ('c btree, unit) M" where
  "persist_root_page_id L root =
     sbind (on_pool (pool_read L 0)) (\<lambda>cloned.
       on_pool (pool_write_page L 0 (patch 4 (u32_to_le root) cloned)))"

definition bt_flush_all :: "'c cache_ops \<Rightarrow> ('c btree, unit) M" where
  "bt_flush_all L = on_pool (pool_flush_all L)"

definition bt_flush_and_sync :: "'c cache_ops \<Rightarrow> ('c btree, unit) M" where
  "bt_flush_and_sync L = on_pool (pool_flush_and_sync L)"

definition bt_sync :: "('c btree, unit) M" where
  "bt_sync = on_pool pool_sync"

definition read_node :: "'c cache_ops \<Rightarrow> page_id \<Rightarrow> ('c btree, node) M" where
  "read_node L pid = sbind (on_pool (pool_read L pid)) (\<lambda>pg. ret (from_page pg))"

definition write_node :: "'c cache_ops \<Rightarrow> page_id \<Rightarrow> node \<Rightarrow> ('c btree, unit) M" where
  "write_node L pid n = sbind (of_res (to_page n)) (\<lambda>pg. on_pool (pool_write_page L pid pg))"

subsection \<open>Overflow pages\<close>

text \<open>The body of the loop over the chunks, which runs from the last chunk to the first.\<close>

fun write_chunks :: "'c cache_ops \<Rightarrow> (nat \<times> bytes) list \<Rightarrow> page_id option \<Rightarrow> page_id \<Rightarrow> ('c btree, page_id) M" where
  "write_chunks L [] prev first = ret first"
| "write_chunks L ((i, chunk) # cs) prev first =
     sbind (on_pool pool_allocate_page) (\<lambda>pid.
       let first = (if i = 0 then pid else first); next_id = id_or_max prev
       in sbind (of_res (rbind (write_slice 0 (u32_to_le next_id) blank_page) (write_slice 4 chunk))) (\<lambda>pg.
          sthen (on_pool (pool_write_page L pid pg)) (write_chunks L cs (Some pid) first)))"

definition overflow_handle :: "bytes \<Rightarrow> page_id \<Rightarrow> bytes" where
  "overflow_handle value first = OVERFLOW_MAGIC @ u32_to_le (of_nat (length value)) @ u32_to_le first"

definition write_overflow_value :: "'c cache_ops \<Rightarrow> bytes \<Rightarrow> ('c btree, bytes) M" where
  "write_overflow_value L value =
     sbind (write_chunks L (rev (enumerate 0 (chunks (PAGE_SIZE - 4) value))) None 0) (\<lambda>first.
       ret (overflow_handle value first))"

definition is_overflow :: "bytes \<Rightarrow> bool" where
  "is_overflow val_bytes \<longleftrightarrow> length val_bytes = 12 \<and> slice 0 4 val_bytes = OVERFLOW_MAGIC"

fun resolve_loop :: "'c cache_ops \<Rightarrow> nat \<Rightarrow> nat \<Rightarrow> page_id \<Rightarrow> bytes \<Rightarrow> ('c btree, bytes) M" where
  "resolve_loop L 0 total_len cur result = (if cur = U32_MAX then ret result else throw Diverges)"
| "resolve_loop L (Suc n) total_len cur result =
     (if cur = U32_MAX then ret result
      else
        sbind (on_pool (pool_read L cur)) (\<lambda>pg.
          let next_id = u32_from_le (slice 0 4 pg);
              remaining = total_len - length result;
              take_len = min remaining (PAGE_SIZE - 4)
          in resolve_loop L n total_len next_id (result @ slice 4 (4 + take_len) pg)))"

definition read_value_resolve_overflow :: "'c cache_ops \<Rightarrow> bytes \<Rightarrow> ('c btree, bytes) M" where
  "read_value_resolve_overflow L val_bytes =
     (if is_overflow val_bytes then
        sbind (gets walk_fuel) (\<lambda>fuel.
          resolve_loop L fuel (unat (u32_from_le (slice 4 8 val_bytes)))
            (u32_from_le (slice 8 12 val_bytes)) [])
      else ret val_bytes)"

fun free_loop :: "'c cache_ops \<Rightarrow> nat \<Rightarrow> page_id \<Rightarrow> ('c btree, unit) M" where
  "free_loop L 0 cur = (if cur = U32_MAX then ret () else throw Diverges)"
| "free_loop L (Suc n) cur =
     (if cur = U32_MAX then ret ()
      else
        sbind (on_pool (pool_read L cur)) (\<lambda>pg.
        sthen (on_pool (pool_free_page L cur)) (free_loop L n (u32_from_le (slice 0 4 pg)))))"

definition free_overflow_chain :: "'c cache_ops \<Rightarrow> bytes \<Rightarrow> ('c btree, unit) M" where
  "free_overflow_chain L val_bytes =
     (if is_overflow val_bytes then
        sbind (gets walk_fuel) (\<lambda>fuel. free_loop L fuel (u32_from_le (slice 8 12 val_bytes)))
      else ret ())"

subsection \<open>Descending\<close>

fun child_index :: "key \<Rightarrow> key list \<Rightarrow> nat" where
  "child_index key [] = 0"
| "child_index key (k # ks) = (if key < k then 0 else Suc (child_index key ks))"

fun find_leaf_for_insert :: "'c cache_ops \<Rightarrow> nat \<Rightarrow> page_id \<Rightarrow> node \<Rightarrow> key \<Rightarrow> ('c btree, page_id \<times> leaf_node) M" where
  "find_leaf_for_insert L n cur (Leaf l) key = ret (cur, l)"
| "find_leaf_for_insert L 0 cur (Internal i) key = throw Diverges"
| "find_leaf_for_insert L (Suc n) cur (Internal i) key =
     (let child_idx = child_index key (in_keys i)
      in if child_idx < length (in_children i) then
           let child_id = in_children i ! child_idx
           in sbind (read_node L child_id) (\<lambda>child. find_leaf_for_insert L n child_id child key)
         else throw Panic)"

text \<open>The three lines that \<open>insert\<close>, \<open>search\<close>, \<open>scan_prefix\<close> and \<open>delete\<close> start with.\<close>

definition locate :: "'c cache_ops \<Rightarrow> key \<Rightarrow> ('c btree, page_id \<times> leaf_node) M" where
  "locate L key =
     sbind (gets root_page_id) (\<lambda>root_id.
     sbind (read_node L root_id) (\<lambda>root_node.
     sbind (gets walk_fuel) (\<lambda>fuel. find_leaf_for_insert L fuel root_id root_node key)))"

subsection \<open>Splitting\<close>

text \<open>The assignments to \<open>parent_page_id\<close>, unconditional and under an \<open>if let\<close>.\<close>

fun set_parent :: "page_id \<Rightarrow> node \<Rightarrow> node" where
  "set_parent p (Leaf l) = Leaf (l\<lparr>lf_parent := Some p\<rparr>)"
| "set_parent p (Internal i) = Internal (i\<lparr>in_parent := Some p\<rparr>)"

definition set_parent_if_leaf :: "page_id \<Rightarrow> node \<Rightarrow> node" where
  "set_parent_if_leaf p n = (case n of Leaf l \<Rightarrow> Leaf (l\<lparr>lf_parent := Some p\<rparr>) | Internal i \<Rightarrow> Internal i)"

definition set_parent_if_internal :: "page_id \<Rightarrow> node \<Rightarrow> node" where
  "set_parent_if_internal p n = (case n of Leaf l \<Rightarrow> Leaf l | Internal i \<Rightarrow> Internal (i\<lparr>in_parent := Some p\<rparr>))"

definition set_root_page_id :: "page_id \<Rightarrow> ('c btree, unit) M" where
  "set_root_page_id p = modify (\<lambda>t. t\<lparr>root_page_id := p\<rparr>)"

definition binary_search :: "key list \<Rightarrow> key \<Rightarrow> nat + nat" where
  "binary_search ks key = binary_search_by (\<lambda>k. cmp k key) ks"

definition reparent :: "'c cache_ops \<Rightarrow> page_id \<Rightarrow> page_id \<Rightarrow> ('c btree, unit) M" where
  "reparent L parent child_id =
     sbind (read_node L child_id) (\<lambda>child. write_node L child_id (set_parent parent child))"

definition grow_internal_root :: "'c cache_ops \<Rightarrow> page_id \<Rightarrow> internal_node \<Rightarrow> key \<Rightarrow> page_id \<Rightarrow> ('c btree, unit) M" where
  "grow_internal_root L internal_id internal_node push_up_key new_internal_id =
     sbind (on_pool pool_allocate_page) (\<lambda>new_root_id.
     sthen (write_node L new_root_id (Internal \<lparr>in_parent = None, in_keys = [push_up_key],
              in_children = [internal_id, new_internal_id]\<rparr>))
     (sthen (write_node L internal_id (Internal (internal_node\<lparr>in_parent := Some new_root_id\<rparr>)))
     (sbind (read_node L new_internal_id) (\<lambda>right_internal.
     sthen (write_node L new_internal_id (set_parent_if_internal new_root_id right_internal))
     (sthen (set_root_page_id new_root_id) (persist_root_page_id L new_root_id))))))"

fun insert_into_internal :: "'c cache_ops \<Rightarrow> nat \<Rightarrow> page_id \<Rightarrow> key \<Rightarrow> page_id \<Rightarrow> ('c btree, unit) M"
and split_internal_and_insert :: "'c cache_ops \<Rightarrow> nat \<Rightarrow> page_id \<Rightarrow> internal_node \<Rightarrow> ('c btree, unit) M" where
  "insert_into_internal L n parent_id key right_child_id =
     sbind (read_node L parent_id) (\<lambda>parent_node.
       case parent_node of
         Leaf _ \<Rightarrow> ret ()
       | Internal i \<Rightarrow>
           let pos = search_pos (binary_search (in_keys i) key)
           in if length (in_children i) < pos + 1 then throw Panic
              else
                let i = i\<lparr>in_keys := list_insert pos key (in_keys i),
                          in_children := list_insert (pos + 1) right_child_id (in_children i)\<rparr>
                in if PAGE_SIZE < encoded_size (Internal i) then
                     (case n of 0 \<Rightarrow> throw Diverges | Suc m \<Rightarrow> split_internal_and_insert L m parent_id i)
                   else write_node L parent_id (Internal i))"
| "split_internal_and_insert L n internal_id i =
     (let mid = length (in_keys i) div 2
      in if length (in_keys i) \<le> mid \<or> length (in_children i) < mid + 1 then throw Panic
         else
           let push_up_key = in_keys i ! mid;
               right_keys = drop (mid + 1) (in_keys i);
               right_children = drop (mid + 1) (in_children i);
               left = i\<lparr>in_keys := take mid (in_keys i), in_children := take (mid + 1) (in_children i)\<rparr>
           in sbind (on_pool pool_allocate_page) (\<lambda>new_internal_id.
              sthen (write_node L internal_id (Internal left))
              (sthen (write_node L new_internal_id (Internal \<lparr>in_parent = in_parent i,
                        in_keys = right_keys, in_children = right_children\<rparr>))
              (sthen (for_each (reparent L new_internal_id) right_children)
              (case in_parent left of
                 Some parent_id \<Rightarrow>
                   (case n of
                      0 \<Rightarrow> throw Diverges
                    | Suc m \<Rightarrow> insert_into_internal L m parent_id push_up_key new_internal_id)
               | None \<Rightarrow> grow_internal_root L internal_id left push_up_key new_internal_id)))))"

definition grow_leaf_root :: "'c cache_ops \<Rightarrow> page_id \<Rightarrow> leaf_node \<Rightarrow> key \<Rightarrow> page_id \<Rightarrow> ('c btree, unit) M" where
  "grow_leaf_root L leaf_id leaf_node split_key new_leaf_id =
     sbind (on_pool pool_allocate_page) (\<lambda>new_root_id.
     sthen (write_node L new_root_id (Internal \<lparr>in_parent = None, in_keys = [split_key],
              in_children = [leaf_id, new_leaf_id]\<rparr>))
     (sthen (write_node L leaf_id (Leaf (leaf_node\<lparr>lf_parent := Some new_root_id\<rparr>)))
     (sbind (read_node L new_leaf_id) (\<lambda>right_leaf.
     sthen (write_node L new_leaf_id (set_parent_if_leaf new_root_id right_leaf))
     (sthen (set_root_page_id new_root_id) (persist_root_page_id L new_root_id))))))"

definition split_leaf_and_insert :: "'c cache_ops \<Rightarrow> page_id \<Rightarrow> leaf_node \<Rightarrow> ('c btree, unit) M" where
  "split_leaf_and_insert L leaf_id l =
     (let mid = length (lf_records l) div 2;
          right_records = drop mid (lf_records l)
      in case right_records of
           [] \<Rightarrow> throw Panic
         | (split_key, _) # _ \<Rightarrow>
             sbind (on_pool pool_allocate_page) (\<lambda>new_leaf_id.
               let new_leaf = \<lparr>lf_parent = lf_parent l, lf_next = lf_next l, lf_records = right_records\<rparr>;
                   left = l\<lparr>lf_records := take mid (lf_records l), lf_next := Some new_leaf_id\<rparr>
               in sthen (write_node L leaf_id (Leaf left))
                  (sthen (write_node L new_leaf_id (Leaf new_leaf))
                  (case lf_parent left of
                     Some parent_id \<Rightarrow>
                       sbind (gets walk_fuel) (\<lambda>fuel.
                         insert_into_internal L fuel parent_id split_key new_leaf_id)
                   | None \<Rightarrow> grow_leaf_root L leaf_id left split_key new_leaf_id))))"

subsection \<open>Operations\<close>

definition record_search :: "(key \<times> bytes) list \<Rightarrow> key \<Rightarrow> nat + nat" where
  "record_search rs key = binary_search_by (\<lambda>r. cmp (fst r) key) rs"

definition bt_insert :: "'c cache_ops \<Rightarrow> key \<Rightarrow> bytes \<Rightarrow> ('c btree, unit) M" where
  "bt_insert L key value =
     (if MAX_KEY_SIZE < length key then throw (KeyTooLarge (length key))
      else
        sbind (if MAX_INLINE_VAL_SIZE < length value then write_overflow_value L value else ret value)
          (\<lambda>stored_val.
        sbind (locate L key) (\<lambda>(leaf_id, leaf).
          let rs = lf_records leaf;
              pos = search_pos (record_search rs key)
          in sbind
               (if pos < length rs \<and> fst (rs ! pos) = key then
                  sthen (free_overflow_chain L (snd (rs ! pos))) (ret (rs[pos := (key, stored_val)]))
                else ret (list_insert pos (key, stored_val) rs))
               (\<lambda>rs'.
                  let leaf' = leaf\<lparr>lf_records := rs'\<rparr>
                  in if PAGE_SIZE < encoded_size (Leaf leaf') then split_leaf_and_insert L leaf_id leaf'
                     else write_node L leaf_id (Leaf leaf')))))"

definition bt_search :: "'c cache_ops \<Rightarrow> key \<Rightarrow> ('c btree, bytes option) M" where
  "bt_search L key =
     sbind (locate L key) (\<lambda>(_, leaf).
       case record_search (lf_records leaf) key of
         Inr pos \<Rightarrow>
           sbind (read_value_resolve_overflow L (snd (lf_records leaf ! pos))) (\<lambda>v. ret (Some v))
       | Inl _ \<Rightarrow> ret None)"

text \<open>
  One leaf of a prefix scan: the records to return, and whether the scan ends here.
\<close>

fun scan_leaf :: "'c cache_ops \<Rightarrow> bytes \<Rightarrow> (key \<times> bytes) list \<Rightarrow> ('c btree, (key \<times> bytes) list \<times> bool) M" where
  "scan_leaf L pfx [] = ret ([], False)"
| "scan_leaf L pfx ((k, v) # rs) =
     (if pfx = [] \<or> prefix pfx k then
        sbind (read_value_resolve_overflow L v) (\<lambda>val.
        sbind (scan_leaf L pfx rs) (\<lambda>(out, stop). ret ((k, val) # out, stop)))
      else if pfx \<noteq> [] \<and> pfx < k \<and> \<not> prefix pfx k then ret ([], True)
      else scan_leaf L pfx rs)"

fun scan_loop :: "'c cache_ops \<Rightarrow> nat \<Rightarrow> bytes \<Rightarrow> leaf_node \<Rightarrow> (key \<times> bytes) list \<Rightarrow> ('c btree, (key \<times> bytes) list) M" where
  "scan_loop L n pfx leaf results =
     sbind (scan_leaf L pfx (lf_records leaf)) (\<lambda>(out, stop).
       if stop then ret (results @ out)
       else case lf_next leaf of
         None \<Rightarrow> ret (results @ out)
       | Some next_id \<Rightarrow>
           sbind (read_node L next_id) (\<lambda>next_node.
             case next_node of
               Leaf next_leaf \<Rightarrow>
                 (case n of 0 \<Rightarrow> throw Diverges | Suc m \<Rightarrow> scan_loop L m pfx next_leaf (results @ out))
             | Internal _ \<Rightarrow> ret (results @ out)))"

definition bt_scan_prefix :: "'c cache_ops \<Rightarrow> bytes \<Rightarrow> ('c btree, (key \<times> bytes) list) M" where
  "bt_scan_prefix L pfx =
     sbind (locate L pfx) (\<lambda>(_, leaf).
     sbind (gets walk_fuel) (\<lambda>fuel. scan_loop L fuel pfx leaf []))"

definition bt_scan :: "'c cache_ops \<Rightarrow> ('c btree, (key \<times> bytes) list) M" where
  "bt_scan L = bt_scan_prefix L []"

fun find_leftmost_leaf :: "'c cache_ops \<Rightarrow> nat \<Rightarrow> page_id \<Rightarrow> ('c btree, page_id) M" where
  "find_leftmost_leaf L n pid =
     sbind (read_node L pid) (\<lambda>node.
       case node of
         Leaf _ \<Rightarrow> ret pid
       | Internal i \<Rightarrow>
           (case in_children i of
              [] \<Rightarrow> ret pid
            | c # _ \<Rightarrow> (case n of 0 \<Rightarrow> throw Diverges | Suc m \<Rightarrow> find_leftmost_leaf L m c)))"

text \<open>The walk along the sibling chain; \<open>False\<close> when it ends without finding the leaf.\<close>

fun unlink_walk :: "'c cache_ops \<Rightarrow> nat \<Rightarrow> page_id \<Rightarrow> leaf_node \<Rightarrow> page_id \<Rightarrow> ('c btree, bool) M" where
  "unlink_walk L n leaf_id leaf prev_id =
     sbind (read_node L prev_id) (\<lambda>prev_node.
       case prev_node of
         Internal _ \<Rightarrow> ret False
       | Leaf prev_leaf \<Rightarrow>
           if lf_next prev_leaf = Some leaf_id then
             sthen (write_node L prev_id (Leaf (prev_leaf\<lparr>lf_next := lf_next leaf\<rparr>)))
             (sthen (on_pool (pool_free_page L leaf_id)) (ret True))
           else
             (case lf_next prev_leaf of
                None \<Rightarrow> ret False
              | Some next_id \<Rightarrow>
                  (case n of 0 \<Rightarrow> throw Diverges | Suc m \<Rightarrow> unlink_walk L m leaf_id leaf next_id)))"

definition unlink_empty_leaf :: "'c cache_ops \<Rightarrow> page_id \<Rightarrow> leaf_node \<Rightarrow> ('c btree, unit) M" where
  "unlink_empty_leaf L leaf_id leaf =
     sbind (gets root_page_id) (\<lambda>root_id.
     sbind (gets walk_fuel) (\<lambda>fuel.
     sbind (find_leftmost_leaf L fuel root_id) (\<lambda>leftmost.
       if leftmost = leaf_id then write_node L leaf_id (Leaf leaf)
       else
         sbind (unlink_walk L fuel leaf_id leaf leftmost) (\<lambda>done.
           if done then ret () else write_node L leaf_id (Leaf leaf)))))"

definition bt_delete :: "'c cache_ops \<Rightarrow> key \<Rightarrow> ('c btree, unit) M" where
  "bt_delete L key =
     sbind (gets root_page_id) (\<lambda>root_id.
     sbind (locate L key) (\<lambda>(leaf_id, leaf).
       case record_search (lf_records leaf) key of
         Inl _ \<Rightarrow> ret ()
       | Inr pos \<Rightarrow>
           let removed = lf_records leaf ! pos;
               leaf' = leaf\<lparr>lf_records := list_remove pos (lf_records leaf)\<rparr>
           in sthen (free_overflow_chain L (snd removed))
              (if lf_records leaf' = [] \<and> leaf_id \<noteq> root_id then unlink_empty_leaf L leaf_id leaf'
               else write_node L leaf_id (Leaf leaf'))))"

declare insert_into_internal.simps [simp del] split_internal_and_insert.simps [simp del]
  scan_loop.simps [simp del] find_leftmost_leaf.simps [simp del] unlink_walk.simps [simp del]

end
