(* ===== verification/Trees.thy ===== *)
theory Trees
  imports Node "HOL-Library.Multiset"
begin

text \<open>
  The tree a set of pages stands for. A \<open>tree\<close> carries the page id of every node; the
  predicate \<open>stored\<close> says that the pages hold it, parent pointers included. Keys are
  ordered by \<open>ord\<close>, which bounds every subtree by the separators around it. Operations
  change a tree at one place, so trees are taken apart with contexts: \<open>plug t c\<close> puts the
  subtree \<open>t\<close> into the context \<open>c\<close>, a path of frames from the subtree up to the root.
\<close>

section \<open>Trees\<close>

datatype tree =
    Lf page_id "page_id option" "(key \<times> bytes) list"
  | Nd page_id "key list" "tree list"

fun pid :: "tree \<Rightarrow> page_id" where
  "pid (Lf p nx rs) = p"
| "pid (Nd p ks ts) = p"

fun pids :: "tree \<Rightarrow> page_id list" where
  "pids (Lf p nx rs) = [p]"
| "pids (Nd p ks ts) = p # concat (map pids ts)"

fun recs :: "tree \<Rightarrow> (key \<times> bytes) list" where
  "recs (Lf p nx rs) = rs"
| "recs (Nd p ks ts) = concat (map recs ts)"

text \<open>The leaves from left to right, each with its pointer to the next leaf.\<close>

fun leaves :: "tree \<Rightarrow> (page_id \<times> page_id option) list" where
  "leaves (Lf p nx rs) = [(p, nx)]"
| "leaves (Nd p ks ts) = concat (map leaves ts)"

fun linked :: "(page_id \<times> page_id option) list \<Rightarrow> bool" where
  "linked [] \<longleftrightarrow> True"
| "linked [(p, nx)] \<longleftrightarrow> nx = None"
| "linked ((p, nx) # (q, ny) # ls) \<longleftrightarrow> nx = Some q \<and> linked ((q, ny) # ls)"

fun stored :: "(page_id \<Rightarrow> node) \<Rightarrow> page_id option \<Rightarrow> tree \<Rightarrow> bool" where
  "stored N par (Lf p nx rs) \<longleftrightarrow> N p = Leaf \<lparr>lf_parent = par, lf_next = nx, lf_records = rs\<rparr>"
| "stored N par (Nd p ks ts) \<longleftrightarrow>
     N p = Internal \<lparr>in_parent = par, in_keys = ks, in_children = map pid ts\<rparr> \<and>
     (\<forall>t\<in>set ts. stored N (Some p) t)"

fun below :: "key \<Rightarrow> key option \<Rightarrow> bool" where
  "below k None \<longleftrightarrow> True"
| "below k (Some h) \<longleftrightarrow> k < h"

fun ord :: "key \<Rightarrow> key option \<Rightarrow> tree \<Rightarrow> bool"
and ords :: "key \<Rightarrow> key option \<Rightarrow> key list \<Rightarrow> tree list \<Rightarrow> bool" where
  "ord lo hi (Lf p nx rs) \<longleftrightarrow> sorted_wrt (<) (map fst rs) \<and> (\<forall>k\<in>fst ` set rs. lo \<le> k \<and> below k hi)"
| "ord lo hi (Nd p ks ts) \<longleftrightarrow> ords lo hi ks ts"
| "ords lo hi [] [t] \<longleftrightarrow> ord lo hi t"
| "ords lo hi (k # ks) (t # ts) \<longleftrightarrow> lo < k \<and> below k hi \<and> ord lo (Some k) t \<and> ords k hi ks ts"
| "ords lo hi ks ts \<longleftrightarrow> False"

text \<open>
  Records of at most this many bytes of key and value are small: a node full of them can
  be split in the middle, however their sizes vary.
\<close>

abbreviation SMALL :: nat where
  "SMALL \<equiv> 168"

fun small :: "tree \<Rightarrow> bool" where
  "small (Lf p nx rs) \<longleftrightarrow> (\<forall>(k, v)\<in>set rs. length k + length v \<le> SMALL)"
| "small (Nd p ks ts) \<longleftrightarrow> (\<forall>k\<in>set ks. length k \<le> SMALL) \<and> (\<forall>t\<in>set ts. small t)"

section \<open>Halves of an overfull node fit\<close>

abbreviation key_bytes :: "key list \<Rightarrow> nat" where
  "key_bytes ks \<equiv> sum_list (map (\<lambda>k. 4 + length k) ks)"

abbreviation record_bytes :: "(key \<times> bytes) list \<Rightarrow> nat" where
  "record_bytes rs \<equiv> sum_list (map (\<lambda>(k, v). 4 + length k + 4 + length v) rs)"

lemma sum_list_bounds:
  "(\<And>x. x \<in> set xs \<Longrightarrow> a \<le> f x \<and> f x \<le> b) \<Longrightarrow>
   a * length xs \<le> sum_list (map f xs) \<and> sum_list (map f xs) \<le> (b * length xs :: nat)"
  by (induction xs) fastforce+

lemma sum_list_split: "sum_list (map f xs) = sum_list (map f (take n xs)) + sum_list (map f (drop n xs))"
  for f :: "'a \<Rightarrow> nat"
  by (metis append_take_drop_id map_append sum_list_append)

lemma split_internal_fits:
  assumes "\<forall>k\<in>set ks. length k \<le> SMALL" "mid = length ks div 2"
    "7 + (length ks + 1) * 4 + key_bytes ks \<le> PAGE_SIZE + 8 + SMALL"
  shows "7 + (mid + 1) * 4 + key_bytes (take mid ks) \<le> PAGE_SIZE"
    "7 + (length ks - mid) * 4 + key_bytes (drop (mid + 1) ks) \<le> PAGE_SIZE"
proof -
  have split: "key_bytes ks = key_bytes (take mid ks) + key_bytes (drop mid ks)"
    "key_bytes (drop mid ks) = key_bytes (take 1 (drop mid ks)) + key_bytes (drop (mid + 1) ks)"
    using sum_list_split [of "\<lambda>k. 4 + length k" ks mid] sum_list_split [of "\<lambda>k. 4 + length k" "drop mid ks" 1]
    by (simp_all add: add.commute)
  have bound: "4 * length xs \<le> key_bytes xs \<and> key_bytes xs \<le> 172 * length xs" if "set xs \<subseteq> set ks" for xs
    using assms(1) that by (intro sum_list_bounds) auto
  have b: "4 * mid \<le> key_bytes (take mid ks)" "key_bytes (take mid ks) \<le> 172 * mid"
    "4 * (length ks - mid) \<le> key_bytes (drop mid ks)"
    "key_bytes (drop (mid + 1) ks) \<le> 172 * (length ks - (mid + 1))"
    using bound [of "take mid ks"] bound [of "drop mid ks"] bound [of "drop (mid + 1) ks"] assms(2)
    by (auto dest: in_set_takeD in_set_dropD)
  have one: "4 \<le> key_bytes (take 1 (drop mid ks))" if "mid < length ks"
    using that by (cases "drop mid ks") auto
  show "7 + (mid + 1) * 4 + key_bytes (take mid ks) \<le> PAGE_SIZE"
  proof (cases "mid \<le> 22")
    case True
    then show ?thesis using b(2) by simp
  next
    case False
    then have "23 \<le> length ks - mid" "length ks = mid + (length ks - mid)"
      using assms(2) by auto
    then show ?thesis using b(3) split(1) assms(3) by simp
  qed
  show "7 + (length ks - mid) * 4 + key_bytes (drop (mid + 1) ks) \<le> PAGE_SIZE"
  proof (cases "length ks - (mid + 1) \<le> 22")
    case True
    then have "length ks - mid \<le> 23"
      by simp
    then show ?thesis using b(4) True by simp
  next
    case False
    then have "23 \<le> mid" "mid < length ks" "length ks = mid + (length ks - mid)"
      using assms(2) by auto
    then show ?thesis using b(1) split one assms(3) by simp
  qed
qed

lemma split_leaf_fits:
  assumes "\<forall>(k, v)\<in>set rs. length k + length v \<le> SMALL" "mid = length rs div 2"
    "11 + record_bytes rs \<le> PAGE_SIZE + 8 + SMALL"
  shows "11 + record_bytes (take mid rs) \<le> PAGE_SIZE" "11 + record_bytes (drop mid rs) \<le> PAGE_SIZE"
proof -
  have split: "record_bytes rs = record_bytes (take mid rs) + record_bytes (drop mid rs)"
    by (rule sum_list_split)
  have bound: "8 * length xs \<le> record_bytes xs \<and> record_bytes xs \<le> 176 * length xs" if "set xs \<subseteq> set rs" for xs
    using assms(1) that by (intro sum_list_bounds) (fastforce split: prod.splits)
  have b: "8 * mid \<le> record_bytes (take mid rs)" "record_bytes (take mid rs) \<le> 176 * mid"
    "8 * (length rs - mid) \<le> record_bytes (drop mid rs)"
    "record_bytes (drop mid rs) \<le> 176 * (length rs - mid)"
    using bound [of "take mid rs"] bound [of "drop mid rs"] assms(2)
    by (auto dest: in_set_takeD in_set_dropD)
  show "11 + record_bytes (take mid rs) \<le> PAGE_SIZE"
  proof (cases "mid \<le> 22")
    case True
    then show ?thesis using b(2) by simp
  next
    case False
    then have "23 \<le> length rs - mid"
      using assms(2) by auto
    then show ?thesis using b(3) split assms(3) by simp
  qed
  show "11 + record_bytes (drop mid rs) \<le> PAGE_SIZE"
  proof (cases "length rs - mid \<le> 23")
    case True
    then show ?thesis using b(4) by simp
  next
    case False
    then have "23 \<le> mid"
      using assms(2) by auto
    then show ?thesis using b(1) split assms(3) by simp
  qed
qed

section \<open>Facts about trees\<close>

lemma pid_in_pids [simp]: "pid t \<in> set (pids t)"
  by (cases t) auto

lemma pids_Cons: "pids t = pid t # tl (pids t)"
  by (cases t) auto

lemma stored_cong:
  "stored N par t \<Longrightarrow> (\<And>p. p \<in> set (pids t) \<Longrightarrow> N' p = N p) \<Longrightarrow> stored N' par t"
proof (induction N par t rule: stored.induct)
  case (1 N par p nx rs)
  then show ?case by simp
next
  case (2 N par p ks ts)
  have "stored N' (Some p) t" if "t \<in> set ts" for t
    using that 2(2,3) by (intro 2(1)) auto
  then show ?case
    using 2 by simp
qed

lemma ords_length: "ords lo hi ks ts \<Longrightarrow> length ts = Suc (length ks)"
proof (induction ks arbitrary: lo ts)
  case Nil
  then show ?case by (cases ts; cases "List.tl ts") auto
next
  case (Cons k ks)
  then show ?case by (cases ts) auto
qed

lemma below_trans: "k \<le> k' \<Longrightarrow> below k' hi \<Longrightarrow> below k hi"
  by (cases hi) auto

lemma below_less: "k < k' \<Longrightarrow> below k' hi \<Longrightarrow> below k hi"
  by (cases hi) auto

section \<open>Contexts\<close>

type_synonym frame = "page_id \<times> key list \<times> tree list \<times> key list \<times> tree list"
type_synonym ctx = "frame list"

fun plug :: "tree \<Rightarrow> ctx \<Rightarrow> tree" where
  "plug t [] = t"
| "plug t ((p, ks1, ts1, ks2, ts2) # c) = plug (Nd p (ks1 @ ks2) (ts1 @ t # ts2)) c"

fun ctx_parent :: "ctx \<Rightarrow> page_id option" where
  "ctx_parent [] = None"
| "ctx_parent ((p, _) # c) = Some p"

fun ctx_wf :: "ctx \<Rightarrow> bool" where
  "ctx_wf [] \<longleftrightarrow> True"
| "ctx_wf ((p, ks1, ts1, ks2, ts2) # c) \<longleftrightarrow> length ts1 = length ks1 \<and> length ts2 = length ks2 \<and> ctx_wf c"

fun ctx_pids :: "ctx \<Rightarrow> page_id list" where
  "ctx_pids [] = []"
| "ctx_pids ((p, ks1, ts1, ks2, ts2) # c) = p # concat (map pids (ts1 @ ts2)) @ ctx_pids c"

fun ctx_left :: "(tree \<Rightarrow> 'a list) \<Rightarrow> ctx \<Rightarrow> 'a list" where
  "ctx_left f [] = []"
| "ctx_left f ((p, ks1, ts1, ks2, ts2) # c) = ctx_left f c @ concat (map f ts1)"

fun ctx_right :: "(tree \<Rightarrow> 'a list) \<Rightarrow> ctx \<Rightarrow> 'a list" where
  "ctx_right f [] = []"
| "ctx_right f ((p, ks1, ts1, ks2, ts2) # c) = concat (map f ts2) @ ctx_right f c"

fun ctx_stored :: "(page_id \<Rightarrow> node) \<Rightarrow> page_id \<Rightarrow> ctx \<Rightarrow> bool" where
  "ctx_stored N q [] \<longleftrightarrow> True"
| "ctx_stored N q ((p, ks1, ts1, ks2, ts2) # c) \<longleftrightarrow>
     N p = Internal \<lparr>in_parent = ctx_parent c, in_keys = ks1 @ ks2,
                     in_children = map pid ts1 @ q # map pid ts2\<rparr> \<and>
     (\<forall>t\<in>set (ts1 @ ts2). stored N (Some p) t) \<and> ctx_stored N p c"

text \<open>The interval of keys that belong in the hole.\<close>

fun ctx_lo :: "ctx \<Rightarrow> key" where
  "ctx_lo [] = []"
| "ctx_lo ((p, ks1, ts1, ks2, ts2) # c) = last (ctx_lo c # ks1)"

fun ctx_hi :: "ctx \<Rightarrow> key option" where
  "ctx_hi [] = None"
| "ctx_hi ((p, ks1, ts1, ks2, ts2) # c) = (case ks2 of [] \<Rightarrow> ctx_hi c | k # _ \<Rightarrow> Some k)"

fun ords_left :: "key \<Rightarrow> key option \<Rightarrow> key list \<Rightarrow> tree list \<Rightarrow> bool" where
  "ords_left lo hi [] [] \<longleftrightarrow> True"
| "ords_left lo hi (k # ks) (t # ts) \<longleftrightarrow> lo < k \<and> below k hi \<and> ord lo (Some k) t \<and> ords_left k hi ks ts"
| "ords_left lo hi ks ts \<longleftrightarrow> False"

fun ords_right :: "key \<Rightarrow> key option \<Rightarrow> key list \<Rightarrow> tree list \<Rightarrow> bool" where
  "ords_right lo hi [] ts \<longleftrightarrow> ts = []"
| "ords_right lo hi (k # ks) ts \<longleftrightarrow> lo < k \<and> below k hi \<and> ords k hi ks ts"

fun ctx_ord :: "ctx \<Rightarrow> bool" where
  "ctx_ord [] \<longleftrightarrow> True"
| "ctx_ord ((p, ks1, ts1, ks2, ts2) # c) \<longleftrightarrow>
     ords_left (ctx_lo c) (ctx_hi c) ks1 ts1 \<and>
     ords_right (last (ctx_lo c # ks1)) (ctx_hi c) ks2 ts2 \<and> ctx_ord c"

fun ctx_small :: "ctx \<Rightarrow> bool" where
  "ctx_small [] \<longleftrightarrow> True"
| "ctx_small ((p, ks1, ts1, ks2, ts2) # c) \<longleftrightarrow>
     (\<forall>k\<in>set (ks1 @ ks2). length k \<le> SMALL) \<and> (\<forall>t\<in>set (ts1 @ ts2). small t) \<and> ctx_small c"

subsection \<open>Taking a plugged tree apart\<close>

lemma mset_pids_plug: "mset (pids (plug t c)) = mset (pids t @ ctx_pids c)"
  by (induction t c rule: plug.induct) (auto simp: ac_simps)

lemma set_pids_plug: "set (pids (plug t c)) = set (pids t) \<union> set (ctx_pids c)"
  using mset_eq_setD [OF mset_pids_plug] by simp

lemma distinct_pids_plug: "distinct (pids (plug t c)) \<longleftrightarrow> distinct (pids t @ ctx_pids c)"
  by (rule mset_eq_imp_distinct_iff [OF mset_pids_plug])

lemma recs_plug: "recs (plug t c) = ctx_left recs c @ recs t @ ctx_right recs c"
  by (induction t c rule: plug.induct) auto

lemma leaves_plug: "leaves (plug t c) = ctx_left leaves c @ leaves t @ ctx_right leaves c"
  by (induction t c rule: plug.induct) auto

lemma stored_plug: "stored N None (plug t c) \<longleftrightarrow> ctx_stored N (pid t) c \<and> stored N (ctx_parent c) t"
  by (induction t c rule: plug.induct) (auto simp: ball_Un)

lemma small_plug: "small (plug t c) \<longleftrightarrow> ctx_small c \<and> small t"
  by (induction t c rule: plug.induct) auto

lemma pid_plug: "pid (plug t c) = (if c = [] then pid t else fst (last c))"
  by (induction t c rule: plug.induct) auto

lemma ords_split:
  "length ts1 = length ks1 \<Longrightarrow>
   ords lo hi (ks1 @ ks2) (ts1 @ t # ts2) \<longleftrightarrow>
     ords_left lo hi ks1 ts1 \<and>
     ord (last (lo # ks1)) (case ks2 of [] \<Rightarrow> hi | k # _ \<Rightarrow> Some k) t \<and>
     ords_right (last (lo # ks1)) hi ks2 ts2"
proof (induction ks1 arbitrary: lo ts1)
  case Nil
  then show ?case
    by (cases ks2; cases ts2) auto
next
  case (Cons k ks1)
  then show ?case by (cases ts1) auto
qed

lemma ord_plug:
  "ctx_wf c \<Longrightarrow> ord [] None (plug t c) \<longleftrightarrow> ctx_ord c \<and> ord (ctx_lo c) (ctx_hi c) t"
proof (induction t c rule: plug.induct)
  case (1 t)
  then show ?case by simp
next
  case (2 t p ks1 ts1 ks2 ts2 c)
  then show ?case by (auto simp: ords_split)
qed

text \<open>Replacing the hole of the innermost frame by two trees and a separator.\<close>

lemma ords_right_mono:
  "ords_right lo hi ks ts \<Longrightarrow> below k (case ks of [] \<Rightarrow> hi | k # _ \<Rightarrow> Some k) \<Longrightarrow> ords_right k hi ks ts"
  by (cases ks) auto

lemma ords_insert:
  assumes "length ts1 = length ks1" "ords_left lo hi ks1 ts1" "ords_right (last (lo # ks1)) hi ks2 ts2"
    "ord (last (lo # ks1)) (Some k) lt" "ord k (case ks2 of [] \<Rightarrow> hi | k # _ \<Rightarrow> Some k) rt"
    "last (lo # ks1) < k" "below k (case ks2 of [] \<Rightarrow> hi | k # _ \<Rightarrow> Some k)"
  shows "ords lo hi (ks1 @ k # ks2) (ts1 @ lt # rt # ts2)"
proof -
  have "below k hi"
    using assms(3,7) by (cases ks2) (auto intro: below_less)
  moreover have "ords k hi ks2 (rt # ts2)"
    using ords_split [of "[]" "[]" k hi ks2 rt ts2] ords_right_mono [OF assms(3,7)] assms(5) by simp
  ultimately show ?thesis
    using assms(1,2,4,6) ords_split [OF assms(1), of lo hi "k # ks2" lt "rt # ts2"] by simp
qed

text \<open>Splitting an internal node at one of its keys.\<close>

lemma ords_cut:
  "ords lo hi (ks1 @ k # ks2) (ts1 @ ts2) \<Longrightarrow> length ts1 = Suc (length ks1) \<Longrightarrow>
   ords lo (Some k) ks1 ts1 \<and> ords k hi ks2 ts2 \<and> lo < k \<and> below k hi"
proof (induction ks1 arbitrary: lo ts1)
  case Nil
  then obtain t where "ts1 = [t]"
    by (cases ts1) auto
  then show ?case
    using Nil by simp
next
  case (Cons k' ks1)
  then obtain t ts1' where ts1: "ts1 = t # ts1'" "length ts1' = Suc (length ks1)"
    by (cases ts1) auto
  then show ?case
    using Cons.IH [of k' ts1'] Cons.prems by auto
qed

lemma ctx_stored_cong:
  "ctx_stored N q c \<Longrightarrow> (\<And>p. p \<in> set (ctx_pids c) \<Longrightarrow> N' p = N p) \<Longrightarrow> ctx_stored N' q c"
proof (induction N q c rule: ctx_stored.induct)
  case (1 N q)
  then show ?case by simp
next
  case (2 N q p ks1 ts1 ks2 ts2 c)
  have here: "N p = Internal \<lparr>in_parent = ctx_parent c, in_keys = ks1 @ ks2,
      in_children = map pid ts1 @ q # map pid ts2\<rparr>"
    and kids: "\<And>t. t \<in> set (ts1 @ ts2) \<Longrightarrow> stored N (Some p) t" and up: "ctx_stored N p c"
    using 2(2) by auto
  have "stored N' (Some p) t" if "t \<in> set (ts1 @ ts2)" for t
    by (rule stored_cong [OF kids [OF that]], rule 2(3)) (use that in auto)
  moreover have "ctx_stored N' p c"
    by (rule 2(1) [OF up], rule 2(3)) simp
  moreover have "N' p = N p"
    by (rule 2(3)) simp
  ultimately show ?case
    using here by simp
qed

section \<open>Trees with an open split\<close>

text \<open>
  \<open>tree_ok N n r T\<close>: the nodes \<open>N\<close> hold the tree \<open>T\<close> with root \<open>r\<close> on pages below \<open>n\<close>.
  \<open>hole_ok N n r c k lt rt\<close>: a node of the tree has been split into \<open>lt\<close> and \<open>rt\<close> with
  separator \<open>k\<close>, and the context \<open>c\<close> still refers to \<open>lt\<close> only.
\<close>

definition tree_ok :: "(page_id \<Rightarrow> node) \<Rightarrow> page_id \<Rightarrow> page_id \<Rightarrow> tree \<Rightarrow> bool" where
  "tree_ok N n r T \<longleftrightarrow> stored N None T \<and> pid T = r \<and> ord [] None T \<and> distinct (pids T) \<and>
     (\<forall>p\<in>set (pids T). 0 < p \<and> p < n) \<and> linked (leaves T) \<and> small T"

definition hole_ok :: "(page_id \<Rightarrow> node) \<Rightarrow> page_id \<Rightarrow> page_id \<Rightarrow> ctx \<Rightarrow> key \<Rightarrow> tree \<Rightarrow> tree \<Rightarrow> bool" where
  "hole_ok N n r c k lt rt \<longleftrightarrow>
     ctx_wf c \<and> ctx_ord c \<and> ctx_small c \<and> ctx_stored N (pid lt) c \<and>
     stored N (ctx_parent c) lt \<and> stored N (ctx_parent c) rt \<and>
     ord (ctx_lo c) (Some k) lt \<and> ord k (ctx_hi c) rt \<and> ctx_lo c < k \<and> below k (ctx_hi c) \<and>
     small lt \<and> small rt \<and> length k \<le> SMALL \<and>
     distinct (pids lt @ pids rt @ ctx_pids c) \<and>
     (\<forall>p\<in>set (pids lt @ pids rt @ ctx_pids c). 0 < p \<and> p < n) \<and>
     linked (ctx_left leaves c @ leaves lt @ leaves rt @ ctx_right leaves c) \<and> r = pid (plug lt c)"

lemma close_hole:
  assumes hole: "hole_ok N n r ((P, ks1, ts1, ks2, ts2) # c) k lt rt"
    and P: "N' P = Internal \<lparr>in_parent = ctx_parent c, in_keys = ks1 @ k # ks2,
              in_children = map pid (ts1 @ lt # rt # ts2)\<rparr>"
    and other: "\<And>q. q \<noteq> P \<Longrightarrow> N' q = N q"
  shows "tree_ok N' n r (plug (Nd P (ks1 @ k # ks2) (ts1 @ lt # rt # ts2)) c)"
proof -
  let ?T = "Nd P (ks1 @ k # ks2) (ts1 @ lt # rt # ts2)"
  note h = hole [unfolded hole_ok_def]
  have wf: "length ts1 = length ks1" "ctx_wf c"
    using h by simp_all
  have dist: "distinct (pids ?T @ ctx_pids c)" "set (pids ?T @ ctx_pids c) =
      set (pids lt @ pids rt @ ctx_pids ((P, ks1, ts1, ks2, ts2) # c))"
    using h by auto
  have P_out: "P \<notin> set (ctx_pids c)" "\<And>t. t \<in> set (ts1 @ lt # rt # ts2) \<Longrightarrow> P \<notin> set (pids t)"
    using dist(1) by auto
  have "stored N' (Some P) t" if "t \<in> set (ts1 @ lt # rt # ts2)" for t
  proof (rule stored_cong)
    show "stored N (Some P) t"
      using h that by auto
    show "N' p = N p" if "p \<in> set (pids t)" for p
      using that P_out(2) [OF \<open>t \<in> set (ts1 @ lt # rt # ts2)\<close>] by (intro other) auto
  qed
  then have st: "stored N' (ctx_parent c) ?T"
    using P by simp
  have "ctx_stored N' P c"
    by (rule ctx_stored_cong [of N], use h in simp) (rule other, use P_out in auto)
  then have stored: "stored N' None (plug ?T c)"
    using st by (simp add: stored_plug)
  have "ords (ctx_lo c) (ctx_hi c) (ks1 @ k # ks2) (ts1 @ lt # rt # ts2)"
    by (rule ords_insert) (use h wf in auto)
  then have "ord [] None (plug ?T c)"
    using h wf(2) by (simp add: ord_plug)
  moreover have "pid (plug ?T c) = r"
    using h by (simp add: pid_plug)
  moreover have "linked (leaves (plug ?T c))"
    using h by (simp add: leaves_plug)
  moreover have "small (plug ?T c)"
    using h by (auto simp: small_plug)
  moreover have "distinct (pids (plug ?T c))"
    using dist(1) by (simp only: distinct_pids_plug)
  moreover have "\<forall>p\<in>set (pids (plug ?T c)). 0 < p \<and> p < n"
    using h dist(2) set_pids_plug [of ?T c] unfolding set_append [symmetric] by blast
  ultimately show ?thesis
    using stored by (simp add: tree_ok_def)
qed


text \<open>
  Splitting the node \<open>P\<close> that received a new child: \<open>N'\<close> has the halves on \<open>P\<close> and the
  fresh page \<open>q\<close>, and the children of the right half point to \<open>q\<close>.
\<close>

lemma split_hole:
  assumes hole: "hole_ok N n r ((P, ks1, ts1, ks2, ts2) # c) k lt rt"
    and K: "ks1 @ k # ks2 = K1 @ m # K2" and C: "ts1 @ lt # rt # ts2 = C1 @ C2" "length C1 = Suc (length K1)"
    and P: "N' P = Internal \<lparr>in_parent = ctx_parent c, in_keys = K1, in_children = map pid C1\<rparr>"
    and q: "N' q = Internal \<lparr>in_parent = ctx_parent c, in_keys = K2, in_children = map pid C2\<rparr>"
      "n \<le> q" "q < n'"
    and kids: "\<And>t. t \<in> set C2 \<Longrightarrow> stored N' (Some q) t"
    and other: "\<And>x. x \<notin> {P, q} \<union> pid ` set C2 \<Longrightarrow> N' x = N x"
  shows "hole_ok N' n' r c m (Nd P K1 C1) (Nd q K2 C2)"
    "ctx_left recs c @ recs (Nd P K1 C1) @ recs (Nd q K2 C2) @ ctx_right recs c =
     ctx_left recs ((P, ks1, ts1, ks2, ts2) # c) @ recs lt @ recs rt @ ctx_right recs ((P, ks1, ts1, ks2, ts2) # c)"
proof -
  let ?c = "(P, ks1, ts1, ks2, ts2) # c"
  note h = hole [unfolded hole_ok_def]
  have cat: "concat (map f ts1) @ f lt @ f rt @ concat (map f ts2) = concat (map f C1) @ concat (map f C2)"
    for f :: "tree \<Rightarrow> 'a list"
    using arg_cong [OF C(1), of "\<lambda>ts. concat (map f ts)"] by simp
  show "ctx_left recs c @ recs (Nd P K1 C1) @ recs (Nd q K2 C2) @ ctx_right recs c =
     ctx_left recs ?c @ recs lt @ recs rt @ ctx_right recs ?c"
    using cat [of recs] by simp
  have wf: "length ts1 = length ks1" "ctx_wf c"
    using h by simp_all
  have dist: "distinct (P # concat (map pids C1) @ concat (map pids C2) @ ctx_pids c)"
  proof -
    have "distinct (P # (concat (map pids ts1) @ pids lt @ pids rt @ concat (map pids ts2)) @ ctx_pids c)"
      using h by auto
    then show ?thesis
      unfolding cat by simp
  qed
  have pages: "set (P # concat (map pids C1) @ concat (map pids C2) @ ctx_pids c) =
      set (pids lt @ pids rt @ ctx_pids ?c)"
  proof -
    have "set (P # (concat (map pids ts1) @ pids lt @ pids rt @ concat (map pids ts2)) @ ctx_pids c) =
        set (pids lt @ pids rt @ ctx_pids ?c)"
      by auto
    then show ?thesis
      unfolding cat by simp
  qed
  have rng: "0 < p \<and> p < n" if "p \<in> set (P # concat (map pids C1) @ concat (map pids C2) @ ctx_pids c)" for p
    using that h unfolding pages by blast
  have q_new: "q \<notin> set (P # concat (map pids C1) @ concat (map pids C2) @ ctx_pids c)"
    using rng [of q] q(2) leD by blast
  have roots: "pid ` set C2 \<subseteq> set (concat (map pids C2))"
    by (auto intro: pid_in_pids)
  have sep: "set (concat (map pids C1) @ ctx_pids c) \<inter> set (concat (map pids C2)) = {}"
    using dist by auto
  have same: "N' x = N x" if "x \<in> set (concat (map pids C1) @ ctx_pids c)" for x
  proof (rule other)
    have "x \<notin> pid ` set C2"
      using that sep roots by blast
    moreover have "x \<noteq> P" "x \<noteq> q"
      using that dist q_new by auto
    ultimately show "x \<notin> {P, q} \<union> pid ` set C2"
      by blast
  qed
  have "stored N' (Some P) t" if "t \<in> set C1" for t
  proof (rule stored_cong [of N])
    have "t \<in> set (ts1 @ lt # rt # ts2)"
      using that C(1) by simp
    then show "stored N (Some P) t"
      using h by auto
    show "N' p = N p" if "p \<in> set (pids t)" for p
      by (rule same) (use that \<open>t \<in> set C1\<close> in auto)
  qed
  then have stored: "stored N' (ctx_parent c) (Nd P K1 C1)" "stored N' (ctx_parent c) (Nd q K2 C2)"
    using P q(1) kids by simp_all
  have ctx: "ctx_stored N' P c"
    by (rule ctx_stored_cong [of N], use h in simp) (rule same, simp)
  have "ords (ctx_lo c) (ctx_hi c) (ks1 @ k # ks2) (ts1 @ lt # rt # ts2)"
    by (rule ords_insert) (use h wf in auto)
  then have "ords (ctx_lo c) (ctx_hi c) (K1 @ m # K2) (C1 @ C2)"
    unfolding K C(1) .
  from ords_cut [OF this C(2)]
  have ord: "ords (ctx_lo c) (Some m) K1 C1" "ords m (ctx_hi c) K2 C2" "ctx_lo c < m" "below m (ctx_hi c)"
    by auto
  have "\<forall>x\<in>set (ks1 @ k # ks2). length x \<le> SMALL" "\<forall>t\<in>set (ts1 @ lt # rt # ts2). small t"
    using h by auto
  then have small: "\<forall>x\<in>set (K1 @ m # K2). length x \<le> SMALL" "\<forall>t\<in>set (C1 @ C2). small t"
    unfolding K C(1) by auto
  have "linked (ctx_left leaves c @ (concat (map leaves ts1) @ leaves lt @ leaves rt @ concat (map leaves ts2)) @
      ctx_right leaves c)"
    using h by simp
  then have "linked (ctx_left leaves c @ leaves (Nd P K1 C1) @ leaves (Nd q K2 C2) @ ctx_right leaves c)"
    unfolding cat by simp
  moreover have "r = pid (plug (Nd P K1 C1) c)"
    using h by (simp add: pid_plug)
  moreover have "distinct (pids (Nd P K1 C1) @ pids (Nd q K2 C2) @ ctx_pids c)"
    using dist q_new by auto
  moreover have "\<forall>p\<in>set (pids (Nd P K1 C1) @ pids (Nd q K2 C2) @ ctx_pids c). 0 < p \<and> p < n'"
  proof -
    have "0 < p \<and> p < n'" if "p \<in> set (P # concat (map pids C1) @ concat (map pids C2) @ ctx_pids c)" for p
      using rng [OF that] q(2,3) by auto
    moreover have "0 < q"
      using rng [of P] q(2) by (auto simp: word_gt_0)
    ultimately show ?thesis
      using q(3) by auto
  qed
  ultimately show "hole_ok N' n' r c m (Nd P K1 C1) (Nd q K2 C2)"
    unfolding hole_ok_def using h wf(2) stored ctx ord small by simp
qed

lemma hole_grown:
  assumes "hole_ok N n r [] k lt rt" "stored N' None (Nd R [k] [lt, rt])" "n \<le> R" "R < n'"
  shows "tree_ok N' n' R (Nd R [k] [lt, rt])"
proof -
  note h = assms(1) [unfolded hole_ok_def]
  have rng: "0 < p \<and> p < n" if "p \<in> set (pids lt @ pids rt)" for p
    using h that by simp
  have "R \<notin> set (pids lt @ pids rt)"
    using assms(3) rng [of R] leD by blast
  moreover have "0 < pid lt" "pid lt < n"
    using rng [of "pid lt"] by simp_all
  then have "0 < R"
    using assms(3) by simp
  moreover have "0 < p \<and> p < n'" if "p \<in> set (pids lt @ pids rt)" for p
    using rng [OF that] assms(3,4) by auto
  ultimately show ?thesis
    using h assms(2,4) by (auto simp: tree_ok_def)
qed

section \<open>Changing a leaf\<close>

text \<open>Records that fit the interval of the context they are in.\<close>

definition recs_ok :: "ctx \<Rightarrow> (key \<times> bytes) list \<Rightarrow> bool" where
  "recs_ok c rs \<longleftrightarrow> sorted_wrt (<) (map fst rs) \<and> (\<forall>k\<in>fst ` set rs. ctx_lo c \<le> k \<and> below k (ctx_hi c)) \<and>
     (\<forall>(k, v)\<in>set rs. length k + length v \<le> SMALL)"

lemma tree_ok_leaf:
  assumes "tree_ok N n r (plug (Lf p nx rs) c)" "ctx_wf c"
  shows "recs_ok c rs" "N p = Leaf \<lparr>lf_parent = ctx_parent c, lf_next = nx, lf_records = rs\<rparr>"
    "0 < p" "p < n" "p \<notin> set (ctx_pids c)"
  using assms
  by (auto simp: tree_ok_def recs_ok_def stored_plug ord_plug small_plug set_pids_plug distinct_pids_plug)

lemma leaf_update:
  assumes T: "tree_ok N n r (plug (Lf p nx rs) c)" "ctx_wf c" and rs': "recs_ok c rs'"
    and N': "N' p = Leaf \<lparr>lf_parent = ctx_parent c, lf_next = nx, lf_records = rs'\<rparr>"
      "\<And>q. q \<noteq> p \<Longrightarrow> N' q = N q"
  shows "tree_ok N' n r (plug (Lf p nx rs') c)"
proof -
  have "ctx_stored N' p c"
    by (rule ctx_stored_cong [of N])
      (use T tree_ok_leaf(5) [OF T] in \<open>auto simp: tree_ok_def stored_plug intro: N'(2)\<close>)
  then show ?thesis
    using T rs' N'(1)
    by (auto simp: tree_ok_def recs_ok_def stored_plug ord_plug small_plug set_pids_plug
        distinct_pids_plug leaves_plug pid_plug)
qed

lemma linked_insert: "linked (xs @ (p, nx) # ys) \<Longrightarrow> linked (xs @ (p, Some q) # (q, nx) # ys)"
proof (induction xs rule: linked.induct)
  case 1
  then show ?case by (cases ys) auto
next
  case (2 a na)
  then show ?case by (cases ys) auto
next
  case (3 a na b nb ls)
  then show ?case by simp
qed

lemma leaf_hole:
  assumes T: "tree_ok N n r (plug (Lf p nx rs) c)" "ctx_wf c" and rs': "recs_ok c (rl @ (k, v) # rr)" "rl \<noteq> []"
    and N': "N' p = Leaf \<lparr>lf_parent = ctx_parent c, lf_next = Some q, lf_records = rl\<rparr>"
      "N' q = Leaf \<lparr>lf_parent = ctx_parent c, lf_next = nx, lf_records = (k, v) # rr\<rparr>"
      "\<And>x. x \<noteq> p \<Longrightarrow> x \<noteq> q \<Longrightarrow> N' x = N x"
    and q: "n \<le> q" "q < n'"
  shows "hole_ok N' n' r c k (Lf p (Some q) rl) (Lf q nx ((k, v) # rr))"
proof -
  note leaf = tree_ok_leaf [OF T]
  note t = T(1) [unfolded tree_ok_def]
  have rng: "0 < x \<and> x < n" if "x \<in> set (p # ctx_pids c)" for x
    using t that by (auto simp: set_pids_plug)
  have q_new: "q \<notin> set (p # ctx_pids c)"
    using rng [of q] q(1) leD by blast
  have ctx: "ctx_stored N' p c"
    by (rule ctx_stored_cong [of N])
      (use t leaf(5) q_new in \<open>auto simp: stored_plug intro!: N'(3)\<close>)
  have below_k: "x < k" if "x \<in> fst ` set rl" for x
    using rs'(1) that by (auto simp: recs_ok_def sorted_wrt_append)
  then have lo: "ctx_lo c < k"
    using rs' by (cases rl) (auto simp: recs_ok_def intro: le_less_trans)
  have ord: "ord (ctx_lo c) (Some k) (Lf p (Some q) rl)" "ord k (ctx_hi c) (Lf q nx ((k, v) # rr))"
    "below k (ctx_hi c)"
    using rs'(1) below_k by (auto simp: recs_ok_def sorted_wrt_append)
  have size: "small (Lf p (Some q) rl)" "small (Lf q nx ((k, v) # rr))" "length k \<le> SMALL"
    using rs'(1) by (auto simp: recs_ok_def)
  have "0 < x \<and> x < n'" if "x \<in> set (p # ctx_pids c)" for x
    using rng [OF that] q by auto
  moreover have "0 < q"
    using leaf(3,4) q(1) by simp
  moreover have "linked (ctx_left leaves c @ (p, Some q) # (q, nx) # ctx_right leaves c)"
    using t by (intro linked_insert) (simp add: leaves_plug)
  ultimately show ?thesis
    unfolding hole_ok_def
    using t T(2) ctx N'(1,2) ord lo size q(2) q_new leaf(5)
    by (auto simp: stored_plug ord_plug small_plug distinct_pids_plug pid_plug)
qed

lemma length_distinct_below:
  assumes "distinct ps" "\<forall>p\<in>set ps. p < (n :: 'a::len word)"
  shows "length ps \<le> unat n"
proof -
  have "length ps = card (unat ` set ps)"
    using distinct_card [OF assms(1)] card_image [of unat "set ps"] by (simp add: inj_on_def word_unat_eq_iff)
  also have "\<dots> \<le> card {..<unat n}"
    using assms(2) by (intro card_mono) (auto simp: word_less_nat_alt)
  finally show ?thesis by simp
qed

lemma length_ctx: "length c \<le> length (ctx_pids c)"
  by (induction c rule: ctx_pids.induct) auto

lemma tree_ok_size:
  assumes "tree_ok N n r T"
  shows "length (pids T) \<le> unat n"
  using assms by (intro length_distinct_below) (auto simp: tree_ok_def)

lemma ctx_size: "tree_ok N n r (plug t c) \<Longrightarrow> length c < unat n"
proof -
  assume ok: "tree_ok N n r (plug t c)"
  have "length (pids (plug t c)) = length (pids t @ ctx_pids c)"
    using mset_eq_length [OF mset_pids_plug] .
  moreover have "0 < length (pids t)"
    by (cases t) auto
  ultimately show ?thesis
    using tree_ok_size [OF ok] length_ctx [of c] by (simp only: length_append)
qed

section \<open>Sorted association lists\<close>

text \<open>What the tree is as a map: its records in key order.\<close>

fun ins_entry :: "key \<Rightarrow> 'v \<Rightarrow> (key \<times> 'v) list \<Rightarrow> (key \<times> 'v) list" where
  "ins_entry k v [] = [(k, v)]"
| "ins_entry k v ((k', v') # es) =
     (if k < k' then (k, v) # (k', v') # es
      else if k = k' then (k, v) # es
      else (k', v') # ins_entry k v es)"

definition del_entry :: "key \<Rightarrow> (key \<times> 'v) list \<Rightarrow> (key \<times> 'v) list" where
  "del_entry k es = filter (\<lambda>e. fst e \<noteq> k) es"

abbreviation sorted_keys :: "(key \<times> 'v) list \<Rightarrow> bool" where
  "sorted_keys es \<equiv> sorted_wrt (<) (map fst es)"

lemma set_keys_ins_entry [simp]: "fst ` set (ins_entry k v es) = insert k (fst ` set es)"
proof (induction es)
  case Nil
  then show ?case by simp
next
  case (Cons e es)
  then show ?case by (cases e) auto
qed

lemma sorted_ins_entry: "sorted_keys es \<Longrightarrow> sorted_keys (ins_entry k v es)"
proof (induction es)
  case Nil
  then show ?case by simp
next
  case (Cons e es)
  obtain k' v' where e: "e = (k', v')"
    by (cases e)
  have "x > k'" if "x \<in> fst ` set (ins_entry k v es)" "k' < k" for x
    using that Cons.prems by (auto simp: e)
  then show ?case
    using Cons by (fastforce simp: e)
qed

lemma map_of_ins_entry: "sorted_keys es \<Longrightarrow> map_of (ins_entry k v es) = (map_of es)(k \<mapsto> v)"
proof (induction es)
  case Nil
  then show ?case by simp
next
  case (Cons e es)
  then show ?case
    by (cases e) (auto simp: fun_eq_iff)
qed

lemma map_of_del_entry: "map_of (del_entry k es) = (map_of es)(k := None)"
  by (induction es) (auto simp: del_entry_def fun_eq_iff)

lemma sorted_del_entry: "sorted_keys es \<Longrightarrow> sorted_keys (del_entry k es)"
  unfolding del_entry_def by (induction es) auto

lemma ins_entry_append:
  assumes "\<forall>x\<in>fst ` set as. x < k" "\<forall>x\<in>fst ` set bs. k < x"
  shows "ins_entry k v (as @ es @ bs) = as @ ins_entry k v es @ bs"
proof -
  have right: "ins_entry k v (es @ bs) = ins_entry k v es @ bs"
  proof (induction es)
    case Nil
    then show ?case using assms(2) by (cases bs) auto
  next
    case (Cons e es)
    then show ?case by (cases e) auto
  qed
  show ?thesis
    using assms(1)
  proof (induction as)
    case Nil
    then show ?case using right by simp
  next
    case (Cons a as)
    then show ?case by (cases a) auto
  qed
qed

lemma del_entry_append:
  assumes "\<forall>x\<in>fst ` set as. x < k" "\<forall>x\<in>fst ` set bs. k < x"
  shows "del_entry k (as @ es @ bs) = as @ del_entry k es @ bs"
proof -
  have "filter (\<lambda>e. fst e \<noteq> k) as = as" "filter (\<lambda>e. fst e \<noteq> k) bs = bs"
    using assms by (auto intro!: filter_True)
  then show ?thesis
    by (simp add: del_entry_def)
qed

lemma map_of_append_sorted:
  assumes "\<forall>x\<in>fst ` set as. x < (k :: key)" "\<forall>x\<in>fst ` set bs. k < x"
  shows "map_of (as @ es @ bs) k = map_of es k"
proof -
  have "map_of as k = None" "map_of bs k = None"
    using assms by (metis map_of_eq_None_iff less_irrefl)+
  then show ?thesis
    by (simp add: map_add_def split: option.splits)
qed

section \<open>The records of an ordered tree\<close>

lemma ord_recs:
  "ord lo hi T \<Longrightarrow> sorted_keys (recs T) \<and> (\<forall>k\<in>fst ` set (recs T). lo \<le> k \<and> below k hi)"
  "ords lo hi ks ts \<Longrightarrow> sorted_keys (concat (map recs ts)) \<and>
     (\<forall>k\<in>fst ` set (concat (map recs ts)). lo \<le> k \<and> below k hi)"
proof (induction lo hi T and lo hi ks ts rule: ord_ords.induct)
  case (4 lo hi k ks t ts)
  have "sorted_keys (recs t)" "sorted_keys (concat (map recs ts))"
    and l: "\<And>x. x \<in> fst ` set (recs t) \<Longrightarrow> lo \<le> x \<and> x < k"
    and r: "\<And>x. x \<in> fst ` set (concat (map recs ts)) \<Longrightarrow> k \<le> x \<and> below x hi"
    using 4 by auto
  moreover have "x < y" if "x \<in> fst ` set (recs t)" "y \<in> fst ` set (concat (map recs ts))" for x y
    using l [OF that(1)] r [OF that(2)] by (blast intro: less_le_trans)
  moreover have "lo \<le> x \<and> below x hi" if "x \<in> fst ` set (recs t)" for x
    using l [OF that] 4(3) below_less [of x k hi] by auto
  moreover have "lo \<le> x \<and> below x hi" if "x \<in> fst ` set (concat (map recs ts))" for x
    using r [OF that] 4(3) by (auto intro: order_trans)
  ultimately show ?case
    by (simp add: sorted_wrt_append image_Un ball_Un)
qed auto

lemma ords_left_last: "ords_left lo hi ks ts \<Longrightarrow> lo \<le> last (lo # ks)"
proof (induction lo hi ks ts rule: ords_left.induct)
  case (2 lo hi k ks t ts)
  then have "lo < k" "k \<le> last (k # ks)"
    by auto
  then show ?case
    by (simp split: if_splits)
qed auto

lemma ords_left_recs:
  "ords_left lo hi ks ts \<Longrightarrow> k \<in> fst ` set (concat (map recs ts)) \<Longrightarrow> k < last (lo # ks)"
proof (induction lo hi ks ts rule: ords_left.induct)
  case (2 lo hi k' ks t ts)
  have prems: "ord lo (Some k') t" "ords_left k' hi ks ts"
    using 2(2) by auto
  have "k < last (k' # ks)"
  proof (cases "k \<in> fst ` set (recs t)")
    case True
    then have "k < k'"
      using ord_recs(1) [OF prems(1)] by auto
    then show ?thesis
      using ords_left_last [OF prems(2)] by simp
  next
    case False
    then show ?thesis
      using 2(1) [OF prems(2)] 2(3) by (auto simp: image_Un)
  qed
  then show ?case
    by simp
qed auto

lemma ctx_left_recs: "ctx_ord c \<Longrightarrow> k \<in> fst ` set (ctx_left recs c) \<Longrightarrow> k < ctx_lo c"
proof (induction c)
  case Nil
  then show ?case by simp
next
  case (Cons f c)
  obtain p ks1 ts1 ks2 ts2 where f: "f = (p, ks1, ts1, ks2, ts2)"
    by (cases f)
  have left: "ords_left (ctx_lo c) (ctx_hi c) ks1 ts1" "ctx_ord c"
    using Cons.prems(1) f by auto
  consider "k \<in> fst ` set (ctx_left recs c)" | "k \<in> fst ` set (concat (map recs ts1))"
    using Cons.prems(2) by (auto simp: f image_Un)
  then show ?case
  proof cases
    case 1
    then show ?thesis
      using less_le_trans [OF Cons.IH ords_left_last [OF left(1)]] left(2) by (simp add: f)
  next
    case 2
    then show ?thesis
      using ords_left_recs [OF left(1)] by (simp add: f)
  qed
qed

lemma ctx_right_recs: "ctx_ord c \<Longrightarrow> k \<in> fst ` set (ctx_right recs c) \<Longrightarrow> \<exists>h. ctx_hi c = Some h \<and> h \<le> k"
proof (induction c)
  case Nil
  then show ?case by simp
next
  case (Cons f c)
  obtain p ks1 ts1 ks2 ts2 where f: "f = (p, ks1, ts1, ks2, ts2)"
    by (cases f)
  have right: "ords_right (last (ctx_lo c # ks1)) (ctx_hi c) ks2 ts2" "ctx_ord c"
    using Cons.prems(1) f by auto
  show ?case
  proof (cases ks2)
    case Nil
    then show ?thesis
      using Cons right by (simp add: f)
  next
    case (Cons k' ks)
    have o: "ords k' (ctx_hi c) ks ts2" "below k' (ctx_hi c)"
      using right(1) Cons by auto
    consider "k \<in> fst ` set (ctx_right recs c)" | "k \<in> fst ` set (concat (map recs ts2))"
      using Cons.prems(2) by (auto simp: f image_Un)
    then have "k' \<le> k"
    proof cases
      case 1
      then obtain h where "ctx_hi c = Some h" "h \<le> k"
        using Cons.IH right(2) by blast
      then show ?thesis
        using o(2) by (simp add: less_imp_le order.strict_trans2)
    next
      case 2
      then show ?thesis
        using ord_recs(2) [OF o(1)] by blast
    qed
    then show ?thesis
      by (simp add: f Cons)
  qed
qed

text \<open>A key of the hole's interval is to the right of the records before the hole and to the left of those after it.\<close>

lemma ctx_separates:
  assumes "ctx_ord c" "ctx_lo c \<le> k" "below k (ctx_hi c)"
  shows "\<forall>x\<in>fst ` set (ctx_left recs c). x < k" "\<forall>x\<in>fst ` set (ctx_right recs c). k < x"
proof -
  show "\<forall>x\<in>fst ` set (ctx_left recs c). x < k"
  proof
    fix x assume "x \<in> fst ` set (ctx_left recs c)"
    from ctx_left_recs [OF assms(1) this] show "x < k"
      using assms(2) by simp
  qed
  show "\<forall>x\<in>fst ` set (ctx_right recs c). k < x"
  proof
    fix x assume "x \<in> fst ` set (ctx_right recs c)"
    then obtain h where "ctx_hi c = Some h" "h \<le> x"
      using ctx_right_recs [OF assms(1)] by blast
    then show "k < x"
      using assms(3) by (simp add: order.strict_trans2)
  qed
qed

section \<open>Balance\<close>

text \<open>All leaves at the same depth; in a context, for a subtree of height \<open>h\<close> in the hole.\<close>

fun balanced :: "nat \<Rightarrow> tree \<Rightarrow> bool" where
  "balanced h (Lf p nx rs) \<longleftrightarrow> h = 0"
| "balanced h (Nd p ks ts) \<longleftrightarrow> 0 < h \<and> (\<forall>t\<in>set ts. balanced (h - 1) t)"

fun ctx_balanced :: "nat \<Rightarrow> ctx \<Rightarrow> bool" where
  "ctx_balanced h [] \<longleftrightarrow> True"
| "ctx_balanced h ((p, ks1, ts1, ks2, ts2) # c) \<longleftrightarrow>
     (\<forall>t\<in>set (ts1 @ ts2). balanced h t) \<and> ctx_balanced (Suc h) c"

lemma balanced_plug: "balanced (h + length c) (plug t c) \<longleftrightarrow> balanced h t \<and> ctx_balanced h c"
proof (induction t c arbitrary: h rule: plug.induct)
  case (1 t)
  then show ?case by simp
next
  case (2 t p ks1 ts1 ks2 ts2 c)
  then show ?case
    using 2 [of "Suc h"] by auto
qed

lemma balanced_leaf_depth: "balanced h (plug t c) \<Longrightarrow> length c \<le> h"
proof (induction t c arbitrary: h rule: plug.induct)
  case (1 t)
  then show ?case by simp
next
  case (2 t p ks1 ts1 ks2 ts2 c)
  have bal: "balanced h (plug (Nd p (ks1 @ ks2) (ts1 @ t # ts2)) c)"
    using 2(2) by simp
  obtain g where h: "h = g + length c"
    using 2(1) [OF bal] by (metis add.commute le_iff_add)
  have "balanced g (Nd p (ks1 @ ks2) (ts1 @ t # ts2))"
    using bal unfolding h balanced_plug by (rule conjunct1)
  then show ?case
    using h by simp
qed

end
