(* ===== verification/BTreeMap.thy ===== *)
theory BTreeMap
  imports BTree Trees
begin

text \<open>
  The B+ tree as a sorted map. While no page is freed (the pool is \<open>steady\<close>), the tree
  operations keep a well-formed tree on the pages: \<open>find_leaf_for_insert\<close> reaches the leaf
  whose interval holds the key, \<open>insert\<close> with its splits yields the tree with the record
  added, and \<open>search\<close> and \<open>scan_prefix\<close> read it back.
\<close>

section \<open>The pages of a tree in memory\<close>

abbreviation bt_size :: "'c btree \<Rightarrow> page_id" where
  "bt_size t \<equiv> num_pages (pager (buffer_pool t))"

definition bt_view :: "'c cache_ops \<Rightarrow> 'c btree \<Rightarrow> page_id \<Rightarrow> page" where
  "bt_view L t = pool_view L (buffer_pool t)"

definition bt_nodes :: "'c cache_ops \<Rightarrow> 'c btree \<Rightarrow> page_id \<Rightarrow> node" where
  "bt_nodes L t p = from_page (bt_view L t p)"

definition bt_steady :: "'c cache_ops \<Rightarrow> ('c \<Rightarrow> bool) \<Rightarrow> u64 \<Rightarrow> 'c btree \<Rightarrow> bool" where
  "bt_steady L ok lsn t \<longleftrightarrow> pool_steady L ok lsn (buffer_pool t)"

lemma runs_on_pool [simp]:
  "runs (on_pool m) t Q = runs m (buffer_pool t) (\<lambda>x p. Q x (t\<lparr>buffer_pool := p\<rparr>))"
  by (auto simp: runs_def on_pool_def split: prod.splits)

context tree_pool
begin

abbreviation "steady \<equiv> bt_steady L ok lsn"
abbreviation "bview \<equiv> bt_view L"
abbreviation "nodes \<equiv> bt_nodes L"

text \<open>Steps that read, and steps that write the pages \<open>X\<close>.\<close>

definition still :: "'c btree \<Rightarrow> 'c btree \<Rightarrow> bool" where
  "still t t' \<longleftrightarrow> steady t' \<and> bview t' = bview t \<and> bt_size t' = bt_size t \<and> root_page_id t' = root_page_id t"

definition wrote :: "page_id set \<Rightarrow> 'c btree \<Rightarrow> 'c btree \<Rightarrow> bool" where
  "wrote X t t' \<longleftrightarrow> steady t' \<and> (\<forall>q. q \<notin> X \<longrightarrow> bview t' q = bview t q) \<and>
     bt_size t' = bt_size t \<and> root_page_id t' = root_page_id t"

lemma still_refl: "steady t \<Longrightarrow> still t t"
  by (simp add: still_def)

lemma still_trans: "still s t \<Longrightarrow> still t u \<Longrightarrow> still s u"
  by (simp add: still_def)

lemma still_nodes: "still t t' \<Longrightarrow> nodes t' = nodes t"
  by (simp add: still_def bt_nodes_def fun_eq_iff)

lemma wrote_trans: "wrote X s t \<Longrightarrow> wrote Y t u \<Longrightarrow> wrote (X \<union> Y) s u"
  unfolding wrote_def by (metis UnCI)

lemma wrote_mono: "wrote X s t \<Longrightarrow> X \<subseteq> Y \<Longrightarrow> wrote Y s t"
  by (auto simp: wrote_def)

lemma still_wrote: "still s t \<Longrightarrow> wrote X s t"
  by (simp add: still_def wrote_def)

lemma bview_nodes: "bview t' q = bview t q \<Longrightarrow> nodes t' q = nodes t q"
  by (simp add: bt_nodes_def)

lemma wrote_nodes: "wrote X t t' \<Longrightarrow> q \<notin> X \<Longrightarrow> nodes t' q = nodes t q"
  by (rule bview_nodes) (simp add: wrote_def)

lemma wroteD: "wrote X t t' \<Longrightarrow> steady t' \<and> bt_size t' = bt_size t \<and> root_page_id t' = root_page_id t"
  by (simp add: wrote_def)

lemma pool_read_spec:
  assumes "steady t"
  shows "runs (on_pool (pool_read L p)) t (\<lambda>pg t'. pg = bview t p \<and> still t t')"
proof -
  have st: "pool_steady L ok lsn (buffer_pool t)"
    using assms by (simp add: bt_steady_def)
  show ?thesis
    by (simp, rule runs_mono [OF pool_store.fetch_law [OF st]])
      (auto simp: still_def bt_steady_def bt_view_def)
qed

lemma read_node_spec:
  assumes "steady t"
  shows "runs (read_node L p) t (\<lambda>n t'. n = nodes t p \<and> still t t')"
  unfolding read_node_def runs_bind_eq
  by (rule runs_mono [OF pool_read_spec [OF assms]]) (simp add: bt_nodes_def)

lemma pool_write_spec:
  assumes "steady t" "p < bt_size t" "length pg = PAGE_SIZE" "p = 0 \<longrightarrow> meta_steady lsn pg"
  shows "runs (on_pool (pool_write_page L p pg)) t (\<lambda>_ t'. wrote {p} t t' \<and> bview t' p = pg)"
proof -
  have st: "pool_steady L ok lsn (buffer_pool t)"
    using assms by (simp add: bt_steady_def)
  show ?thesis
    by (simp, rule runs_mono [OF pool_store.store_law [OF st assms(2,3,4)]])
      (auto simp: wrote_def bt_steady_def bt_view_def)
qed

lemma write_node_spec:
  assumes "steady t" "0 < p" "p < bt_size t" "node_ok n" "encoded_size n \<le> PAGE_SIZE"
  shows "runs (write_node L p n) t (\<lambda>_ t'. wrote {p} t t' \<and> nodes t' p = n)"
proof -
  obtain pg where pg: "to_page n = Inr pg" "length pg = PAGE_SIZE" "from_page pg = n"
    using to_page_eq [OF assms(5)] from_page_encoded [OF assms(4,5)] assms(5)
    by (simp add: length_node_fields)
  have "runs (on_pool (pool_write_page L p pg)) t (\<lambda>_ t'. wrote {p} t t' \<and> nodes t' p = n)"
    by (rule runs_mono [OF pool_write_spec [OF assms(1,3) pg(2)]])
      (use assms(2) pg(3) in \<open>auto simp: bt_nodes_def\<close>)
  then show ?thesis
    unfolding write_node_def runs_bind_eq by (simp add: pg(1))
qed

lemma alloc_spec:
  assumes "steady t" "bt_size t \<noteq> U32_MAX"
  shows "runs (on_pool pool_allocate_page) t (\<lambda>p t'. p = bt_size t \<and> steady t' \<and> bview t' = bview t \<and>
    bt_size t' = bt_size t + 1 \<and> root_page_id t' = root_page_id t)"
proof -
  have st: "pool_steady L ok lsn (buffer_pool t)"
    using assms by (simp add: bt_steady_def)
  show ?thesis
    by (simp, rule runs_mono [OF pool_store.extend_law [OF st assms(2)]])
      (auto simp: bt_steady_def bt_view_def)
qed

lemma steadyD:
  assumes "steady t"
  shows "length (bview t p) = PAGE_SIZE" "meta_steady lsn (bview t 0)" "0 < bt_size t"
  using pool_store.view_length pool_store.meta_law pool_store.size_pos assms
  by (simp_all add: bt_steady_def bt_view_def)

lemma persist_root_spec:
  assumes "steady t"
  shows "runs (persist_root_page_id L r) t (\<lambda>_ t'. wrote {0} t t' \<and> meta_root (bview t' 0) = r)"
  unfolding persist_root_page_id_def runs_bind_eq
proof (rule runs_mono [OF pool_read_spec [OF assms]])
  fix pg t1
  assume a: "pg = bview t 0 \<and> still t t1"
  have pg: "length pg = PAGE_SIZE" "meta_steady lsn pg"
    using steadyD [OF assms] a by auto
  have "runs (on_pool (pool_write_page L 0 (patch 4 (u32_to_le r) pg))) t1
      (\<lambda>_ t'. wrote {0} t1 t' \<and> bview t' 0 = patch 4 (u32_to_le r) pg)"
    using a pg steadyD [of t1]
    by (intro pool_write_spec) (auto simp: still_def meta_steady_def)
  then show "runs (on_pool (pool_write_page L 0 (patch 4 (u32_to_le r) pg))) t1
      (\<lambda>_ t'. wrote {0} t t' \<and> meta_root (bview t' 0) = r)"
    by (rule runs_mono) (use a pg in \<open>auto simp: wrote_def still_def\<close>)
qed

section \<open>Descending to a leaf\<close>

lemma child_index_split:
  "ks = take (child_index key ks) ks @ drop (child_index key ks) ks"
  "child_index key ks \<le> length ks"
  "\<forall>k\<in>set (take (child_index key ks) ks). k \<le> key"
  by (induction ks) (auto simp: not_less)

lemma child_index_next: "drop (child_index key ks) ks = k # ks' \<Longrightarrow> key < k"
  by (induction ks) (auto split: if_splits)

lemma find_leaf_spec:
  assumes "steady t" "stored (nodes t) (ctx_parent c) T" "ctx_wf c" "ord (ctx_lo c) (ctx_hi c) T"
    "ctx_lo c \<le> key" "below key (ctx_hi c)" "length (pids T) \<le> Suc n"
  shows "runs (find_leaf_for_insert L n (pid T) (nodes t (pid T)) key) t (\<lambda>(lp, leaf) t'. still t t' \<and>
    (\<exists>c' nx rs. plug T c = plug (Lf lp nx rs) c' \<and> ctx_wf c' \<and> ctx_lo c' \<le> key \<and> below key (ctx_hi c') \<and>
       leaf = \<lparr>lf_parent = ctx_parent c', lf_next = nx, lf_records = rs\<rparr>))"
  using assms
proof (induction T arbitrary: c n t)
  case (Lf p nx rs)
  then show ?case
    by (auto simp: still_refl intro!: exI [of _ c])
next
  case (Nd p ks ts)
  define i where "i = child_index key ks"
  have len: "length ts = Suc (length ks)"
    using Nd.prems(4) ords_length by simp
  have i: "i < length ts"
    using child_index_split(2) [of key ks] len by (simp add: i_def)
  define ks1 ks2 ts1 ts2 where "ks1 = take i ks" "ks2 = drop i ks" "ts1 = take i ts" "ts2 = drop (Suc i) ts"
  note defs = this
  let ?c = "(p, ks1, ts1, ks2, ts2) # c"
  have split: "ks = ks1 @ ks2" "ts = ts1 @ ts ! i # ts2" and wf: "length ts1 = length ks1" "length ts2 = length ks2"
    using i len by (simp_all add: defs id_take_nth_drop [symmetric])
  have "ords (ctx_lo c) (ctx_hi c) (ks1 @ ks2) (ts1 @ ts ! i # ts2)"
    using Nd.prems(4) split by simp
  then have ord: "ord (ctx_lo ?c) (ctx_hi ?c) (ts ! i)"
    using ords_split [OF wf(1)] by simp
  have lo: "ctx_lo ?c \<le> key"
    using Nd.prems(5) child_index_split(3) [of key ks] by (auto simp: defs i_def)
  have hi: "below key (ctx_hi ?c)"
    using Nd.prems(6) child_index_next [of key ks] by (auto simp: defs i_def split: list.splits)
  have mem: "ts ! i \<in> set ts"
    using i by simp
  have st: "stored (nodes t) (ctx_parent ?c) (ts ! i)"
    and node: "nodes t p = Internal \<lparr>in_parent = ctx_parent c, in_keys = ks, in_children = map pid ts\<rparr>"
    using Nd.prems(2) mem by simp_all
  have "length (pids (ts ! i)) \<le> length (concat (map pids ts))"
    using member_le_sum_list [of "length (pids (ts ! i))" "map (\<lambda>t. length (pids t)) ts"] mem
    by (simp add: length_concat comp_def)
  moreover have "0 < length (pids (ts ! i))"
    by (cases "ts ! i") auto
  moreover have "length (concat (map pids ts)) \<le> n"
    using Nd.prems(7) by simp
  ultimately have "0 < n" "length (pids (ts ! i)) \<le> n"
    by linarith+
  then obtain m where n: "n = Suc m" "length (pids (ts ! i)) \<le> Suc m"
    by (cases n) auto
  have plug: "plug (Nd p ks ts) c = plug (ts ! i) ?c"
    using split by simp
  have "runs (read_node L (pid (ts ! i))) t (\<lambda>child t'.
      runs (find_leaf_for_insert L m (pid (ts ! i)) child key) t' (\<lambda>(lp, leaf) t'. still t t' \<and>
    (\<exists>c' nx rs. plug (Nd p ks ts) c = plug (Lf lp nx rs) c' \<and> ctx_wf c' \<and> ctx_lo c' \<le> key \<and> below key (ctx_hi c') \<and>
       leaf = \<lparr>lf_parent = ctx_parent c', lf_next = nx, lf_records = rs\<rparr>)))"
  proof (rule runs_mono [OF read_node_spec [OF Nd.prems(1)]])
    fix child t1
    assume a: "child = nodes t (pid (ts ! i)) \<and> still t t1"
    then have t1: "steady t1" "nodes t1 = nodes t" "still t t1"
      by (auto simp: still_nodes) (simp add: still_def)
    then have child: "child = nodes t1 (pid (ts ! i))"
      using a by simp
    have "runs (find_leaf_for_insert L m (pid (ts ! i)) (nodes t1 (pid (ts ! i))) key) t1 (\<lambda>(lp, leaf) t'. still t1 t' \<and>
    (\<exists>c' nx rs. plug (ts ! i) ?c = plug (Lf lp nx rs) c' \<and> ctx_wf c' \<and> ctx_lo c' \<le> key \<and> below key (ctx_hi c') \<and>
       leaf = \<lparr>lf_parent = ctx_parent c', lf_next = nx, lf_records = rs\<rparr>))"
      by (rule Nd.IH [OF mem t1(1) _ _ ord lo hi n(2)]) (use st t1 wf Nd.prems(3) in simp_all)
    then show "runs (find_leaf_for_insert L m (pid (ts ! i)) child key) t1 (\<lambda>(lp, leaf) t'. still t t' \<and>
    (\<exists>c' nx rs. plug (Nd p ks ts) c = plug (Lf lp nx rs) c' \<and> ctx_wf c' \<and> ctx_lo c' \<le> key \<and> below key (ctx_hi c') \<and>
       leaf = \<lparr>lf_parent = ctx_parent c', lf_next = nx, lf_records = rs\<rparr>))"
      unfolding plug child by (rule runs_mono) (auto intro: still_trans [OF t1(3)])
  qed
  then show ?case
    using node i n(1) by (simp add: i_def [symmetric] runs_bind_eq Let_def)
qed

end

section \<open>Moving subtrees to a new parent\<close>

lemma encoded_size_set_parent [simp]: "encoded_size (set_parent p n) = encoded_size n"
  by (cases n) simp_all

lemma from_page_pointers:
  "from_page pg = Leaf l \<Longrightarrow> lf_next l \<noteq> Some U32_MAX \<and> lf_parent l \<noteq> Some U32_MAX"
  "from_page pg = Internal i \<Longrightarrow> in_parent i \<noteq> Some U32_MAX"
  by (auto simp: from_page_def max_or_id_def Let_def split: if_splits prod.splits)

lemma stored_set_parent:
  assumes "stored N par T" "N' (pid T) = set_parent q (N (pid T))"
    "\<And>p. p \<in> set (pids T) \<Longrightarrow> p \<noteq> pid T \<Longrightarrow> N' p = N p" "distinct (pids T)"
  shows "stored N' (Some q) T"
proof (cases T)
  case (Lf p nx rs)
  then show ?thesis using assms by simp
next
  case (Nd p ks ts)
  have "stored N' (Some p) c" if "c \<in> set ts" for c
  proof (rule stored_cong)
    show "stored N (Some p) c"
      using assms(1) Nd that by simp
    fix x
    assume "x \<in> set (pids c)"
    then show "N' x = N x"
      using assms(3) [of x] assms(4) Nd that by auto
  qed
  then show ?thesis
    using assms(1,2) Nd by simp
qed

context tree_pool
begin

lemma stored_wrote:
  "stored (nodes t) par T \<Longrightarrow> wrote X t t' \<Longrightarrow> X \<inter> set (pids T) = {} \<Longrightarrow> stored (nodes t') par T"
  by (erule stored_cong, erule wrote_nodes) blast

lemma node_ok_stored:
  assumes "stored (nodes t) par T" "ord lo hi T" "q \<noteq> U32_MAX"
  shows "node_ok (set_parent q (nodes t (pid T)))"
proof (cases T)
  case (Lf p nx rs)
  have "from_page (bview t p) = Leaf \<lparr>lf_parent = par, lf_next = nx, lf_records = rs\<rparr>"
    using assms(1) Lf by (simp add: bt_nodes_def)
  from from_page_pointers(1) [OF this] show ?thesis
    using assms(1,3) Lf by simp
next
  case (Nd p ks ts)
  then show ?thesis
    using assms ords_length [of lo hi ks ts] by simp
qed

lemma reparent_spec:
  assumes "steady t" "stored (nodes t) par T" "ord lo hi T" "0 < pid T" "pid T < bt_size t" "q \<noteq> U32_MAX"
  shows "runs (reparent L q (pid T)) t (\<lambda>_ t'. wrote {pid T} t t' \<and>
    nodes t' (pid T) = set_parent q (nodes t (pid T)))"
  unfolding reparent_def runs_bind_eq
proof (rule runs_mono [OF read_node_spec [OF assms(1)]])
  fix n t1
  assume a: "n = nodes t (pid T) \<and> still t t1"
  then have t1: "steady t1" "bt_size t1 = bt_size t" "wrote {} t t1"
    by (auto simp: still_def wrote_def)
  have ok: "node_ok (set_parent q n)"
    using node_ok_stored [OF assms(2,3,6)] a by simp
  have size: "encoded_size (set_parent q n) \<le> PAGE_SIZE"
    using a from_page_size [of "bview t (pid T)"] by (simp add: bt_nodes_def)
  show "runs (write_node L (pid T) (set_parent q n)) t1 (\<lambda>_ t'. wrote {pid T} t t' \<and>
      nodes t' (pid T) = set_parent q (nodes t (pid T)))"
    by (rule runs_mono [OF write_node_spec [OF t1(1) assms(4) _ ok size]])
      (use a t1 assms(5) in \<open>auto dest: wrote_trans [OF t1(3)]\<close>)
qed

lemma reparent_all_spec:
  assumes "steady t" "\<forall>T\<in>set ts. stored (nodes t) par T \<and> (\<exists>lo hi. ord lo hi T)"
    "distinct (concat (map pids ts))" "\<forall>p\<in>set (concat (map pids ts)). 0 < p \<and> p < bt_size t" "q \<noteq> U32_MAX"
  shows "runs (for_each (reparent L q) (map pid ts)) t (\<lambda>_ t'. wrote (pid ` set ts) t t' \<and>
    (\<forall>T\<in>set ts. stored (nodes t') (Some q) T))"
  using assms
proof (induction ts arbitrary: t)
  case Nil
  then show ?case by (simp add: wrote_def)
next
  case (Cons T ts)
  obtain lo hi where T: "stored (nodes t) par T" "ord lo hi T"
    using Cons.prems(2) by auto
  have rng: "0 < pid T" "pid T < bt_size t" and dT: "distinct (pids T)"
    using Cons.prems(3,4) pid_in_pids [of T] by auto
  have fresh: "set (pids T) \<inter> set (concat (map pids ts)) = {}"
    using Cons.prems(3) by auto
  have "pid ` set ts \<subseteq> set (concat (map pids ts))"
    by (auto intro: pid_in_pids)
  then have roots: "pid ` set ts \<inter> set (pids T) = {}"
    using fresh by blast
  show ?case
    unfolding list.map for_each.simps runs_then_eq
  proof (rule runs_mono [OF reparent_spec [OF Cons.prems(1) T rng Cons.prems(5)]])
    fix u t1
    assume a: "wrote {pid T} t t1 \<and> nodes t1 (pid T) = set_parent q (nodes t (pid T))"
    have t1: "steady t1" "bt_size t1 = bt_size t"
      using a wroteD by auto
    have same: "nodes t1 p = nodes t p" if "p \<noteq> pid T" for p
      using a that by (auto intro: wrote_nodes)
    have sT: "stored (nodes t1) (Some q) T"
      by (rule stored_set_parent [OF T(1)]) (use a same dT in auto)
    have rest: "stored (nodes t1) par T'" if "T' \<in> set ts" for T'
    proof (rule stored_cong [of "nodes t"])
      show "stored (nodes t) par T'"
        using Cons.prems(2) that by simp
      fix p
      assume "p \<in> set (pids T')"
      then have "p \<noteq> pid T"
        using fresh that by (auto simp: disjoint_iff)
      then show "nodes t1 p = nodes t p"
        by (rule same)
    qed
    show "runs (for_each (reparent L q) (map pid ts)) t1 (\<lambda>_ t'. wrote (pid ` set (T # ts)) t t' \<and>
        (\<forall>T\<in>set (T # ts). stored (nodes t') (Some q) T))"
    proof (rule runs_mono [OF Cons.IH [of t1]])
      show "steady t1" "\<forall>T\<in>set ts. stored (nodes t1) par T \<and> (\<exists>lo hi. ord lo hi T)"
        "distinct (concat (map pids ts))" "\<forall>p\<in>set (concat (map pids ts)). 0 < p \<and> p < bt_size t1"
        "q \<noteq> U32_MAX"
        using t1 Cons.prems rest by auto
      fix v t2
      assume b: "wrote (pid ` set ts) t1 t2 \<and> (\<forall>T\<in>set ts. stored (nodes t2) (Some q) T)"
      have "stored (nodes t2) (Some q) T"
        by (rule stored_cong [OF sT], rule wrote_nodes [of "pid ` set ts"])
          (use b roots in auto)
      moreover have "wrote (pid ` set (T # ts)) t t2"
        using wrote_trans [of "{pid T}" t t1 "pid ` set ts" t2] a b by simp
      ultimately show "wrote (pid ` set (T # ts)) t t2 \<and> (\<forall>T\<in>set (T # ts). stored (nodes t2) (Some q) T)"
        using b by simp
    qed
  qed
qed

end

section \<open>Growing a new root\<close>

context tree_pool
begin

text \<open>The program text that both ways of growing a root share.\<close>

lemma grow_root_spec:
  assumes t: "steady t" "bt_size t \<noteq> U32_MAX"
    and lt: "stored (nodes t) None lt" "ord l1 h1 lt" and rt: "stored (nodes t) None rt" "ord l2 h2 rt"
    and pages: "distinct (pids lt @ pids rt)" "\<forall>p\<in>set (pids lt @ pids rt). 0 < p \<and> p < bt_size t"
    and k: "length k \<le> SMALL"
    and f: "\<And>R. f R (nodes t (pid rt)) = set_parent R (nodes t (pid rt))"
  shows "runs (sbind (on_pool pool_allocate_page) (\<lambda>R.
     sthen (write_node L R (Internal \<lparr>in_parent = None, in_keys = [k], in_children = [pid lt, pid rt]\<rparr>))
     (sthen (write_node L (pid lt) (set_parent R (nodes t (pid lt))))
     (sbind (read_node L (pid rt)) (\<lambda>right.
     sthen (write_node L (pid rt) (f R right))
     (sthen (set_root_page_id R) (persist_root_page_id L R))))))) t (\<lambda>_ t'. steady t' \<and>
       stored (nodes t') None (Nd (bt_size t) [k] [lt, rt]) \<and> root_page_id t' = bt_size t \<and>
       meta_root (bview t' 0) = bt_size t \<and> bt_size t' = bt_size t + 1 \<and>
       (\<forall>q. q \<notin> {0, bt_size t, pid lt, pid rt} \<longrightarrow> bview t' q = bview t q))"
proof -
  let ?R = "bt_size t"
  let ?root = "Internal \<lparr>in_parent = None, in_keys = [k], in_children = [pid lt, pid rt]\<rparr>"
  have R: "0 < ?R" "?R < ?R + 1" "unat (?R + 1) = Suc (unat ?R)"
    using steadyD(3) [OF t(1)] unat_plus_1 [OF t(2)] by (simp_all add: word_less_nat_alt)
  have less: "p < ?R + 1" if "p < ?R" for p
    using that R(2) by simp
  have rng: "0 < pid lt" "pid lt < ?R" "0 < pid rt" "pid rt < ?R"
    using pages(2) pid_in_pids by auto
  have disj: "set (pids lt) \<inter> set (pids rt) = {}"
    using pages by simp
  then have "pid lt \<noteq> pid rt"
    by (metis disjoint_iff pid_in_pids)
  then have neq: "pid lt \<noteq> pid rt" "set (pids lt) \<inter> set (pids rt) = {}" "?R \<notin> set (pids lt @ pids rt)"
    "0 \<notin> set (pids lt @ pids rt)" "distinct (pids lt)" "distinct (pids rt)"
    using pages disj by auto
  have lt_rt: "pid lt \<notin> set (pids rt)" "pid rt \<notin> set (pids lt)"
    using neq(2) pid_in_pids [of lt] pid_in_pids [of rt] by blast+
  obtain t1 where 1: "on_pool pool_allocate_page t = (Inr ?R, t1)" "steady t1" "bview t1 = bview t"
      "bt_size t1 = ?R + 1"
    using alloc_spec [OF t] by (auto simp: runs_def)
  have n1: "nodes t1 = nodes t"
    using 1(3) by (simp add: bt_nodes_def fun_eq_iff)
  have "encoded_size ?root \<le> PAGE_SIZE" "node_ok ?root"
    using k by simp_all
  then obtain t2 where 2: "write_node L ?R ?root t1 = (Inr (), t2)" "wrote {?R} t1 t2" "nodes t2 ?R = ?root"
    using write_node_spec [OF 1(2) R(1), of ?root] 1(4) R(2) by (auto simp: runs_def)
  note w2 = wroteD [OF 2(2)]
  have size: "encoded_size (set_parent q (nodes t p)) \<le> PAGE_SIZE" for p q
    using from_page_size [of "bview t p"] by (simp add: bt_nodes_def)
  obtain t3 where 3: "write_node L (pid lt) (set_parent ?R (nodes t (pid lt))) t2 = (Inr (), t3)"
      "wrote {pid lt} t2 t3" "nodes t3 (pid lt) = set_parent ?R (nodes t (pid lt))"
    using write_node_spec [OF _ rng(1) _ node_ok_stored [OF lt t(2)] size, of t2] w2 1(4) less [OF rng(2)]
    by (auto simp: runs_def)
  note w3 = wroteD [OF 3(2)]
  obtain t4 where 4: "read_node L (pid rt) t3 = (Inr (nodes t3 (pid rt)), t4)" "still t3 t4"
    using read_node_spec [of t3 "pid rt"] w3 by (auto simp: runs_def)
  have n3: "nodes t3 (pid rt) = nodes t (pid rt)"
    using wrote_nodes [OF 3(2)] wrote_nodes [OF 2(2)] n1 neq(1,3) pid_in_pids [of rt] by (metis Un_iff set_append singletonD)
  have s4: "steady t4" "bt_size t4 = ?R + 1"
    using 4(2) w3 w2 1(4) by (simp_all add: still_def)
  obtain t5 where 5: "write_node L (pid rt) (set_parent ?R (nodes t (pid rt))) t4 = (Inr (), t5)"
      "wrote {pid rt} t4 t5" "nodes t5 (pid rt) = set_parent ?R (nodes t (pid rt))"
    using write_node_spec [OF s4(1) rng(3) _ node_ok_stored [OF rt t(2)] size] s4 less [OF rng(4)]
    by (auto simp: runs_def)
  define t6 where "t6 = t5\<lparr>root_page_id := ?R\<rparr>"
  have s6: "steady t6" "bview t6 = bview t5" "bt_size t6 = bt_size t5" "set_root_page_id ?R t5 = (Inr (), t6)"
    using wroteD [OF 5(2)] by (simp_all add: t6_def bt_steady_def bt_view_def set_root_page_id_def)
  obtain t7 where 7: "persist_root_page_id L ?R t6 = (Inr (), t7)" "wrote {0} t6 t7" "meta_root (bview t7 0) = ?R"
    using persist_root_spec [OF s6(1), of ?R] by (auto simp: runs_def)
  have v: "bview t7 q = bview t q" if "q \<notin> {0, ?R, pid lt, pid rt}" for q
    using that 7(2) s6(2) 5(2) 4(2) 3(2) 2(2) 1(3) by (simp add: wrote_def still_def)
  have nR: "nodes t7 ?R = ?root"
  proof -
    have "?R \<noteq> 0" "?R \<noteq> pid lt" "?R \<noteq> pid rt"
      using R(1) neq(3) pid_in_pids [of lt] pid_in_pids [of rt] by auto
    then have "bview t7 ?R = bview t2 ?R"
      using 7(2) s6(2) 5(2) 4(2) 3(2) by (simp add: wrote_def still_def)
    then show ?thesis
      using 2(3) bview_nodes by metis
  qed
  have nl: "nodes t7 (pid lt) = set_parent ?R (nodes t (pid lt))"
  proof -
    have "bview t7 (pid lt) = bview t3 (pid lt)"
      using 7(2) s6(2) 5(2) 4(2) neq(1) rng(1) by (simp add: wrote_def still_def)
    then show ?thesis
      using 3(3) bview_nodes by metis
  qed
  have nr: "nodes t7 (pid rt) = set_parent ?R (nodes t (pid rt))"
  proof -
    have "bview t7 (pid rt) = bview t5 (pid rt)"
      using 7(2) s6(2) rng(3) by (simp add: wrote_def still_def)
    then show ?thesis
      using 5(3) bview_nodes by metis
  qed
  have other: "nodes t7 q = nodes t q" if "q \<notin> {0, ?R, pid lt, pid rt}" for q
    using v [OF that] by (rule bview_nodes)
  have "stored (nodes t7) (Some ?R) lt"
    by (rule stored_set_parent [where N = "nodes t", OF lt(1)], rule nl, rule other) (use neq lt_rt in auto)
  moreover have "stored (nodes t7) (Some ?R) rt"
    by (rule stored_set_parent [where N = "nodes t", OF rt(1)], rule nr, rule other) (use neq lt_rt in auto)
  ultimately have "stored (nodes t7) None (Nd ?R [k] [lt, rt])"
    using nR by simp
  moreover have "root_page_id t7 = ?R" "bt_size t7 = ?R + 1" "steady t7"
    using wroteD [OF 7(2)] s6(3) wroteD [OF 5(2)] s4 by (simp_all add: t6_def)
  ultimately show ?thesis
    using v 7(3) by (simp add: runs_def 1(1) 2(1) 3(1) 4(1) n3 f 5(1) s6(4) 7(1))
qed

end

section \<open>Splits propagated upwards\<close>

lemma ords_sorted:
  "ords lo hi ks ts \<Longrightarrow> sorted_wrt (<) ks \<and> (\<forall>k\<in>set ks. lo < k \<and> below k hi)"
proof (induction ks arbitrary: lo ts)
  case Nil
  then show ?case by simp
next
  case (Cons k ks)
  then obtain t ts' where ts: "ts = t # ts'"
    by (cases ts) auto
  then show ?case
    using Cons.IH [of k ts'] Cons.prems by auto
qed

lemma ords_member: "ords lo hi ks ts \<Longrightarrow> T \<in> set ts \<Longrightarrow> \<exists>lo hi. ord lo hi T"
proof (induction ks arbitrary: lo ts)
  case Nil
  then show ?case by (cases ts; cases "List.tl ts") auto
next
  case (Cons k ks)
  then show ?case by (cases ts) auto
qed

lemma bsearch_absent:
  assumes "sorted_wrt (<) (map key (xs @ ys))" "\<forall>x\<in>set xs. key x < (k :: 'k::linorder)" "\<forall>y\<in>set ys. k < key y"
  shows "binary_search_by (\<lambda>x. cmp (key x) k) (xs @ ys) = Inl (length xs)"
proof -
  let ?zs = "xs @ ys"
  have sorted: "key (?zs ! i) < key (?zs ! j)" if "i < j" "j < length ?zs" for i j
    using sorted_wrt_nth_less [OF assms(1), of i j] that by (simp del: map_append)
  have spec: "case bsearch (\<lambda>x. cmp (key x) k) ?zs 0 (length ?zs) of
      Inr i \<Rightarrow> i < length ?zs \<and> key (?zs ! i) = k
    | Inl i \<Rightarrow> i \<le> length ?zs \<and> (\<forall>j<i. key (?zs ! j) < k) \<and>
        (\<forall>j. i \<le> j \<longrightarrow> j < length ?zs \<longrightarrow> k < key (?zs ! j))"
    by (rule bsearch_spec) (use sorted in auto)
  have low: "key (?zs ! j) < k" if "j < length xs" for j
    using assms(2) that by (simp add: nth_append)
  have high: "k < key (?zs ! j)" if "length xs \<le> j" "j < length ?zs" for j
    using assms(3) that by (simp add: nth_append)
  show ?thesis
  proof (cases "bsearch (\<lambda>x. cmp (key x) k) ?zs 0 (length ?zs)")
    case (Inr i)
    then have "i < length ?zs" "key (?zs ! i) = k"
      using spec by simp_all
    then show ?thesis
      using low [of i] high [of i] by (cases "i < length xs") auto
  next
    case (Inl i)
    then have i: "i \<le> length ?zs" "\<And>j. j < i \<Longrightarrow> key (?zs ! j) < k"
      "\<And>j. i \<le> j \<Longrightarrow> j < length ?zs \<Longrightarrow> k < key (?zs ! j)"
      using spec by simp_all
    have "\<not> i < length xs"
      using i(3) [of i] low [of i] by auto
    moreover have "\<not> length xs < i"
    proof
      assume "length xs < i"
      moreover from this have "length xs < length ?zs"
        using i(1) by linarith
      ultimately have "k < k"
        using less_trans [OF high [OF le_refl] i(2)] by blast
      then show False by simp
    qed
    ultimately show ?thesis
      using Inl by (simp add: binary_search_by_def)
  qed
qed

lemma binary_search_absent:
  "sorted_wrt (<) (ks1 @ k # ks2) \<Longrightarrow> search_pos (binary_search (ks1 @ ks2) k) = length ks1"
  using bsearch_absent [of "\<lambda>x. x" ks1 ks2 k]
  by (simp add: binary_search_def search_pos_def sorted_wrt_append)

context tree_pool
begin

definition good :: "'c btree \<Rightarrow> tree \<Rightarrow> bool" where
  "good t T \<longleftrightarrow> steady t \<and> tree_ok (nodes t) (bt_size t) (root_page_id t) T \<and>
     meta_root (bview t 0) = root_page_id t"

text \<open>Pages outside \<open>D\<close> that existed before are neither changed nor part of the new tree.\<close>

definition framed :: "page_id set \<Rightarrow> 'c btree \<Rightarrow> 'c btree \<Rightarrow> tree \<Rightarrow> bool" where
  "framed D t t' T \<longleftrightarrow> bt_size t \<le> bt_size t' \<and>
     (\<forall>q. 0 < q \<longrightarrow> q < bt_size t \<longrightarrow> q \<notin> D \<longrightarrow> bview t' q = bview t q \<and> q \<notin> set (pids T))"

lemma split_internal_steps:
  assumes t: "steady t" "bt_size t \<noteq> U32_MAX"
    and hole: "hole_ok (nodes t) (bt_size t) (root_page_id t) ((P, ks1, ts1, ks2, ts2) # c) k lt rt"
    and K: "ks1 @ k # ks2 = K1 @ m # K2" and C: "ts1 @ lt # rt # ts2 = C1 @ C2" "length C1 = Suc (length K1)"
    and fits: "encoded_size (Internal \<lparr>in_parent = ctx_parent c, in_keys = K1, in_children = map pid C1\<rparr>) \<le> PAGE_SIZE"
      "encoded_size (Internal \<lparr>in_parent = ctx_parent c, in_keys = K2, in_children = map pid C2\<rparr>) \<le> PAGE_SIZE"
    and cont: "\<And>t'. steady t' \<Longrightarrow> bt_size t' = bt_size t + 1 \<Longrightarrow> root_page_id t' = root_page_id t \<Longrightarrow>
      hole_ok (nodes t') (bt_size t') (root_page_id t') c m (Nd P K1 C1) (Nd (bt_size t) K2 C2) \<Longrightarrow>
      (\<forall>q. q \<notin> {P, bt_size t} \<union> pid ` set C2 \<longrightarrow> bview t' q = bview t q) \<Longrightarrow> runs (cont (bt_size t)) t' Q"
  shows "runs (sbind (on_pool pool_allocate_page) (\<lambda>q.
      sthen (write_node L P (Internal \<lparr>in_parent = ctx_parent c, in_keys = K1, in_children = map pid C1\<rparr>))
      (sthen (write_node L q (Internal \<lparr>in_parent = ctx_parent c, in_keys = K2, in_children = map pid C2\<rparr>))
      (sthen (for_each (reparent L q) (map pid C2)) (cont q))))) t Q"
proof -
  let ?q = "bt_size t"
  let ?c = "(P, ks1, ts1, ks2, ts2) # c"
  let ?left = "Internal \<lparr>in_parent = ctx_parent c, in_keys = K1, in_children = map pid C1\<rparr>"
  let ?right = "Internal \<lparr>in_parent = ctx_parent c, in_keys = K2, in_children = map pid C2\<rparr>"
  note h = hole [unfolded hole_ok_def]
  have wf: "length ts1 = length ks1" "length ts2 = length ks2"
    using h by simp_all
  have q: "0 < ?q" "?q < ?q + 1"
    using steadyD(3) [OF t(1)] unat_plus_1 [OF t(2)] by (simp_all add: word_less_nat_alt)
  have lenC: "length C2 = Suc (length K2)"
    using arg_cong [OF K, of length] arg_cong [OF C(1), of length] C(2) wf by simp
  have "ctx_parent c \<noteq> Some U32_MAX"
  proof -
    have "in_parent (\<lparr>in_parent = ctx_parent c, in_keys = ks1 @ ks2,
        in_children = map pid ts1 @ pid lt # map pid ts2\<rparr>) \<noteq> Some U32_MAX"
      by (rule from_page_pointers(2) [of "bview t P"]) (use h in \<open>simp add: bt_nodes_def\<close>)
    then show ?thesis by simp
  qed
  then have ok: "node_ok ?left" "node_ok ?right"
    using C(2) lenC by simp_all
  have all: "set (ts1 @ lt # rt # ts2) = set C1 \<union> set C2"
    unfolding C(1) by simp
  have pages: "set (concat (map pids C2)) \<subseteq> set (pids lt @ pids rt @ ctx_pids ?c)"
  proof
    fix x
    assume "x \<in> set (concat (map pids C2))"
    then obtain T where "T \<in> set (ts1 @ lt # rt # ts2)" "x \<in> set (pids T)"
      using all by auto
    then show "x \<in> set (pids lt @ pids rt @ ctx_pids ?c)"
      by auto
  qed
  have rng: "0 < p \<and> p < ?q" if "p \<in> set (pids lt @ pids rt @ ctx_pids ?c)" for p
    using h that by blast
  have Prng: "0 < P" "P < ?q"
    using rng [of P] by simp_all
  have less: "p < ?q + 1" if "p < ?q" for p
    using that q(2) by simp
  have P_out: "P \<notin> set (concat (map pids C2))"
  proof -
    have "P \<notin> set (pids T)" if "T \<in> set (ts1 @ lt # rt # ts2)" for T
      using h that by auto
    then show ?thesis
      using all by auto
  qed
  have q_out: "?q \<notin> set (concat (map pids C2))"
    using pages rng by blast
  have distC: "distinct (concat (map pids C2))"
  proof -
    have "distinct (concat (map pids (ts1 @ lt # rt # ts2)))"
      using h by auto
    then show ?thesis
      unfolding C(1) by simp
  qed
  obtain t1 where 1: "on_pool pool_allocate_page t = (Inr ?q, t1)" "steady t1" "bview t1 = bview t"
      "bt_size t1 = ?q + 1" "root_page_id t1 = root_page_id t"
    using alloc_spec [OF t] by (auto simp: runs_def)
  obtain t2 where 2: "write_node L P ?left t1 = (Inr (), t2)" "wrote {P} t1 t2" "nodes t2 P = ?left"
    using write_node_spec [OF 1(2) Prng(1) _ ok(1) fits(1)] 1(4) less [OF Prng(2)] by (auto simp: runs_def)
  note w2 = wroteD [OF 2(2)]
  obtain t3 where 3: "write_node L ?q ?right t2 = (Inr (), t3)" "wrote {?q} t2 t3" "nodes t3 ?q = ?right"
    using write_node_spec [OF _ q(1) _ ok(2) fits(2), of t2] w2 1(4) q(2) by (auto simp: runs_def)
  note w3 = wroteD [OF 3(2)]
  have v3: "bview t3 x = bview t x" if "x \<noteq> P" "x \<noteq> ?q" for x
    using that 3(2) 2(2) 1(3) by (simp add: wrote_def)
  have kids: "\<forall>T\<in>set C2. stored (nodes t3) (Some P) T \<and> (\<exists>lo hi. ord lo hi T)"
  proof
    fix T
    assume T: "T \<in> set C2"
    have mem: "T \<in> set (ts1 @ lt # rt # ts2)"
      using T all by auto
    have "stored (nodes t) (Some P) T"
      using h mem by auto
    moreover have "nodes t3 p = nodes t p" if "p \<in> set (pids T)" for p
    proof -
      have "p \<in> set (concat (map pids C2))"
        using that T by auto
      then show ?thesis
        using P_out q_out by (intro bview_nodes v3) auto
    qed
    ultimately have "stored (nodes t3) (Some P) T"
      by (rule stored_cong)
    moreover have "ords (ctx_lo c) (ctx_hi c) (ks1 @ k # ks2) (ts1 @ lt # rt # ts2)"
      by (rule ords_insert) (use h wf in auto)
    then have "\<exists>lo hi. ord lo hi T"
      using mem by (rule ords_member)
    ultimately show "stored (nodes t3) (Some P) T \<and> (\<exists>lo hi. ord lo hi T)" ..
  qed
  have rng3: "\<forall>p\<in>set (concat (map pids C2)). 0 < p \<and> p < bt_size t3"
  proof
    fix p
    assume "p \<in> set (concat (map pids C2))"
    then have "0 < p \<and> p < ?q"
      using pages by (intro rng) blast
    then show "0 < p \<and> p < bt_size t3"
      using less [of p] w3 w2 1(4) by simp
  qed
  obtain t4 where 4: "for_each (reparent L ?q) (map pid C2) t3 = (Inr (), t4)" "wrote (pid ` set C2) t3 t4"
      "\<forall>T\<in>set C2. stored (nodes t4) (Some ?q) T"
    using reparent_all_spec [OF _ kids distC rng3 t(2)] w3 by (auto simp: runs_def)
  note w4 = wroteD [OF 4(2)]
  have roots: "pid ` set C2 \<subseteq> set (concat (map pids C2))"
    by (auto intro: pid_in_pids)
  have v4: "bview t4 x = bview t x" if "x \<notin> {P, ?q} \<union> pid ` set C2" for x
    using that v3 [of x] 4(2) by (simp add: wrote_def)
  have "nodes t4 P = ?left"
  proof -
    have "P \<notin> pid ` set C2" "P \<noteq> ?q"
      using P_out roots Prng by auto
    then have "bview t4 P = bview t2 P"
      using 4(2) 3(2) by (simp add: wrote_def)
    then show ?thesis
      using 2(3) bview_nodes by metis
  qed
  moreover have "nodes t4 ?q = ?right"
  proof -
    have "?q \<notin> pid ` set C2"
      using q_out roots by auto
    then have "bview t4 ?q = bview t3 ?q"
      using 4(2) by (simp add: wrote_def)
    then show ?thesis
      using 3(3) bview_nodes by metis
  qed
  moreover have "nodes t4 x = nodes t x" if "x \<notin> {P, ?q} \<union> pid ` set C2" for x
    using v4 [OF that] by (rule bview_nodes)
  ultimately have "hole_ok (nodes t4) (?q + 1) (root_page_id t) c m (Nd P K1 C1) (Nd ?q K2 C2)"
    using 4(3) q(2) by (intro split_hole(1) [OF hole K C]) auto
  then have "runs (cont ?q) t4 Q"
    using w4 w3 w2 1(4,5) v4 by (intro cont) auto
  then show ?thesis
    by (simp add: runs_def 1(1) 2(1) 3(1) 4(1))
qed

end

context tree_pool
begin

lemma grow_result:
  assumes hole: "hole_ok (nodes t) (bt_size t) r [] k lt rt" and t: "steady t" "bt_size t \<noteq> U32_MAX"
    and t': "steady t'" "stored (nodes t') None (Nd (bt_size t) [k] [lt, rt])" "root_page_id t' = bt_size t"
      "meta_root (bview t' 0) = bt_size t" "bt_size t' = bt_size t + 1"
      "\<forall>q. q \<notin> {0, bt_size t, pid lt, pid rt} \<longrightarrow> bview t' q = bview t q"
  shows "good t' (Nd (bt_size t) [k] [lt, rt])"
    "framed (set (pids lt @ pids rt)) t t' (Nd (bt_size t) [k] [lt, rt])"
proof -
  have up: "bt_size t < bt_size t + 1"
    using unat_plus_1 [OF t(2)] by (simp add: word_less_nat_alt)
  have "tree_ok (nodes t') (bt_size t + 1) (bt_size t) (Nd (bt_size t) [k] [lt, rt])"
    using hole_grown [OF hole t'(2) order_refl up] .
  then show "good t' (Nd (bt_size t) [k] [lt, rt])"
    using t' by (simp add: good_def)
  show "framed (set (pids lt @ pids rt)) t t' (Nd (bt_size t) [k] [lt, rt])"
    unfolding framed_def
  proof (intro conjI allI impI)
    show "bt_size t \<le> bt_size t'"
      using t'(5) up by simp
    fix q
    assume q: "0 < q" "q < bt_size t" "q \<notin> set (pids lt @ pids rt)"
    then have "q \<notin> {0, bt_size t, pid lt, pid rt}"
      by auto
    then show "bview t' q = bview t q"
      using t'(6) by blast
    show "q \<notin> set (pids (Nd (bt_size t) [k] [lt, rt]))"
      using q by auto
  qed
qed

lemma grow_hole:
  assumes hole: "hole_ok (nodes t) (bt_size t) r [] k lt rt" and t: "steady t" "bt_size t \<noteq> U32_MAX"
    and f: "\<And>R. f R (nodes t (pid rt)) = set_parent R (nodes t (pid rt))"
  shows "runs (sbind (on_pool pool_allocate_page) (\<lambda>R.
     sthen (write_node L R (Internal \<lparr>in_parent = None, in_keys = [k], in_children = [pid lt, pid rt]\<rparr>))
     (sthen (write_node L (pid lt) (set_parent R (nodes t (pid lt))))
     (sbind (read_node L (pid rt)) (\<lambda>right.
     sthen (write_node L (pid rt) (f R right))
     (sthen (set_root_page_id R) (persist_root_page_id L R))))))) t (\<lambda>_ t'. \<exists>T. good t' T \<and>
       recs T = recs lt @ recs rt \<and> framed (set (pids lt @ pids rt)) t t' T \<and>
       (\<forall>h. balanced h lt \<longrightarrow> balanced h rt \<longrightarrow> balanced (Suc h) T) \<and> bt_size t' = bt_size t + 1)"
proof -
  note h = hole [unfolded hole_ok_def, simplified]
  show ?thesis
  proof (rule runs_mono [OF grow_root_spec [OF t]])
    show "stored (nodes t) None lt" "stored (nodes t) None rt" "ord [] (Some k) lt" "ord k None rt"
      "distinct (pids lt @ pids rt)" "\<forall>p\<in>set (pids lt @ pids rt). 0 < p \<and> p < bt_size t" "length k \<le> SMALL"
      using h by auto
    show "\<And>R. f R (nodes t (pid rt)) = set_parent R (nodes t (pid rt))"
      by (rule f)
    fix u t'
    assume a: "steady t' \<and> stored (nodes t') None (Nd (bt_size t) [k] [lt, rt]) \<and>
      root_page_id t' = bt_size t \<and> meta_root (bview t' 0) = bt_size t \<and> bt_size t' = bt_size t + 1 \<and>
      (\<forall>q. q \<notin> {0, bt_size t, pid lt, pid rt} \<longrightarrow> bview t' q = bview t q)"
    then show "\<exists>T. good t' T \<and> recs T = recs lt @ recs rt \<and> framed (set (pids lt @ pids rt)) t t' T \<and>
       (\<forall>h. balanced h lt \<longrightarrow> balanced h rt \<longrightarrow> balanced (Suc h) T) \<and> bt_size t' = bt_size t + 1"
      using grow_result [OF hole t, of t'] by (intro exI [of _ "Nd (bt_size t) [k] [lt, rt]"]) auto
  qed
qed

lemma grow_internal_hole:
  assumes hole: "hole_ok (nodes t) (bt_size t) r [] k (Nd P K1 C1) (Nd q K2 C2)"
    and t: "steady t" "bt_size t \<noteq> U32_MAX"
  shows "runs (grow_internal_root L P \<lparr>in_parent = None, in_keys = K1, in_children = map pid C1\<rparr> k q) t
    (\<lambda>_ t'. \<exists>T. good t' T \<and> recs T = recs (Nd P K1 C1) @ recs (Nd q K2 C2) \<and>
       framed (set (pids (Nd P K1 C1) @ pids (Nd q K2 C2))) t t' T \<and>
       (\<forall>h. balanced h (Nd P K1 C1) \<longrightarrow> balanced h (Nd q K2 C2) \<longrightarrow> balanced (Suc h) T) \<and> bt_size t' = bt_size t + 1)"
proof -
  have n: "nodes t P = Internal \<lparr>in_parent = None, in_keys = K1, in_children = map pid C1\<rparr>"
    "nodes t q = Internal \<lparr>in_parent = None, in_keys = K2, in_children = map pid C2\<rparr>"
    using hole by (auto simp: hole_ok_def)
  have f: "set_parent_if_internal R (nodes t (pid (Nd q K2 C2))) = set_parent R (nodes t (pid (Nd q K2 C2)))" for R
    by (simp add: n set_parent_if_internal_def)
  show ?thesis
    using grow_hole [where f = set_parent_if_internal, OF hole t f] n by (simp add: grow_internal_root_def)
qed

lemma framed_trans:
  assumes "\<forall>q. q \<notin> X \<longrightarrow> bview t1 q = bview t q" "bt_size t \<le> bt_size t1" "framed E t1 t2 T"
    "\<And>q. 0 < q \<Longrightarrow> q < bt_size t \<Longrightarrow> q \<notin> D \<Longrightarrow> q \<notin> X \<and> q \<notin> E"
  shows "framed D t t2 T"
  unfolding framed_def
proof (intro conjI allI impI)
  show "bt_size t \<le> bt_size t2"
    using assms(2,3) unfolding framed_def by (blast intro: order_trans)
  fix q
  assume q: "0 < q" "q < bt_size t" "q \<notin> D"
  have "q < bt_size t1" "q \<notin> X" "q \<notin> E"
    using q assms(2,4) by (auto intro: less_le_trans)
  then have "bview t2 q = bview t1 q \<and> q \<notin> set (pids T)"
    using assms(3) q(1) unfolding framed_def by blast
  then show "bview t2 q = bview t q" "q \<notin> set (pids T)"
    using assms(1) \<open>q \<notin> X\<close> by simp_all
qed

lemma split_internal_unfold:
  assumes "length (in_keys i) div 2 = mid" "mid < length (in_keys i)" "mid + 1 \<le> length (in_children i)"
  shows "split_internal_and_insert L n P i =
    sbind (on_pool pool_allocate_page) (\<lambda>q.
      sthen (write_node L P (Internal \<lparr>in_parent = in_parent i, in_keys = take mid (in_keys i),
        in_children = take (mid + 1) (in_children i)\<rparr>))
      (sthen (write_node L q (Internal \<lparr>in_parent = in_parent i, in_keys = drop (mid + 1) (in_keys i),
        in_children = drop (mid + 1) (in_children i)\<rparr>))
      (sthen (for_each (reparent L q) (drop (mid + 1) (in_children i)))
      (case in_parent i of
         Some parent_id \<Rightarrow>
           (case n of
              0 \<Rightarrow> throw Diverges
            | Suc m \<Rightarrow> insert_into_internal L m parent_id (in_keys i ! mid) q)
       | None \<Rightarrow> grow_internal_root L P \<lparr>in_parent = in_parent i, in_keys = take mid (in_keys i),
           in_children = take (mid + 1) (in_children i)\<rparr> (in_keys i ! mid) q))))"
proof (cases i)
  case (fields par ks cs)
  then show ?thesis
    using assms by (cases par; cases n) (simp_all add: split_internal_and_insert.simps Let_def)
qed

lemma propagate_spec:
  assumes "steady t" "hole_ok (nodes t) (bt_size t) (root_page_id t) c k lt rt"
    "meta_root (bview t 0) = root_page_id t" "ctx_parent c = Some P" "2 * length c \<le> Suc n"
    "unat (bt_size t) + length c < 2 ^ 32 - 1" "balanced h lt" "balanced h rt" "ctx_balanced h c"
  shows "runs (insert_into_internal L n P k (pid rt)) t (\<lambda>_ t'. \<exists>T. good t' T \<and>
    recs T = ctx_left recs c @ recs lt @ recs rt @ ctx_right recs c \<and>
    framed (set (pids lt @ pids rt @ ctx_pids c)) t t' T \<and>
    (balanced (h + length c) T \<or> balanced (Suc (h + length c)) T) \<and>
    unat (bt_size t') \<le> unat (bt_size t) + length c + 1)"
  using assms
proof (induction c arbitrary: t k lt rt P n h)
  case Nil
  then show ?case by simp
next
  case (Cons f c)
  obtain ks1 ts1 ks2 ts2 where f: "f = (P, ks1, ts1, ks2, ts2)"
    using Cons.prems(4) by (cases f) auto
  let ?c = "(P, ks1, ts1, ks2, ts2) # c"
  let ?K = "ks1 @ k # ks2" and ?C = "ts1 @ lt # rt # ts2"
  define D where D: "D = set (pids lt @ pids rt @ ctx_pids ?c)"
  have hole: "hole_ok (nodes t) (bt_size t) (root_page_id t) ?c k lt rt"
    using Cons.prems(2) f by simp
  note h = hole [unfolded hole_ok_def]
  have wf: "length ts1 = length ks1" "length ts2 = length ks2"
    using h by simp_all
  have node: "nodes t P = Internal \<lparr>in_parent = ctx_parent c, in_keys = ks1 @ ks2,
      in_children = map pid ts1 @ pid lt # map pid ts2\<rparr>"
    using h by simp
  have ords: "ords (ctx_lo c) (ctx_hi c) ?K ?C"
    by (rule ords_insert) (use h wf in auto)
  then have sorted: "sorted_wrt (<) ?K"
    by (simp add: ords_sorted)
  obtain t1 where 1: "read_node L P t = (Inr (nodes t P), t1)" "still t t1"
    using read_node_spec [OF Cons.prems(1)] by (auto simp: runs_def)
  have t1: "steady t1" "nodes t1 = nodes t" "bview t1 = bview t" "bt_size t1 = bt_size t"
    "root_page_id t1 = root_page_id t"
    using 1(2) still_nodes by (auto simp: still_def)
  define i where "i = \<lparr>in_parent = ctx_parent c, in_keys = ?K, in_children = map pid ?C\<rparr>"
  have ins: "list_insert (length ks1) k (ks1 @ ks2) = ?K"
    "list_insert (length ks1 + 1) (pid rt) (map pid ts1 @ pid lt # map pid ts2) = map pid ?C"
    using wf by (simp_all add: list_insert_def)
  have step: "insert_into_internal L n P k (pid rt) t =
      (if PAGE_SIZE < encoded_size (Internal i)
       then (case n of 0 \<Rightarrow> throw Diverges | Suc m \<Rightarrow> split_internal_and_insert L m P i) t1
       else write_node L P (Internal i) t1)"
    using binary_search_absent [OF sorted] wf ins unfolding i_def
    by (cases n) (simp_all add: insert_into_internal.simps 1(1) node Let_def del: encoded_size.simps)
  have rng: "0 < p \<and> p < bt_size t" if "p \<in> D" for p
    using h that unfolding D by blast
  show ?case
  proof (cases "PAGE_SIZE < encoded_size (Internal i)")
    case False
    have ok: "node_ok (Internal i)" "encoded_size (Internal i) \<le> PAGE_SIZE"
      using False from_page_pointers(2) [of "bview t P"] node wf
      by (auto simp: i_def bt_nodes_def)
    have "0 < P" "P < bt_size t1"
      using rng [of P] t1(4) by (simp_all add: D)
    then obtain t2 where 2: "write_node L P (Internal i) t1 = (Inr (), t2)" "wrote {P} t1 t2"
        "nodes t2 P = Internal i"
      using write_node_spec [OF t1(1) _ _ ok] by (auto simp: runs_def)
    note w2 = wroteD [OF 2(2)]
    let ?T = "plug (Nd P ?K ?C) c"
    have "tree_ok (nodes t2) (bt_size t) (root_page_id t) ?T"
      by (rule close_hole [OF hole]) (use 2 t1 wrote_nodes [OF 2(2)] in \<open>auto simp: i_def\<close>)
    moreover have "meta_root (bview t2 0) = root_page_id t2"
      using 2(2) t1 Cons.prems(3) \<open>0 < P\<close> by (simp add: wrote_def)
    ultimately have "good t2 ?T"
      using w2 t1 by (simp add: good_def)
    moreover have "recs ?T = ctx_left recs ?c @ recs lt @ recs rt @ ctx_right recs ?c"
      by (simp add: recs_plug)
    moreover have "framed D t t2 ?T"
      using 2(2) t1 by (auto simp: framed_def wrote_def set_pids_plug D)
    moreover have "balanced (h + length ?c) ?T"
      using Cons.prems(7-9) balanced_plug [of "Suc h" c "Nd P ?K ?C"] by (auto simp: f)
    ultimately show ?thesis
      using False step 2(1) w2 t1 by (auto simp: runs_def f D)
  next
    case True
    define mid where "mid = length ?K div 2"
    have mid: "mid < length ?K"
      by (simp add: mid_def)
    define K1 m K2 C1 C2 where parts: "K1 = take mid ?K" "m = ?K ! mid" "K2 = drop (mid + 1) ?K"
      "C1 = take (mid + 1) ?C" "C2 = drop (mid + 1) ?C"
    have K: "?K = K1 @ m # K2"
      unfolding parts using id_take_nth_drop [OF mid] by (simp only: Suc_eq_plus1)
    have "?C = C1 @ C2"
      unfolding parts by (simp only: append_take_drop_id)
    moreover have "length C1 = Suc (length K1)"
      using mid wf by (simp add: parts)
    ultimately have C: "?C = C1 @ C2" "length C1 = Suc (length K1)" .
    have small: "\<forall>x\<in>set ?K. length x \<le> SMALL"
      using h by auto
    have "encoded_size (nodes t P) \<le> PAGE_SIZE"
      using from_page_size [of "bview t P"] by (simp add: bt_nodes_def)
    then have size: "7 + (length ?K + 1) * 4 + key_bytes ?K \<le> PAGE_SIZE + 8 + SMALL"
      using h wf by (simp add: node)
    have fits: "encoded_size (Internal \<lparr>in_parent = ctx_parent c, in_keys = K1, in_children = map pid C1\<rparr>) \<le> PAGE_SIZE"
      "encoded_size (Internal \<lparr>in_parent = ctx_parent c, in_keys = K2, in_children = map pid C2\<rparr>) \<le> PAGE_SIZE"
      using split_internal_fits [OF small mid_def size] mid wf
      by (simp_all add: parts del: take_append drop_append)
    obtain n' where n: "n = Suc n'"
      using Cons.prems(5) f by (cases n) auto
    have room: "bt_size t1 \<noteq> U32_MAX"
      using Cons.prems(6) t1(4) by auto
    let ?cont = "\<lambda>q. case ctx_parent c of
        Some parent_id \<Rightarrow> (case n' of 0 \<Rightarrow> throw Diverges
          | Suc m' \<Rightarrow> insert_into_internal L m' parent_id m q)
      | None \<Rightarrow> grow_internal_root L P \<lparr>in_parent = ctx_parent c, in_keys = K1, in_children = map pid C1\<rparr> m q"
    let ?Q = "\<lambda>_ t'. \<exists>T. good t' T \<and>
      recs T = ctx_left recs ?c @ recs lt @ recs rt @ ctx_right recs ?c \<and>
      framed D t t' T \<and> (balanced (h + length ?c) T \<or> balanced (Suc (h + length ?c)) T) \<and>
      unat (bt_size t') \<le> unat (bt_size t) + length ?c + 1"
    have prog: "split_internal_and_insert L n' P i =
      sbind (on_pool pool_allocate_page) (\<lambda>q.
        sthen (write_node L P (Internal \<lparr>in_parent = ctx_parent c, in_keys = K1, in_children = map pid C1\<rparr>))
        (sthen (write_node L q (Internal \<lparr>in_parent = ctx_parent c, in_keys = K2, in_children = map pid C2\<rparr>))
        (sthen (for_each (reparent L q) (map pid C2)) (?cont q))))"
    proof -
      have eqs: "in_parent i = ctx_parent c" "take mid (in_keys i) = K1" "drop (mid + 1) (in_keys i) = K2"
        "in_keys i ! mid = m" "take (mid + 1) (in_children i) = map pid C1"
        "drop (mid + 1) (in_children i) = map pid C2"
        by (simp_all add: i_def parts take_map drop_map del: map_append list.map)
      show ?thesis
        using split_internal_unfold [of i mid n' P] mid wf unfolding eqs by (simp add: i_def mid_def)
    qed
    have "runs (split_internal_and_insert L n' P i) t1 ?Q"
      unfolding prog
    proof (rule split_internal_steps [OF t1(1) room _ K C fits])
      show "hole_ok (nodes t1) (bt_size t1) (root_page_id t1) ?c k lt rt"
        using hole t1 by simp
      fix t2
      let ?lt = "Nd P K1 C1" and ?rt = "Nd (bt_size t1) K2 C2"
      assume t2: "steady t2" "bt_size t2 = bt_size t1 + 1" "root_page_id t2 = root_page_id t1"
        "hole_ok (nodes t2) (bt_size t2) (root_page_id t2) c m ?lt ?rt"
        "\<forall>q. q \<notin> {P, bt_size t1} \<union> pid ` set C2 \<longrightarrow> bview t2 q = bview t1 q"
      have "\<forall>u\<in>set (C1 @ C2). balanced h u"
        using Cons.prems(7-9) unfolding C(1) [symmetric] by (auto simp: f)
      then have bal: "balanced (Suc h) ?lt" "balanced (Suc h) ?rt" "ctx_balanced (Suc h) c"
        using Cons.prems(9) by (auto simp: f)
      have rec: "ctx_left recs c @ recs ?lt @ recs ?rt @ ctx_right recs c =
          ctx_left recs ?c @ recs lt @ recs rt @ ctx_right recs ?c"
        using arg_cong [OF C(1), of "\<lambda>ts. concat (map recs ts)"] by simp
      have sz: "unat (bt_size t2) = Suc (unat (bt_size t))" "bt_size t \<le> bt_size t2"
        using t2(2) t1(4) unat_plus_1 [OF room] by (simp_all add: word_le_nat_alt)
      have sub: "set (pids ?lt @ pids ?rt @ ctx_pids c) \<subseteq> D \<union> {bt_size t}" "pid ` set C2 \<subseteq> D"
      proof -
        have "set (concat (map pids C1)) \<union> set (concat (map pids C2)) = set (concat (map pids ?C))"
          unfolding C(1) by simp
        moreover have "pid ` set C2 \<subseteq> set (concat (map pids C2))"
          by (auto intro: pid_in_pids)
        moreover have "set (concat (map pids ?C)) \<subseteq> D"
          by (auto simp: D)
        ultimately have s: "set (concat (map pids C1)) \<subseteq> D" "set (concat (map pids C2)) \<subseteq> D" "pid ` set C2 \<subseteq> D"
          by blast+
        have "P \<in> D" "set (ctx_pids c) \<subseteq> D"
          by (auto simp: D)
        then show "set (pids ?lt @ pids ?rt @ ctx_pids c) \<subseteq> D \<union> {bt_size t}"
          using s(1,2) t1(4) unfolding pids.simps set_append list.set(2) by blast
        show "pid ` set C2 \<subseteq> D"
          by (rule s(3))
      qed
      have zero: "0 \<notin> D"
        using rng [of 0] by blast
      have "0 \<notin> pid ` set C2"
        using zero sub(2) by (rule contra_subsetD [rotated])
      moreover have "P \<noteq> 0" "bt_size t1 \<noteq> 0"
        using rng [of P] steadyD(3) [OF t1(1)] by (auto simp: D)
      ultimately have "0 \<notin> {P, bt_size t1} \<union> pid ` set C2"
        by simp
      then have meta: "meta_root (bview t2 0) = root_page_id t2"
        using t2(3,5) t1 Cons.prems(3) by auto
      have frame: "framed D t t3 T" if "framed (set (pids ?lt @ pids ?rt @ ctx_pids c)) t2 t3 T" for t3 T
        by (rule framed_trans [OF _ sz(2) that, of "{P, bt_size t1} \<union> pid ` set C2"])
          (use t2(5) t1 sub in auto)
      show "runs (?cont (bt_size t1)) t2 ?Q"
      proof (cases c)
        case Nil
        have "bt_size t2 \<noteq> U32_MAX"
          using sz(1) Cons.prems(6) f by auto
        then have "runs (grow_internal_root L P \<lparr>in_parent = None, in_keys = K1, in_children = map pid C1\<rparr> m (bt_size t1)) t2
          (\<lambda>_ t'. \<exists>T. good t' T \<and> recs T = recs ?lt @ recs ?rt \<and> framed (set (pids ?lt @ pids ?rt)) t2 t' T \<and>
             (\<forall>h. balanced h ?lt \<longrightarrow> balanced h ?rt \<longrightarrow> balanced (Suc h) T) \<and> bt_size t' = bt_size t2 + 1)"
          using grow_internal_hole [OF t2(4) [unfolded Nil] t2(1)] by simp
        then show ?thesis
          by (simp only: Nil ctx_parent.simps option.case, rule runs_mono)
            (use rec frame sz bal unat_plus_1 [OF \<open>bt_size t2 \<noteq> U32_MAX\<close>] in \<open>auto simp: Nil simp del: balanced.simps\<close>)
      next
        case (Cons g c')
        obtain P' where P': "ctx_parent c = Some P'"
          using Cons by (cases g) auto
        obtain n'' where n': "n' = Suc n''" "2 * length c \<le> Suc n''"
          using Cons.prems(5) n f Cons by (cases n') auto
        have "runs (insert_into_internal L n'' P' m (pid ?rt)) t2 (\<lambda>_ t'. \<exists>T. good t' T \<and>
            recs T = ctx_left recs c @ recs ?lt @ recs ?rt @ ctx_right recs c \<and>
            framed (set (pids ?lt @ pids ?rt @ ctx_pids c)) t2 t' T \<and>
            (balanced (Suc h + length c) T \<or> balanced (Suc (Suc h + length c)) T) \<and>
            unat (bt_size t') \<le> unat (bt_size t2) + length c + 1)"
          by (rule Cons.IH [OF t2(1,4) meta P' n'(2) _ bal]) (use sz(1) Cons.prems(6) f in simp)
        then show ?thesis
          unfolding P' n'(1) option.case nat.case tree.simps pid.simps
          by (rule runs_mono) (use rec frame sz in auto)
      qed
    qed
    then show ?thesis
      using step True n by (auto simp: runs_def f D)
  qed
qed

end

section \<open>Splitting a leaf\<close>

lemma encoded_size_leaf [simp]:
  "encoded_size (Leaf \<lparr>lf_parent = par, lf_next = nx, lf_records = rs\<rparr>) = 11 + record_bytes rs"
  by simp

context tree_pool
begin

lemma grow_leaf_hole:
  assumes hole: "hole_ok (nodes t) (bt_size t) r [] k (Lf p nx rl) (Lf q ny rr)"
    and t: "steady t" "bt_size t \<noteq> U32_MAX"
  shows "runs (grow_leaf_root L p \<lparr>lf_parent = None, lf_next = nx, lf_records = rl\<rparr> k q) t
    (\<lambda>_ t'. \<exists>T. good t' T \<and> recs T = rl @ rr \<and> framed {p, q} t t' T \<and> balanced 1 T \<and> bt_size t' = bt_size t + 1)"
proof -
  have n: "nodes t p = Leaf \<lparr>lf_parent = None, lf_next = nx, lf_records = rl\<rparr>"
    "nodes t q = Leaf \<lparr>lf_parent = None, lf_next = ny, lf_records = rr\<rparr>"
    using hole by (auto simp: hole_ok_def)
  have f: "set_parent_if_leaf R (nodes t (pid (Lf q ny rr))) = set_parent R (nodes t (pid (Lf q ny rr)))" for R
    by (simp add: n set_parent_if_leaf_def)
  have "runs (grow_leaf_root L p \<lparr>lf_parent = None, lf_next = nx, lf_records = rl\<rparr> k q) t
    (\<lambda>_ t'. \<exists>T. good t' T \<and> recs T = recs (Lf p nx rl) @ recs (Lf q ny rr) \<and>
       framed (set (pids (Lf p nx rl) @ pids (Lf q ny rr))) t t' T \<and>
       (\<forall>h. balanced h (Lf p nx rl) \<longrightarrow> balanced h (Lf q ny rr) \<longrightarrow> balanced (Suc h) T) \<and> bt_size t' = bt_size t + 1)"
    using grow_hole [where f = set_parent_if_leaf, OF hole t f] n by (simp add: grow_leaf_root_def)
  then show ?thesis
    by (rule runs_mono) auto
qed

text \<open>The records of an overfull leaf are cut in two halves that fit.\<close>

lemma overfull_halves:
  assumes "recs_ok c rs" "PAGE_SIZE < 11 + record_bytes rs" "11 + record_bytes rs \<le> PAGE_SIZE + 8 + SMALL"
  obtains rl k v rr where "rs = rl @ (k, v) # rr" "rl \<noteq> []" "take (length rs div 2) rs = rl"
    "drop (length rs div 2) rs = (k, v) # rr" "11 + record_bytes rl \<le> PAGE_SIZE"
    "11 + record_bytes ((k, v) # rr) \<le> PAGE_SIZE"
proof -
  have small: "\<forall>(k, v)\<in>set rs. length k + length v \<le> SMALL"
    using assms(1) by (simp add: recs_ok_def)
  have "record_bytes rs \<le> 176 * length rs"
    using small sum_list_bounds [of rs 0 "\<lambda>(k, v). 4 + length k + 4 + length v" 176] by fastforce
  then have len: "2 \<le> length rs"
    using assms(2) by simp
  then obtain k v rr where d: "drop (length rs div 2) rs = (k, v) # rr"
    by (cases "drop (length rs div 2) rs") auto
  show ?thesis
  proof (rule that [of "take (length rs div 2) rs" k v rr])
    show "rs = take (length rs div 2) rs @ (k, v) # rr"
      using append_take_drop_id [of "length rs div 2" rs] unfolding d by (rule sym)
    show "take (length rs div 2) rs \<noteq> []"
      using len by auto
  qed (use d split_leaf_fits [OF small refl assms(3)] in simp_all)
qed

lemma split_leaf_spec:
  assumes T: "good t (plug (Lf p nx rs) c)" "ctx_wf c" and rs': "recs_ok c rs'"
    and size: "PAGE_SIZE < 11 + record_bytes rs'" "11 + record_bytes rs' \<le> PAGE_SIZE + 8 + SMALL"
    and room: "unat (bt_size t) + length c + 2 < 2 ^ 32" and bal: "ctx_balanced 0 c"
  shows "runs (split_leaf_and_insert L p \<lparr>lf_parent = ctx_parent c, lf_next = nx, lf_records = rs'\<rparr>) t
    (\<lambda>_ t'. \<exists>T. good t' T \<and> recs T = ctx_left recs c @ rs' @ ctx_right recs c \<and>
       framed (set (pids (plug (Lf p nx rs) c))) t t' T \<and>
       (balanced (length c) T \<or> balanced (Suc (length c)) T) \<and>
       unat (bt_size t') \<le> unat (bt_size t) + length c + 2)"
proof -
  have ok: "steady t" "tree_ok (nodes t) (bt_size t) (root_page_id t) (plug (Lf p nx rs) c)"
    "meta_root (bview t 0) = root_page_id t"
    using T(1) by (auto simp: good_def)
  note leaf = tree_ok_leaf [OF ok(2) T(2)]
  obtain rl k v rr where h: "rs' = rl @ (k, v) # rr" "rl \<noteq> []" "take (length rs' div 2) rs' = rl"
    "drop (length rs' div 2) rs' = (k, v) # rr" "11 + record_bytes rl \<le> PAGE_SIZE"
    "11 + record_bytes ((k, v) # rr) \<le> PAGE_SIZE"
    by (rule overfull_halves [OF rs' size])
  let ?par = "ctx_parent c"
  let ?n = "bt_size t"
  have n_max: "?n \<noteq> U32_MAX" and sz: "unat (?n + 1) = Suc (unat ?n)"
    using room by (auto simp: unat_word_ariths)
  have lt: "?n < ?n + 1" "p < ?n + 1"
    using sz leaf(4) by (simp_all add: word_less_nat_alt)
  have ptr: "?par \<noteq> Some U32_MAX" "nx \<noteq> Some U32_MAX"
    using from_page_pointers(1) [of "bview t p" "\<lparr>lf_parent = ?par, lf_next = nx, lf_records = rs\<rparr>"] leaf(2)
    by (auto simp: bt_nodes_def)
  obtain t1 where 1: "on_pool pool_allocate_page t = (Inr ?n, t1)" "steady t1" "bview t1 = bview t"
    "bt_size t1 = ?n + 1" "root_page_id t1 = root_page_id t"
    using alloc_spec [OF ok(1) n_max] by (auto simp: runs_def)
  obtain t2 where 2: "write_node L p (Leaf \<lparr>lf_parent = ?par, lf_next = Some ?n, lf_records = rl\<rparr>) t1 = (Inr (), t2)"
    "wrote {p} t1 t2" "nodes t2 p = Leaf \<lparr>lf_parent = ?par, lf_next = Some ?n, lf_records = rl\<rparr>"
    using write_node_spec [OF 1(2) leaf(3), of "Leaf \<lparr>lf_parent = ?par, lf_next = Some ?n, lf_records = rl\<rparr>"]
      lt(2) 1(4) h(5) ptr n_max by (auto simp: runs_def)
  have s2: "steady t2" "bt_size t2 = ?n + 1" "root_page_id t2 = root_page_id t"
    using wroteD [OF 2(2)] 1 by auto
  have n0: "0 < ?n"
    using steadyD(3) [OF ok(1)] .
  obtain t3 where 3: "write_node L ?n (Leaf \<lparr>lf_parent = ?par, lf_next = nx, lf_records = (k, v) # rr\<rparr>) t2 = (Inr (), t3)"
    "wrote {?n} t2 t3" "nodes t3 ?n = Leaf \<lparr>lf_parent = ?par, lf_next = nx, lf_records = (k, v) # rr\<rparr>"
    using write_node_spec [OF s2(1) n0, of "Leaf \<lparr>lf_parent = ?par, lf_next = nx, lf_records = (k, v) # rr\<rparr>"]
      lt(1) s2(2) h(6) ptr by (auto simp: runs_def)
  have s3: "steady t3" "bt_size t3 = ?n + 1" "root_page_id t3 = root_page_id t"
    using wroteD [OF 3(2)] s2 by auto
  have view: "\<forall>q. q \<notin> {p, ?n} \<longrightarrow> bview t3 q = bview t q"
    using wrote_trans [OF 2(2) 3(2)] 1(3) by (auto simp: wrote_def)
  have p: "nodes t3 p = Leaf \<lparr>lf_parent = ?par, lf_next = Some ?n, lf_records = rl\<rparr>"
    using wrote_nodes [OF 3(2), of p] 2(3) leaf(4) by auto
  have hole: "hole_ok (nodes t3) (bt_size t3) (root_page_id t3) c k (Lf p (Some ?n) rl) (Lf ?n nx ((k, v) # rr))"
    unfolding s3
  proof (rule leaf_hole [OF ok(2) T(2) _ h(2) p 3(3)])
    show "recs_ok c (rl @ (k, v) # rr)"
      using rs' h(1) by simp
    show "nodes t3 x = nodes t x" if "x \<noteq> p" "x \<noteq> ?n" for x
      using view that by (intro bview_nodes) auto
  qed (use lt in auto)
  have meta: "meta_root (bview t3 0) = root_page_id t3"
    using view leaf(3) n0 ok(3) s3(3) by auto
  define D where "D = set (pids (plug (Lf p nx rs) c))"
  have D: "D = insert p (set (ctx_pids c))"
    by (simp add: D_def set_pids_plug)
  have frame: "framed D t t' T" if "framed (insert p (insert ?n (set (ctx_pids c)))) t3 t' T" for t' T
    by (rule framed_trans [OF view _ that]) (use s3(2) lt in \<open>auto simp: D\<close>)
  show ?thesis
  proof (cases "?par")
    case None
    then have c: "c = []"
      by (cases c) auto
    have "runs (grow_leaf_root L p \<lparr>lf_parent = None, lf_next = Some ?n, lf_records = rl\<rparr> k ?n) t3
      (\<lambda>_ t'. \<exists>T. good t' T \<and> recs T = rl @ (k, v) # rr \<and> framed {p, ?n} t3 t' T \<and> balanced 1 T \<and>
         bt_size t' = bt_size t3 + 1)"
      by (rule grow_leaf_hole) (use hole c s3 room sz in \<open>auto simp: unat_word_ariths\<close>)
    then obtain t' T where 4: "grow_leaf_root L p \<lparr>lf_parent = None, lf_next = Some ?n, lf_records = rl\<rparr> k ?n t3 = (Inr (), t')"
      "good t' T" "recs T = rl @ (k, v) # rr" "framed {p, ?n} t3 t' T" "balanced 1 T"
      "bt_size t' = ?n + 1 + 1"
      using s3(2) by (auto simp: runs_def)
    have "unat (?n + 1 + 1) \<le> unat ?n + 2"
      using sz by (simp add: unat_word_ariths)
    then show ?thesis
      using 4 frame [of t' T] c h None
      by (auto simp: runs_def split_leaf_and_insert_def Let_def 1(1) 2(1) [unfolded None] 3(1) [unfolded None] D_def)
  next
    case (Some P)
    have "length c < unat ?n"
      using ctx_size [OF ok(2)] .
    then have fuel: "2 * length c \<le> Suc (walk_fuel t3)"
      using s3(2) sz by (simp add: walk_fuel_def)
    obtain t' T where 4: "insert_into_internal L (walk_fuel t3) P k ?n t3 = (Inr (), t')" "good t' T"
      "recs T = ctx_left recs c @ rl @ (k, v) # rr @ ctx_right recs c"
      "framed (insert p (insert ?n (set (ctx_pids c)))) t3 t' T"
      "balanced (0 + length c) T \<or> balanced (Suc (0 + length c)) T"
      "unat (bt_size t') \<le> unat (bt_size t3) + length c + 1"
      using propagate_spec [OF s3(1) hole meta Some fuel _ _ _ bal] room s3(2) sz by (auto simp: runs_def)
    show ?thesis
      using 4 frame [of t' T] h Some s3(2) sz
      by (auto simp: runs_def split_leaf_and_insert_def Let_def 1(1) 2(1) [unfolded Some] 3(1) [unfolded Some] D_def)
  qed
qed

end

end
