(* ===== verification/BTreeOps.thy ===== *)
theory BTreeOps
  imports BTreeMap
begin

text \<open>
  The operations of the B+ tree as operations on a sorted map. \<open>holding t T es\<close> says that the
  pages of \<open>t\<close> carry the tree \<open>T\<close> and that its records, with the values on overflow pages
  resolved, are the entries \<open>es\<close>. \<open>insert\<close>, \<open>search\<close>, \<open>scan_prefix\<close> and \<open>delete\<close> are shown to
  be the insertion, the lookup, the selection by prefix and the removal on \<open>es\<close>.
\<close>

section \<open>Searching a leaf\<close>

lemma record_search_cases:
  assumes "sorted_keys rs"
  obtains (found) xs v ys where "rs = xs @ (k, v) # ys" "record_search rs k = Inr (length xs)"
      "\<forall>x\<in>fst ` set xs. x < k" "\<forall>y\<in>fst ` set ys. k < y"
    | (absent) xs ys where "rs = xs @ ys" "record_search rs k = Inl (length xs)"
      "\<forall>x\<in>fst ` set xs. x < k" "\<forall>y\<in>fst ` set ys. k < y"
proof -
  have sorted: "fst (rs ! i) < fst (rs ! j)" if "i < j" "j < length rs" for i j
    using sorted_wrt_nth_less [OF assms, of i j] that by simp
  have spec: "case bsearch (\<lambda>x. cmp (fst x) k) rs 0 (length rs) of
      Inr i \<Rightarrow> i < length rs \<and> fst (rs ! i) = k
    | Inl i \<Rightarrow> i \<le> length rs \<and> (\<forall>j<i. fst (rs ! j) < k) \<and>
        (\<forall>j. i \<le> j \<longrightarrow> j < length rs \<longrightarrow> k < fst (rs ! j))"
    by (rule bsearch_spec) (use sorted in auto)
  show thesis
  proof (cases "record_search rs k")
    case (Inl i)
    then have i: "i \<le> length rs" "\<forall>j<i. fst (rs ! j) < k" "\<forall>j. i \<le> j \<longrightarrow> j < length rs \<longrightarrow> k < fst (rs ! j)"
      using spec by (simp_all add: record_search_def binary_search_by_def)
    show thesis
    proof (rule absent [of "take i rs" "drop i rs"])
      have "k < fst e" if "e \<in> set (drop i rs)" for e
        using i that by (auto simp: in_set_conv_nth)
      moreover have "fst e < k" if "e \<in> set (take i rs)" for e
        using i that by (auto simp: in_set_conv_nth)
      ultimately show "\<forall>x\<in>fst ` set (take i rs). x < k" "\<forall>y\<in>fst ` set (drop i rs). k < y"
        by auto
    qed (use Inl i in auto)
  next
    case (Inr i)
    then have i: "i < length rs" "fst (rs ! i) = k"
      using spec by (simp_all add: record_search_def binary_search_by_def)
    obtain xs v ys where xs: "rs = xs @ (k, v) # ys" "length xs = i"
      using id_take_nth_drop [OF i(1)] i by (metis length_take min.absorb4 prod.collapse)
    have "\<forall>x\<in>fst ` set xs. x < k" "\<forall>y\<in>fst ` set ys. k < y"
      using assms unfolding xs(1) by (auto simp: sorted_wrt_append)
    then show thesis
      using Inr xs by (intro found [of xs v ys]) simp_all
  qed
qed

lemma record_search_lookup:
  "sorted_keys rs \<Longrightarrow>
   map_of rs k = (case record_search rs k of Inr p \<Rightarrow> Some (snd (rs ! p)) | Inl _ \<Rightarrow> None)"
  by (erule record_search_cases [where k = k])
    (auto simp: map_of_append_sorted [of _ k _ "[(k, _)]", simplified] nth_append
      map_of_append_sorted [of _ k _ "[]", simplified])

text \<open>The two ways \<open>insert\<close> changes the records of its leaf, as one function.\<close>

definition put_record :: "key \<Rightarrow> bytes \<Rightarrow> (key \<times> bytes) list \<Rightarrow> (key \<times> bytes) list" where
  "put_record key v rs =
     (let pos = search_pos (record_search rs key)
      in if pos < length rs \<and> fst (rs ! pos) = key then rs[pos := (key, v)] else list_insert pos (key, v) rs)"

lemma put_record_ins_entry:
  assumes "sorted_keys rs"
  shows "put_record k v rs = ins_entry k v rs"
  using assms
proof (cases rule: record_search_cases [where k = k])
  case (found xs v' ys)
  then show ?thesis
    using ins_entry_append [of xs k ys v "[(k, v')]"]
    by (simp add: put_record_def search_pos_def nth_append)
next
  case (absent xs ys)
  have "\<not> (length xs < length rs \<and> fst (rs ! length xs) = k)"
    using absent by (auto simp: nth_append)
  then show ?thesis
    using absent ins_entry_append [of xs k ys v "[]"]
    by (auto simp: put_record_def search_pos_def list_insert_def Let_def)
qed

lemma list_remove_del_entry:
  assumes "sorted_keys rs" "record_search rs k = Inr pos"
  shows "list_remove pos rs = del_entry k rs"
  using assms(1)
proof (cases rule: record_search_cases [where k = k])
  case (found xs v' ys)
  then show ?thesis
    using assms(2) del_entry_append [of xs k ys "[(k, v')]"]
    by (simp add: list_remove_def del_entry_def)
next
  case (absent xs ys)
  then show ?thesis
    using assms(2) by simp
qed

lemma ins_entry_bytes: "record_bytes (ins_entry k v rs) \<le> record_bytes rs + 8 + length k + length v"
  by (induction k v rs rule: ins_entry.induct) auto

lemma set_ins_entry: "set (ins_entry k v rs) \<subseteq> insert (k, v) (set rs)"
  by (induction k v rs rule: ins_entry.induct) auto

lemma recs_ok_ins_entry:
  assumes "recs_ok c rs" "ctx_lo c \<le> k" "below k (ctx_hi c)" "length k + length v \<le> SMALL"
  shows "recs_ok c (ins_entry k v rs)"
  using assms sorted_ins_entry [of rs k v] set_ins_entry [of k v rs]
  by (fastforce simp: recs_ok_def subset_iff)

lemma recs_ok_del_entry: "recs_ok c rs \<Longrightarrow> recs_ok c (del_entry k rs)"
  using sorted_del_entry [of rs k] by (auto simp: recs_ok_def del_entry_def)

section \<open>Values on overflow pages\<close>

text \<open>
  \<open>chain V p ps\<close>: the pages \<open>ps\<close> are linked from \<open>p\<close> to the end mark; \<open>holds V ps cs\<close>:
  they carry the chunks \<open>cs\<close>. A stored value stands for itself, or for the bytes on the
  pages its handle names.
\<close>

fun chain :: "(page_id \<Rightarrow> page) \<Rightarrow> page_id \<Rightarrow> page_id list \<Rightarrow> bool" where
  "chain V p [] \<longleftrightarrow> p = U32_MAX"
| "chain V p (q # ps) \<longleftrightarrow> p = q \<and> q \<noteq> U32_MAX \<and> chain V (u32_from_le (slice 0 4 (V q))) ps"

definition holds :: "(page_id \<Rightarrow> page) \<Rightarrow> page_id list \<Rightarrow> bytes list \<Rightarrow> bool" where
  "holds V = list_all2 (\<lambda>q c. slice 4 (4 + length c) (V q) = c)"

definition resolves :: "(page_id \<Rightarrow> page) \<Rightarrow> page_id list \<Rightarrow> bytes \<Rightarrow> bytes \<Rightarrow> bool" where
  "resolves V ps raw val \<longleftrightarrow>
     (is_overflow raw \<longleftrightarrow> MAX_INLINE_VAL_SIZE < length val) \<and>
     (if is_overflow raw then distinct ps \<and> unat (u32_from_le (slice 4 8 raw)) = length val \<and>
        chain V (u32_from_le (slice 8 12 raw)) ps \<and> holds V ps (chunks (PAGE_SIZE - 4) val)
      else ps = [] \<and> raw = val)"

lemma chain_cong: "chain V p ps \<Longrightarrow> (\<And>q. q \<in> set ps \<Longrightarrow> V' q = V q) \<Longrightarrow> chain V' p ps"
  by (induction ps arbitrary: p) auto

lemma holds_cong: "holds V ps cs \<Longrightarrow> (\<And>q. q \<in> set ps \<Longrightarrow> V' q = V q) \<Longrightarrow> holds V' ps cs"
  unfolding holds_def by (erule list.rel_mono_strong) simp

lemma resolves_cong: "resolves V ps raw val \<Longrightarrow> (\<And>q. q \<in> set ps \<Longrightarrow> V' q = V q) \<Longrightarrow> resolves V' ps raw val"
  unfolding resolves_def by (auto intro: chain_cong holds_cong)

context tree_pool
begin

lemma resolve_loop_spec:
  assumes "steady t" "chain (bview t) p ps" "length ps \<le> n" "holds (bview t) ps (chunks (PAGE_SIZE - 4) rest)"
    "tot = length acc + length rest"
  shows "runs (resolve_loop L n tot p acc) t (\<lambda>v t'. v = acc @ rest \<and> still t t')"
  using assms
proof (induction ps arbitrary: t p n rest acc)
  case Nil
  then have "rest = []"
    using chunks_eq_Nil_iff [of "PAGE_SIZE - 4" rest] by (simp add: holds_def)
  then show ?case
    using Nil by (cases n) (auto simp: runs_def still_refl)
next
  case (Cons q ps)
  obtain m where n: "n = Suc m" "length ps \<le> m"
    using Cons.prems(3) by (cases n) auto
  have ne: "rest \<noteq> []"
    using Cons.prems(4) by (auto simp: holds_def)
  have ch: "chunks (PAGE_SIZE - 4) rest = take (PAGE_SIZE - 4) rest # chunks (PAGE_SIZE - 4) (drop (PAGE_SIZE - 4) rest)"
    using ne by (subst chunks.simps) simp
  have p: "p = q" "q \<noteq> U32_MAX" "chain (bview t) (u32_from_le (slice 0 4 (bview t q))) ps"
    "slice 4 (4 + length (take (PAGE_SIZE - 4) rest)) (bview t q) = take (PAGE_SIZE - 4) rest"
    "holds (bview t) ps (chunks (PAGE_SIZE - 4) (drop (PAGE_SIZE - 4) rest))"
    using Cons.prems(2,4) unfolding ch by (auto simp: holds_def)
  obtain t1 where 1: "on_pool (pool_read L q) t = (Inr (bview t q), t1)" "still t t1"
    using pool_read_spec [OF Cons.prems(1), of q] by (auto simp: runs_def)
  have s1: "steady t1" "bview t1 = bview t"
    using 1(2) by (auto simp: still_def)
  have len: "min (tot - length acc) (PAGE_SIZE - 4) = length (take (PAGE_SIZE - 4) rest)"
    using Cons.prems(5) by simp
  have "runs (resolve_loop L m tot (u32_from_le (slice 0 4 (bview t q))) (acc @ take (PAGE_SIZE - 4) rest)) t1
      (\<lambda>v t'. v = (acc @ take (PAGE_SIZE - 4) rest) @ drop (PAGE_SIZE - 4) rest \<and> still t1 t')"
    by (rule Cons.IH) (use p n s1 Cons.prems(5) in simp_all)
  then obtain t2 where 2: "resolve_loop L m tot (u32_from_le (slice 0 4 (bview t q)))
      (acc @ take (PAGE_SIZE - 4) rest) t1 = (Inr (acc @ rest), t2)" "still t1 t2"
    by (auto simp: runs_def)
  have "resolve_loop L n tot p acc t = (Inr (acc @ rest), t2)"
    unfolding n(1) resolve_loop.simps p(1) using p(2)
    by (simp only: if_False sbind_Inr [where m = "on_pool (pool_read L q)", OF 1(1)] Let_def len p(4) 2(1))
  then show ?case
    using still_trans [OF 1(2) 2(2)] by (simp add: runs_def)
qed

lemma resolve_spec:
  assumes "steady t" "resolves (bview t) ps raw val" "\<forall>p\<in>set ps. p < bt_size t"
  shows "runs (read_value_resolve_overflow L raw) t (\<lambda>v t'. v = val \<and> still t t')"
proof (cases "is_overflow raw")
  case True
  then have r: "distinct ps" "unat (u32_from_le (slice 4 8 raw)) = length val"
    "chain (bview t) (u32_from_le (slice 8 12 raw)) ps" "holds (bview t) ps (chunks (PAGE_SIZE - 4) val)"
    using assms(2) by (auto simp: resolves_def)
  have "length ps \<le> walk_fuel t"
    using length_distinct_below [OF r(1) assms(3)] by (simp add: walk_fuel_def)
  from resolve_loop_spec [OF assms(1) r(3) this r(4), where acc = "[]" and tot = "length val"]
  show ?thesis
    using True r(2) by (simp add: read_value_resolve_overflow_def runs_def)
next
  case False
  then show ?thesis
    using assms by (simp add: read_value_resolve_overflow_def resolves_def runs_def still_refl)
qed

end

lemma rev_enumerate_snoc: "rev (enumerate 0 (cs @ [d])) = (length cs, d) # rev (enumerate 0 cs)"
  by (simp add: enumerate_append_eq)

context tree_pool
begin

text \<open>Pages that are not new keep their contents.\<close>

definition added :: "'c btree \<Rightarrow> 'c btree \<Rightarrow> bool" where
  "added t t' \<longleftrightarrow> steady t' \<and> root_page_id t' = root_page_id t \<and> bt_size t \<le> bt_size t' \<and>
     (\<forall>q<bt_size t. bview t' q = bview t q)"

lemma added_refl: "steady t \<Longrightarrow> added t t"
  by (simp add: added_def)

lemma added_trans: "added s t \<Longrightarrow> added t u \<Longrightarrow> added s u"
  unfolding added_def by (auto intro: order_trans less_le_trans)

lemma write_chunk_spec:
  assumes "steady t" "unat (bt_size t) + 1 < 2 ^ 32" "length d \<le> PAGE_SIZE - 4"
  obtains t1 t2 pg where "on_pool pool_allocate_page t = (Inr (bt_size t), t1)"
    "rbind (write_slice 0 (u32_to_le nxt) blank_page) (write_slice 4 d) = Inr pg"
    "on_pool (pool_write_page L (bt_size t) pg) t1 = (Inr (), t2)"
    "added t t2" "unat (bt_size t2) = Suc (unat (bt_size t))" "bt_size t < bt_size t2"
    "u32_from_le (slice 0 4 (bview t2 (bt_size t))) = nxt"
    "slice 4 (4 + length d) (bview t2 (bt_size t)) = d"
proof -
  let ?n = "bt_size t"
  have n: "?n \<noteq> U32_MAX" "unat (?n + 1) = Suc (unat ?n)"
    using assms(2) by (auto simp: unat_word_ariths)
  have lt: "?n < ?n + 1"
    using n(2) by (simp add: word_less_nat_alt)
  have n0: "0 < ?n"
    using steadyD(3) [OF assms(1)] .
  obtain t1 where 1: "on_pool pool_allocate_page t = (Inr ?n, t1)" "steady t1" "bview t1 = bview t"
    "bt_size t1 = ?n + 1" "root_page_id t1 = root_page_id t"
    using alloc_spec [OF assms(1) n(1)] by (auto simp: runs_def)
  define pg where "pg = patch 4 d (patch 0 (u32_to_le nxt) blank_page)"
  have len: "length blank_page = PAGE_SIZE"
    by (simp add: blank_page_def)
  have pg: "rbind (write_slice 0 (u32_to_le nxt) blank_page) (write_slice 4 d) = Inr pg" "length pg = PAGE_SIZE"
    using assms(3) len by (simp_all add: write_slice_def pg_def)
  have cells: "slice 0 4 pg = u32_to_le nxt" "slice 4 (4 + length d) pg = d"
    using assms(3) len by (simp_all add: pg_def slice_patch_before slice_patch_same)
  obtain t2 where 2: "on_pool (pool_write_page L ?n pg) t1 = (Inr (), t2)" "wrote {?n} t1 t2" "bview t2 ?n = pg"
    using pool_write_spec [OF 1(2), of ?n pg] 1(4) lt pg(2) n0 by (auto simp: runs_def word_gt_0)
  show thesis
  proof (rule that [OF 1(1) pg(1) 2(1)])
    show "added t t2"
      using 2(2) 1 lt by (auto simp: added_def wrote_def)
  qed (use 2 1 n lt cells wroteD [OF 2(2)] in auto)
qed

lemma write_chunks_spec:
  assumes "steady t" "unat (bt_size t) + length cs < 2 ^ 32" "\<forall>c\<in>set cs. length c \<le> PAGE_SIZE - 4"
    "chain (bview t) (id_or_max prev) ps" "holds (bview t) ps ds" "distinct ps" "\<forall>p\<in>set ps. b \<le> p \<and> p < bt_size t"
    "b \<le> bt_size t" "cs = [] \<longrightarrow> first = id_or_max prev"
  shows "runs (write_chunks L (rev (enumerate 0 cs)) prev first) t (\<lambda>h t'. added t t' \<and>
    unat (bt_size t') = unat (bt_size t) + length cs \<and>
    (\<exists>qs. chain (bview t') h qs \<and> holds (bview t') qs (cs @ ds) \<and> distinct qs \<and>
       (\<forall>q\<in>set qs. b \<le> q \<and> q < bt_size t')))"
  using assms
proof (induction cs arbitrary: t prev ps ds first rule: rev_induct)
  case Nil
  then show ?case
    by (auto simp: runs_def added_refl)
next
  case (snoc d cs)
  let ?n = "bt_size t"
  let ?first = "if length cs = 0 then ?n else first"
  have room: "unat ?n + 1 < 2 ^ 32" and d: "length d \<le> PAGE_SIZE - 4"
    using snoc.prems(2,3) by auto
  obtain t1 t2 pg where 1: "on_pool pool_allocate_page t = (Inr ?n, t1)"
    "rbind (write_slice 0 (u32_to_le (id_or_max prev)) blank_page) (write_slice 4 d) = Inr pg"
    "on_pool (pool_write_page L ?n pg) t1 = (Inr (), t2)"
    "added t t2" "unat (bt_size t2) = Suc (unat ?n)" "?n < bt_size t2"
    "u32_from_le (slice 0 4 (bview t2 ?n)) = id_or_max prev"
    "slice 4 (4 + length d) (bview t2 ?n) = d"
    by (rule write_chunk_spec [OF snoc.prems(1) room d])
  have same: "bview t2 q = bview t q" if "q \<in> set ps" for q
    using 1(4) snoc.prems(7) that by (simp add: added_def)
  have n_max: "?n \<noteq> U32_MAX"
    using room by auto
  have IH: "runs (write_chunks L (rev (enumerate 0 cs)) (Some ?n) ?first) t2 (\<lambda>h t'. added t2 t' \<and>
    unat (bt_size t') = unat (bt_size t2) + length cs \<and>
    (\<exists>qs. chain (bview t') h qs \<and> holds (bview t') qs (cs @ d # ds) \<and> distinct qs \<and>
       (\<forall>q\<in>set qs. b \<le> q \<and> q < bt_size t')))"
  proof (rule snoc.IH [where ps = "?n # ps"])
    show "steady t2"
      using 1(4) by (simp add: added_def)
    show "chain (bview t2) (id_or_max (Some ?n)) (?n # ps)"
      using n_max 1(7) chain_cong [OF snoc.prems(4) same] by (simp add: id_or_max_def)
    show "holds (bview t2) (?n # ps) (d # ds)"
      using 1(8) holds_cong [OF snoc.prems(5) same] by (simp add: holds_def)
    show "distinct (?n # ps)"
      using snoc.prems(6,7) by auto
    show "\<forall>p\<in>set (?n # ps). b \<le> p \<and> p < bt_size t2"
      using snoc.prems(7,8) 1(6) by auto
    show "b \<le> bt_size t2"
      using snoc.prems(8) 1(6) by simp
    show "cs = [] \<longrightarrow> ?first = id_or_max (Some ?n)"
      by (simp add: id_or_max_def)
  qed (use snoc.prems(2,3) 1(5) in auto)
  then obtain h t' qs where 2: "write_chunks L (rev (enumerate 0 cs)) (Some ?n) ?first t2 = (Inr h, t')"
    "added t2 t'" "unat (bt_size t') = unat (bt_size t2) + length cs"
    "chain (bview t') h qs" "holds (bview t') qs (cs @ d # ds)" "distinct qs"
    "\<forall>q\<in>set qs. b \<le> q \<and> q < bt_size t'"
    by (auto simp: runs_def)
  have "write_chunks L (rev (enumerate 0 (cs @ [d]))) prev first t = (Inr h, t')"
    unfolding rev_enumerate_snoc 2(1) [symmetric] by (simp add: 1(1-3) Let_def)
  then show ?case
    using 2 added_trans [OF 1(4) 2(2)] 1(5) by (auto simp: runs_def)
qed

lemma is_overflow_handle: "is_overflow (overflow_handle val p)"
  "slice 4 8 (overflow_handle val p) = u32_to_le (of_nat (length val))"
  "slice 8 12 (overflow_handle val p) = u32_to_le p"
  "length (overflow_handle val p) = 12"
  by (simp_all add: is_overflow_def overflow_handle_def OVERFLOW_MAGIC_def slice_def)

lemma write_overflow_spec:
  assumes "steady t" "MAX_INLINE_VAL_SIZE < length val" "length val < 2 ^ 32"
    "unat (bt_size t) + length (chunks (PAGE_SIZE - 4) val) < 2 ^ 32"
  shows "runs (write_overflow_value L val) t (\<lambda>h t'. added t t' \<and> length h = 12 \<and>
    unat (bt_size t') = unat (bt_size t) + length (chunks (PAGE_SIZE - 4) val) \<and>
    (\<exists>ps. resolves (bview t') ps h val \<and> (\<forall>p\<in>set ps. bt_size t \<le> p \<and> p < bt_size t')))"
proof -
  let ?cs = "chunks (PAGE_SIZE - 4) val"
  have ne: "?cs \<noteq> []"
    using assms(2) chunks_eq_Nil_iff [of "PAGE_SIZE - 4" val] by auto
  have "runs (write_chunks L (rev (enumerate 0 ?cs)) None 0) t (\<lambda>h t'. added t t' \<and>
    unat (bt_size t') = unat (bt_size t) + length ?cs \<and>
    (\<exists>qs. chain (bview t') h qs \<and> holds (bview t') qs (?cs @ []) \<and> distinct qs \<and>
       (\<forall>q\<in>set qs. bt_size t \<le> q \<and> q < bt_size t')))"
    by (rule write_chunks_spec [where ps = "[]"])
      (use assms ne length_chunk [of _ "PAGE_SIZE - 4" val] in \<open>auto simp: id_or_max_def holds_def\<close>)
  then obtain h t' qs where 1: "write_chunks L (rev (enumerate 0 ?cs)) None 0 t = (Inr h, t')" "added t t'"
    "unat (bt_size t') = unat (bt_size t) + length ?cs" "chain (bview t') h qs" "holds (bview t') qs ?cs"
    "distinct qs" "\<forall>q\<in>set qs. bt_size t \<le> q \<and> q < bt_size t'"
    by (auto simp: runs_def)
  have "resolves (bview t') qs (overflow_handle val h) val"
    using 1 assms(2,3) by (simp add: resolves_def is_overflow_handle unat_of_nat)
  then show ?thesis
    using 1 by (auto simp: runs_def write_overflow_value_def is_overflow_handle)
qed

end

section \<open>The tree as a map\<close>

definition bt_spare :: "'c btree \<Rightarrow> tree \<Rightarrow> page_id set" where
  "bt_spare t T = {p. 0 < p \<and> p < bt_size t \<and> p \<notin> set (pids T)}"

definition entries :: "(page_id \<Rightarrow> page) \<Rightarrow> page_id set \<Rightarrow> (key \<times> bytes) list \<Rightarrow> (key \<times> bytes) list \<Rightarrow> bool" where
  "entries V C = list_all2 (\<lambda>r e. fst r = fst e \<and> (\<exists>ps. set ps \<subseteq> C \<and> resolves V ps (snd r) (snd e)))"

text \<open>
  \<open>bt_map L ok lsn t h es\<close>: the tree \<open>t\<close> is balanced with height \<open>h\<close> and stands for the entries
  \<open>es\<close>, in key order. Overflow pages are pages that are not part of the tree.
\<close>

definition bt_map :: "'c cache_ops \<Rightarrow> ('c \<Rightarrow> bool) \<Rightarrow> u64 \<Rightarrow> 'c btree \<Rightarrow> nat \<Rightarrow> (key \<times> bytes) list \<Rightarrow> bool" where
  "bt_map L ok lsn t h es \<longleftrightarrow> bt_steady L ok lsn t \<and> meta_root (bt_view L t 0) = root_page_id t \<and>
     (\<exists>T. tree_ok (bt_nodes L t) (bt_size t) (root_page_id t) T \<and> balanced h T \<and>
        entries (bt_view L t) (bt_spare t T) (recs T) es)"

lemma entries_keys: "entries V C rs es \<Longrightarrow> map fst rs = map fst es"
  unfolding entries_def by (induction rule: list_all2_induct) auto

lemma entries_cong:
  assumes "entries V C rs es" "\<And>q. q \<in> C \<Longrightarrow> q \<in> C' \<and> V' q = V q"
  shows "entries V' C' rs es"
  using assms(1) unfolding entries_def
proof (rule list.rel_mono_strong)
  fix r e :: "key \<times> bytes"
  assume "fst r = fst e \<and> (\<exists>ps. set ps \<subseteq> C \<and> resolves V ps (snd r) (snd e))"
  then obtain ps where "fst r = fst e" "set ps \<subseteq> C" "resolves V ps (snd r) (snd e)"
    by blast
  then show "fst r = fst e \<and> (\<exists>ps. set ps \<subseteq> C' \<and> resolves V' ps (snd r) (snd e))"
    using assms(2) resolves_cong [of V ps "snd r" "snd e" V'] by blast
qed

lemma entries_ins:
  assumes "entries V C rs es" "set ps \<subseteq> C" "resolves V ps raw val"
  shows "entries V C (ins_entry k raw rs) (ins_entry k val es)"
  using assms(1) unfolding entries_def
proof (induction rule: list_all2_induct)
  case Nil
  then show ?case using assms(2,3) by auto
next
  case (Cons r rs e es)
  then show ?case using assms(2,3) by (cases r; cases e) auto
qed

lemma entries_del: "entries V C rs es \<Longrightarrow> entries V C (del_entry k rs) (del_entry k es)"
  unfolding entries_def del_entry_def by (induction rule: list_all2_induct) auto

lemma entries_lookup:
  assumes "entries V C rs es"
  shows "map_of rs k = None \<and> map_of es k = None \<or>
    (\<exists>raw val ps. map_of rs k = Some raw \<and> map_of es k = Some val \<and> set ps \<subseteq> C \<and> resolves V ps raw val)"
  using assms unfolding entries_def
proof (induction rule: list_all2_induct)
  case Nil
  then show ?case by simp
next
  case (Cons r rs e es)
  then show ?case by (cases r; cases e) auto
qed

text \<open>The size of a value as a leaf stores it, and the pages it takes besides.\<close>

definition stored_size :: "bytes \<Rightarrow> nat" where
  "stored_size val = (if MAX_INLINE_VAL_SIZE < length val then 12 else length val)"

definition value_pages :: "bytes \<Rightarrow> nat" where
  "value_pages val = (if MAX_INLINE_VAL_SIZE < length val then length (chunks (PAGE_SIZE - 4) val) else 0)"

definition storable :: "key \<Rightarrow> bytes \<Rightarrow> bool" where
  "storable key val \<longleftrightarrow> length key + stored_size val \<le> SMALL \<and> length val < 2 ^ 32 \<and> \<not> is_overflow val"

text \<open>The old value of a key is not on overflow pages.\<close>

definition inline_at :: "key \<Rightarrow> (key \<times> bytes) list \<Rightarrow> bool" where
  "inline_at key es \<longleftrightarrow> (\<forall>old. map_of es key = Some old \<longrightarrow> length old \<le> MAX_INLINE_VAL_SIZE)"

context tree_pool
begin

abbreviation "bmap \<equiv> bt_map L ok lsn"

lemma bmapE:
  assumes "bmap t h es"
  obtains T where "good t T" "balanced h T" "entries (bview t) (bt_spare t T) (recs T) es"
  using assms by (auto simp: bt_map_def good_def)

lemma bmapI:
  "good t T \<Longrightarrow> balanced h T \<Longrightarrow> entries (bview t) (bt_spare t T) (recs T) es \<Longrightarrow> bmap t h es"
  by (auto simp: bt_map_def good_def)

lemma bmap_sorted:
  assumes "bmap t h es"
  shows "sorted_keys es"
proof -
  obtain T where T: "good t T" "entries (bview t) (bt_spare t T) (recs T) es"
    using assms by (rule bmapE)
  have "ord [] None T"
    using T(1) by (simp add: good_def tree_ok_def)
  from ord_recs(1) [OF this] show ?thesis
    unfolding entries_keys [OF T(2)] by (rule conjunct1)
qed

lemma good_still: "good t T \<Longrightarrow> still t t' \<Longrightarrow> good t' T"
  using still_nodes [of t t'] by (simp add: good_def still_def)

lemma bt_spare_still: "still t t' \<Longrightarrow> bt_spare t' T = bt_spare t T"
  by (simp add: bt_spare_def still_def)

lemma bmap_still:
  assumes "bmap t h es" "still t t'"
  shows "bmap t' h es"
proof -
  obtain T where T: "good t T" "balanced h T" "entries (bview t) (bt_spare t T) (recs T) es"
    using assms(1) by (rule bmapE)
  have "bview t' = bview t"
    using assms(2) by (simp add: still_def)
  then show ?thesis
    using bmapI [OF good_still [OF T(1) assms(2)] T(2)] T(3) bt_spare_still [OF assms(2)] by simp
qed

lemma good_added:
  assumes "good t T" "added t t'"
  shows "good t' T" "bt_spare t T \<subseteq> bt_spare t' T"
    "{p. bt_size t \<le> p \<and> p < bt_size t'} \<subseteq> bt_spare t' T"
proof -
  have T: "tree_ok (nodes t) (bt_size t) (root_page_id t) T" "meta_root (bview t 0) = root_page_id t" "steady t"
    using assms(1) by (auto simp: good_def)
  have a: "steady t'" "root_page_id t' = root_page_id t" "bt_size t \<le> bt_size t'"
    "\<And>q. q < bt_size t \<Longrightarrow> bview t' q = bview t q"
    using assms(2) by (auto simp: added_def)
  have rng: "0 < p \<and> p < bt_size t" if "p \<in> set (pids T)" for p
    using T(1) that by (simp add: tree_ok_def)
  have "stored (nodes t') None T"
    by (rule stored_cong [of "nodes t"]) (use T(1) rng a(4) in \<open>auto simp: tree_ok_def intro: bview_nodes\<close>)
  moreover have "0 < p \<and> p < bt_size t'" if "p \<in> set (pids T)" for p
    using rng [OF that] a(3) by auto
  ultimately have "tree_ok (nodes t') (bt_size t') (root_page_id t') T"
    using T(1) a(2) by (simp add: tree_ok_def)
  then show "good t' T"
    using T(2) a steadyD(3) [OF T(3)] by (simp add: good_def)
  show "bt_spare t T \<subseteq> bt_spare t' T"
    using a(3) by (auto simp: bt_spare_def)
  show "{p. bt_size t \<le> p \<and> p < bt_size t'} \<subseteq> bt_spare t' T"
  proof
    fix p
    assume p: "p \<in> {p. bt_size t \<le> p \<and> p < bt_size t'}"
    then have "\<not> p < bt_size t" "0 < p"
      using steadyD(3) [OF T(3)] by auto
    then show "p \<in> bt_spare t' T"
      using rng [of p] p by (auto simp: bt_spare_def)
  qed
qed

text \<open>A tree whose pages changed but whose spare pages did not.\<close>

lemma entries_framed:
  assumes "entries (bview t) (bt_spare t T) rs es" "framed (set (pids T)) t t' T'"
  shows "entries (bview t') (bt_spare t' T') rs es"
  by (rule entries_cong [OF assms(1)]) (use assms(2) in \<open>auto simp: bt_spare_def framed_def\<close>)

lemma locate_spec:
  assumes "good t T"
  obtains lp nx rs c t' where
    "locate L key t = (Inr (lp, \<lparr>lf_parent = ctx_parent c, lf_next = nx, lf_records = rs\<rparr>), t')"
    "still t t'" "T = plug (Lf lp nx rs) c" "ctx_wf c" "ctx_lo c \<le> key" "below key (ctx_hi c)"
proof -
  have T: "steady t" "tree_ok (nodes t) (bt_size t) (root_page_id t) T"
    using assms by (auto simp: good_def)
  obtain t1 where 1: "read_node L (root_page_id t) t = (Inr (nodes t (root_page_id t)), t1)" "still t t1"
    using read_node_spec [OF T(1)] by (auto simp: runs_def)
  have t1: "steady t1" "nodes t1 = nodes t" "bt_size t1 = bt_size t"
    using 1(2) still_nodes by (auto simp: still_def)
  have root: "pid T = root_page_id t" "stored (nodes t1) (ctx_parent []) T" "ord (ctx_lo []) (ctx_hi []) T"
    using T(2) t1 by (auto simp: tree_ok_def)
  have fuel: "length (pids T) \<le> Suc (walk_fuel t1)"
    using tree_ok_size [OF T(2)] t1(3) by (simp add: walk_fuel_def)
  have key: "ctx_lo [] \<le> key" "below key (ctx_hi [])"
    by simp_all
  obtain lp t2 c nx rs where 2: "find_leaf_for_insert L (walk_fuel t1) (pid T) (nodes t1 (pid T)) key t1 =
      (Inr (lp, \<lparr>lf_parent = ctx_parent c, lf_next = nx, lf_records = rs\<rparr>), t2)"
    "still t1 t2" "T = plug (Lf lp nx rs) c" "ctx_wf c" "ctx_lo c \<le> key" "below key (ctx_hi c)"
    using find_leaf_spec [OF t1(1) root(2) _ root(3) key fuel] by (auto simp: runs_def)
  have "locate L key t = (Inr (lp, \<lparr>lf_parent = ctx_parent c, lf_next = nx, lf_records = rs\<rparr>), t2)"
    using 2(1) unfolding root(1) t1(2) by (simp add: locate_def 1(1))
  from that [OF this still_trans [OF 1(2) 2(2)] 2(3-6)] show thesis .
qed

end

context tree_pool
begin

lemma search_spec:
  assumes "bmap t h es"
  shows "runs (bt_search L key) t (\<lambda>r t'. r = map_of es key \<and> still t t')"
proof -
  obtain T where T: "good t T" "entries (bview t) (bt_spare t T) (recs T) es"
    using assms by (rule bmapE)
  obtain lp nx rs c t1 where 1:
    "locate L key t = (Inr (lp, \<lparr>lf_parent = ctx_parent c, lf_next = nx, lf_records = rs\<rparr>), t1)"
    "still t t1" "T = plug (Lf lp nx rs) c" "ctx_wf c" "ctx_lo c \<le> key" "below key (ctx_hi c)"
    using T(1) by (rule locate_spec)
  have t1: "steady t1" "bview t1 = bview t" "bt_size t1 = bt_size t"
    using 1(2) by (auto simp: still_def)
  have ok: "tree_ok (nodes t) (bt_size t) (root_page_id t) (plug (Lf lp nx rs) c)" "ctx_ord c"
    using T(1) 1(3,4) by (auto simp: good_def tree_ok_def ord_plug)
  have sorted: "sorted_keys rs"
    using tree_ok_leaf(1) [OF ok(1) 1(4)] by (simp add: recs_ok_def)
  have look: "map_of (recs T) key = map_of rs key"
    unfolding 1(3) recs_plug recs.simps
    by (rule map_of_append_sorted) (rule ctx_separates [OF ok(2) 1(5,6)])+
  show ?thesis
  proof (cases "record_search rs key")
    case (Inl p)
    then have "map_of es key = None"
      using entries_lookup [OF T(2), of key] look record_search_lookup [OF sorted, of key] by auto
    then show ?thesis
      using Inl 1(1,2) by (simp add: bt_search_def runs_def)
  next
    case (Inr p)
    obtain val ps where v: "map_of es key = Some val" "set ps \<subseteq> bt_spare t T" "resolves (bview t) ps (snd (rs ! p)) val"
      using Inr entries_lookup [OF T(2), of key] look record_search_lookup [OF sorted, of key] by auto
    have "\<forall>p\<in>set ps. p < bt_size t1"
      using v(2) t1(3) by (auto simp: bt_spare_def)
    then obtain t2 where 2: "read_value_resolve_overflow L (snd (rs ! p)) t1 = (Inr val, t2)" "still t1 t2"
      using resolve_spec [OF t1(1), of ps "snd (rs ! p)" val] v(3) t1(2) by (auto simp: runs_def)
    then show ?thesis
      using Inr v(1) 1(1) still_trans [OF 1(2) 2(2)] by (simp add: bt_search_def runs_def)
  qed
qed

text \<open>Storing changed records in their leaf, with a split when they do not fit.\<close>

definition store_leaf :: "page_id \<Rightarrow> leaf_node \<Rightarrow> ('c btree, unit) M" where
  "store_leaf p l = (if PAGE_SIZE < encoded_size (Leaf l) then split_leaf_and_insert L p l else write_node L p (Leaf l))"

lemma write_leaf_spec:
  assumes T: "good t (plug (Lf p nx rs) c)" "ctx_wf c" and rs': "recs_ok c rs'" "11 + record_bytes rs' \<le> PAGE_SIZE"
  shows "runs (write_node L p (Leaf \<lparr>lf_parent = ctx_parent c, lf_next = nx, lf_records = rs'\<rparr>)) t
    (\<lambda>_ t'. good t' (plug (Lf p nx rs') c) \<and> framed (set (pids (plug (Lf p nx rs) c))) t t' (plug (Lf p nx rs') c) \<and>
       bt_size t' = bt_size t)"
proof -
  let ?l = "\<lparr>lf_parent = ctx_parent c, lf_next = nx, lf_records = rs'\<rparr>"
  have ok: "steady t" "tree_ok (nodes t) (bt_size t) (root_page_id t) (plug (Lf p nx rs) c)"
    "meta_root (bview t 0) = root_page_id t"
    using T(1) by (auto simp: good_def)
  note leaf = tree_ok_leaf [OF ok(2) T(2)]
  have node: "node_ok (Leaf ?l)" "encoded_size (Leaf ?l) \<le> PAGE_SIZE"
    using from_page_pointers(1) [of "bview t p" "\<lparr>lf_parent = ctx_parent c, lf_next = nx, lf_records = rs\<rparr>"]
      leaf(2) rs'(2) by (auto simp: bt_nodes_def)
  obtain t1 where 1: "write_node L p (Leaf ?l) t = (Inr (), t1)" "wrote {p} t t1" "nodes t1 p = Leaf ?l"
    using write_node_spec [OF ok(1) leaf(3,4) node] by (auto simp: runs_def)
  note w = wroteD [OF 1(2)]
  have "tree_ok (nodes t1) (bt_size t) (root_page_id t) (plug (Lf p nx rs') c)"
    by (rule leaf_update [where N' = "nodes t1", OF ok(2) T(2) rs'(1) 1(3)]) (use wrote_nodes [OF 1(2)] in auto)
  moreover have "meta_root (bview t1 0) = root_page_id t1"
    using 1(2) ok(3) leaf(3) by (auto simp: wrote_def)
  ultimately have "good t1 (plug (Lf p nx rs') c)"
    using w by (simp add: good_def)
  moreover have "framed (set (pids (plug (Lf p nx rs) c))) t t1 (plug (Lf p nx rs') c)"
    using 1(2) by (auto simp: framed_def wrote_def set_pids_plug)
  ultimately show ?thesis
    using 1(1) w by (simp add: runs_def)
qed

lemma store_leaf_spec:
  assumes T: "good t (plug (Lf p nx rs) c)" "ctx_wf c" "balanced h (plug (Lf p nx rs) c)"
    and rs': "recs_ok c rs'" "11 + record_bytes rs' \<le> PAGE_SIZE + 8 + SMALL"
    and room: "unat (bt_size t) + h + 2 < 2 ^ 32"
  shows "runs (store_leaf p \<lparr>lf_parent = ctx_parent c, lf_next = nx, lf_records = rs'\<rparr>) t
    (\<lambda>_ t'. \<exists>T. good t' T \<and> recs T = ctx_left recs c @ rs' @ ctx_right recs c \<and>
       framed (set (pids (plug (Lf p nx rs) c))) t t' T \<and> (balanced h T \<or> balanced (Suc h) T) \<and>
       unat (bt_size t') \<le> unat (bt_size t) + h + 2)"
proof -
  obtain g where h: "h = g + length c"
    using balanced_leaf_depth [OF T(3)] by (metis add.commute le_iff_add)
  have bal: "ctx_balanced 0 c" "h = length c"
    using T(3) h balanced_plug [of g c "Lf p nx rs"] by auto
  show ?thesis
  proof (cases "PAGE_SIZE < 11 + record_bytes rs'")
    case True
    have "runs (split_leaf_and_insert L p \<lparr>lf_parent = ctx_parent c, lf_next = nx, lf_records = rs'\<rparr>) t
      (\<lambda>_ t'. \<exists>T. good t' T \<and> recs T = ctx_left recs c @ rs' @ ctx_right recs c \<and>
       framed (set (pids (plug (Lf p nx rs) c))) t t' T \<and> (balanced (length c) T \<or> balanced (Suc (length c)) T) \<and>
       unat (bt_size t') \<le> unat (bt_size t) + length c + 2)"
      by (rule split_leaf_spec [OF T(1,2) rs'(1) True rs'(2) _ bal(1)]) (use room bal(2) in simp)
    then show ?thesis
      using True unfolding store_leaf_def encoded_size_leaf bal(2) by simp
  next
    case False
    have "balanced h (plug (Lf p nx rs') c)"
      using bal balanced_plug [of 0 c "Lf p nx rs'"] by simp
    then show ?thesis
      using False unfolding store_leaf_def encoded_size_leaf
      by (simp, intro runs_mono [OF write_leaf_spec [OF T(1,2) rs'(1)]]) (auto simp: recs_plug)
  qed
qed

text \<open>\<open>insert\<close>, for records that are small and whose old value was inline.\<close>

lemma free_inline:
  "\<not> is_overflow raw \<Longrightarrow> free_overflow_chain L raw = ret ()"
  by (simp add: free_overflow_chain_def)

lemma store_value_spec:
  assumes "good t T" "storable key val" "unat (bt_size t) + value_pages val < 2 ^ 32"
  obtains raw t1 ps where
    "(if MAX_INLINE_VAL_SIZE < length val then write_overflow_value L val else ret val) t = (Inr raw, t1)"
    "added t t1" "length key + length raw \<le> SMALL" "resolves (bview t1) ps raw val" "set ps \<subseteq> bt_spare t1 T"
    "unat (bt_size t1) = unat (bt_size t) + value_pages val"
proof (cases "MAX_INLINE_VAL_SIZE < length val")
  case True
  have st: "steady t"
    using assms(1) by (simp add: good_def)
  obtain raw t1 ps where 1: "write_overflow_value L val t = (Inr raw, t1)" "added t t1" "length raw = 12"
    "unat (bt_size t1) = unat (bt_size t) + length (chunks (PAGE_SIZE - 4) val)"
    "resolves (bview t1) ps raw val" "\<forall>p\<in>set ps. bt_size t \<le> p \<and> p < bt_size t1"
    using write_overflow_spec [OF st True] assms(2,3) True
    by (auto simp: runs_def storable_def value_pages_def)
  show ?thesis
    by (rule that [of raw t1 ps])
      (use 1 True assms(2) good_added(3) [OF assms(1) 1(2)] in \<open>auto simp: storable_def stored_size_def value_pages_def\<close>)
next
  case False
  have "steady t"
    using assms(1) by (simp add: good_def)
  then show ?thesis
    by (intro that [of val t "[]"])
      (use False assms(2) in \<open>auto simp: storable_def stored_size_def value_pages_def resolves_def added_refl\<close>)
qed

lemma insert_spec:
  assumes m: "bmap t h es" and key: "storable key val" "inline_at key es"
    and room: "unat (bt_size t) + value_pages val + h + 2 < 2 ^ 32"
  shows "runs (bt_insert L key val) t (\<lambda>_ t'. (bmap t' h (ins_entry key val es) \<or> bmap t' (Suc h) (ins_entry key val es)) \<and>
    unat (bt_size t') \<le> unat (bt_size t) + value_pages val + h + 2)"
proof -
  obtain T where T: "good t T" "balanced h T" "entries (bview t) (bt_spare t T) (recs T) es"
    using m by (rule bmapE)
  obtain raw t1 ps where 1:
    "(if MAX_INLINE_VAL_SIZE < length val then write_overflow_value L val else ret val) t = (Inr raw, t1)"
    "added t t1" "length key + length raw \<le> SMALL" "resolves (bview t1) ps raw val" "set ps \<subseteq> bt_spare t1 T"
    "unat (bt_size t1) = unat (bt_size t) + value_pages val"
    by (rule store_value_spec [OF T(1) key(1)]) (use room in auto)
  note T1 = good_added [OF T(1) 1(2)]
  have ents1: "entries (bview t1) (bt_spare t1 T) (recs T) es"
    by (rule entries_cong [OF T(3)]) (use 1(2) T1(2) in \<open>auto simp: bt_spare_def added_def\<close>)
  obtain lp nx rs c t2 where 2:
    "locate L key t1 = (Inr (lp, \<lparr>lf_parent = ctx_parent c, lf_next = nx, lf_records = rs\<rparr>), t2)"
    "still t1 t2" "T = plug (Lf lp nx rs) c" "ctx_wf c" "ctx_lo c \<le> key" "below key (ctx_hi c)"
    using T1(1) by (rule locate_spec)
  have t2: "steady t2" "bview t2 = bview t1" "bt_size t2 = bt_size t1" "root_page_id t2 = root_page_id t1"
    using 2(2) by (auto simp: still_def)
  have T2: "good t2 (plug (Lf lp nx rs) c)" "balanced h (plug (Lf lp nx rs) c)"
    using good_still [OF T1(1) 2(2)] T(2) 2(3) by auto
  have ok: "tree_ok (nodes t2) (bt_size t2) (root_page_id t2) (plug (Lf lp nx rs) c)" "ctx_ord c"
    using T2(1) 2(4) by (auto simp: good_def tree_ok_def ord_plug)
  note leaf = tree_ok_leaf [OF ok(1) 2(4)]
  have sorted: "sorted_keys rs"
    using leaf(1) by (simp add: recs_ok_def)
  note sep = ctx_separates [OF ok(2) 2(5,6)]
  have look: "map_of (recs T) key = map_of rs key"
    unfolding 2(3) recs_plug recs.simps by (rule map_of_append_sorted) (rule sep)+
  have old: "\<not> is_overflow (snd (rs ! pos))" if "pos < length rs" "fst (rs ! pos) = key" for pos
  proof -
    have "map_of rs key = Some (snd (rs ! pos))"
      using that strict_sorted_iff [of "map fst rs"] sorted by (metis map_of_eq_Some_iff nth_mem prod.collapse)
    then obtain v qs where "map_of es key = Some v" "resolves (bview t1) qs (snd (rs ! pos)) v"
      using entries_lookup [OF ents1, of key] look by auto
    then show ?thesis
      using key(2) by (auto simp: inline_at_def resolves_def)
  qed
  let ?rs = "ins_entry key raw rs"
  have put: "put_record key raw rs = ?rs"
    by (rule put_record_ins_entry [OF sorted])
  have size: "11 + record_bytes ?rs \<le> PAGE_SIZE + 8 + SMALL"
    using ins_entry_bytes [of key raw rs] 1(3) from_page_size [of "bview t2 lp"] leaf(2) by (simp add: bt_nodes_def)
  obtain t3 T3 where 3: "store_leaf lp \<lparr>lf_parent = ctx_parent c, lf_next = nx, lf_records = ?rs\<rparr> t2 = (Inr (), t3)"
    "good t3 T3" "recs T3 = ctx_left recs c @ ?rs @ ctx_right recs c"
    "framed (set (pids T)) t2 t3 T3" "balanced h T3 \<or> balanced (Suc h) T3"
    "unat (bt_size t3) \<le> unat (bt_size t2) + h + 2"
    using store_leaf_spec [OF T2(1) 2(4) T2(2) recs_ok_ins_entry [OF leaf(1) 2(5,6) 1(3)] size] room 1(6) t2(3)
    by (auto simp: runs_def 2(3))
  have "entries (bview t2) (bt_spare t2 T) (ins_entry key raw (recs T)) (ins_entry key val es)"
    using entries_ins [OF ents1 1(5,4)] t2 bt_spare_still [OF 2(2)] by simp
  moreover have "recs T3 = ins_entry key raw (recs T)"
    unfolding 3(3) 2(3) recs_plug recs.simps by (rule ins_entry_append [symmetric]) (rule sep)+
  ultimately have "entries (bview t3) (bt_spare t3 T3) (recs T3) (ins_entry key val es)"
    using entries_framed [OF _ 3(4)] by simp
  then have "bmap t3 h (ins_entry key val es) \<or> bmap t3 (Suc h) (ins_entry key val es)"
    using 3(2,5) bmapI by blast
  moreover have "bt_insert L key val t = (Inr (), t3)"
  proof -
    define l where "l = \<lparr>lf_parent = ctx_parent c, lf_next = nx, lf_records = rs\<rparr>"
    have loc: "locate L key t1 = (Inr (lp, l), t2)" "lf_records l = rs"
      using 2(1) by (simp_all add: l_def)
    have "length key \<le> MAX_KEY_SIZE"
      using 1(3) by simp
    then have "bt_insert L key val t = sbind (let pos = search_pos (record_search rs key)
        in if pos < length rs \<and> fst (rs ! pos) = key
           then sthen (free_overflow_chain L (snd (rs ! pos))) (ret (rs[pos := (key, raw)]))
           else ret (list_insert pos (key, raw) rs))
        (\<lambda>rs'. store_leaf lp (l\<lparr>lf_records := rs'\<rparr>)) t2"
      using loc by (simp add: bt_insert_def 1(1) Let_def store_leaf_def del: encoded_size.simps)
    also have "(let pos = search_pos (record_search rs key)
        in if pos < length rs \<and> fst (rs ! pos) = key
           then sthen (free_overflow_chain L (snd (rs ! pos))) (ret (rs[pos := (key, raw)]))
           else ret (list_insert pos (key, raw) rs)) = ret (put_record key raw rs)"
      unfolding put_record_def Let_def using old by (auto simp: free_inline)
    finally show ?thesis
      using 3(1) put by (simp add: l_def)
  qed
  ultimately show ?thesis
    using 3(6) 1(6) t2(3) by (auto simp: runs_def)
qed

end

section \<open>Prefix scans\<close>

lemma prefix_le: "prefix p k \<Longrightarrow> p \<le> (k :: key)"
  by (induction p arbitrary: k) (auto simp: prefix_def)

lemma prefix_between:
  "p \<le> k \<Longrightarrow> k \<le> k' \<Longrightarrow> prefix p k' \<Longrightarrow> prefix p (k :: key)"
proof (induction p arbitrary: k k')
  case Nil
  then show ?case by simp
next
  case (Cons a p)
  then show ?case by (cases k; cases k') (auto simp: order.strict_iff_order)
qed

text \<open>What \<open>scan_leaf\<close> selects from sorted records.\<close>

fun scan_step :: "bytes \<Rightarrow> (key \<times> 'v) list \<Rightarrow> (key \<times> 'v) list \<times> bool" where
  "scan_step pfx [] = ([], False)"
| "scan_step pfx ((k, v) # rs) =
     (if pfx = [] \<or> prefix pfx k then (let (out, stop) = scan_step pfx rs in ((k, v) # out, stop))
      else if pfx \<noteq> [] \<and> pfx < k \<and> \<not> prefix pfx k then ([], True)
      else scan_step pfx rs)"

abbreviation with_prefix :: "bytes \<Rightarrow> (key \<times> 'v) list \<Rightarrow> (key \<times> 'v) list" where
  "with_prefix pfx es \<equiv> filter (\<lambda>e. prefix pfx (fst e)) es"

lemma scan_step_sorted:
  assumes "sorted_keys (rs @ later)"
  shows "(if snd (scan_step pfx rs) then with_prefix pfx (rs @ later) = fst (scan_step pfx rs)
    else with_prefix pfx rs = fst (scan_step pfx rs))"
  using assms
proof (induction rs)
  case Nil
  then show ?case by simp
next
  case (Cons r rs)
  obtain k v where r: "r = (k, v)"
    by (cases r)
  have IH: "if snd (scan_step pfx rs) then with_prefix pfx (rs @ later) = fst (scan_step pfx rs)
      else with_prefix pfx rs = fst (scan_step pfx rs)"
    using Cons by simp
  have above: "k < x" if "x \<in> fst ` set (rs @ later)" for x
    using Cons.prems that by (auto simp: r)
  consider "prefix pfx k" | "\<not> prefix pfx k" "pfx < k" | "\<not> prefix pfx k" "\<not> pfx < k"
    by blast
  then show ?case
  proof cases
    case 1
    then show ?thesis
      using IH by (auto simp: r split_beta)
  next
    case 2
    have "\<not> prefix pfx x" if "x \<in> fst ` set (rs @ later)" for x
      using prefix_between [of pfx k x] above [OF that] 2 by (auto dest: less_imp_le)
    then have "with_prefix pfx (rs @ later) = []"
      by (auto simp: filter_empty_conv)
    then show ?thesis
      using 2 by (auto simp: r)
  next
    case 3
    then show ?thesis
      using IH by (auto simp: r)
  qed
qed

text \<open>The leaves with their records.\<close>

fun leafs :: "tree \<Rightarrow> (page_id \<times> page_id option \<times> (key \<times> bytes) list) list" where
  "leafs (Lf p nx rs) = [(p, nx, rs)]"
| "leafs (Nd p ks ts) = concat (map leafs ts)"

abbreviation leafs_recs :: "(page_id \<times> page_id option \<times> (key \<times> bytes) list) list \<Rightarrow> (key \<times> bytes) list" where
  "leafs_recs ls \<equiv> concat (map (\<lambda>(p, nx, rs). rs) ls)"

abbreviation leafs_links :: "(page_id \<times> page_id option \<times> (key \<times> bytes) list) list \<Rightarrow> (page_id \<times> page_id option) list" where
  "leafs_links ls \<equiv> map (\<lambda>(p, nx, rs). (p, nx)) ls"

lemma leafs_recs_concat: "leafs_recs (concat (map f ts)) = concat (map (\<lambda>t. leafs_recs (f t)) ts)"
  by (induction ts) auto

lemma leafs_recs: "leafs_recs (leafs T) = recs T"
  by (induction T) (auto simp: leafs_recs_concat cong: map_cong)

lemma leafs_links: "leafs_links (leafs T) = leaves T"
  by (induction T) (auto simp: map_concat o_def cong: map_cong)

lemma length_leafs: "length (leafs T) \<le> length (pids T)"
proof (induction T)
  case (Lf p nx rs)
  then show ?case by simp
next
  case (Nd p ks ts)
  then have "sum_list (map (length \<circ> leafs) ts) \<le> sum_list (map (length \<circ> pids) ts)"
    by (intro sum_list_mono) simp
  then show ?case by (simp add: length_concat)
qed

lemma leafs_stored:
  "stored N par T \<Longrightarrow> (p, nx, rs) \<in> set (leafs T) \<Longrightarrow>
   \<exists>q. N p = Leaf \<lparr>lf_parent = q, lf_next = nx, lf_records = rs\<rparr>"
  by (induction N par T rule: stored.induct) auto

lemma leafs_plug: "leafs (plug t c) = ctx_left leafs c @ leafs t @ ctx_right leafs c"
  by (induction t c rule: plug.induct) auto

lemma ctx_left_leafs: "leafs_recs (ctx_left leafs c) = ctx_left recs c"
  by (induction leafs c rule: ctx_left.induct) (auto simp: leafs_recs_concat leafs_recs)

lemma ctx_right_leafs: "leafs_recs (ctx_right leafs c) = ctx_right recs c"
  by (induction leafs c rule: ctx_right.induct) (auto simp: leafs_recs_concat leafs_recs)

lemma linked_suffix: "linked (xs @ ys) \<Longrightarrow> linked ys"
proof (induction xs)
  case Nil
  then show ?case by simp
next
  case (Cons x xs)
  have "linked (xs @ ys)"
    using Cons.prems by (cases x; cases "xs @ ys") auto
  then show ?case
    by (rule Cons.IH)
qed

context tree_pool
begin

lemma scan_leaf_spec:
  assumes "steady t" "entries V C rs es" "bview t = V" "\<forall>p\<in>C. p < bt_size t"
  shows "runs (scan_leaf L pfx rs) t (\<lambda>r t'. r = scan_step pfx es \<and> still t t')"
  using assms(2,1,3,4) unfolding entries_def
proof (induction arbitrary: t rule: list_all2_induct)
  case Nil
  then show ?case by (simp add: still_refl)
next
  case (Cons r rs e es)
  obtain ps where ps: "fst r = fst e" "set ps \<subseteq> C" "resolves V ps (snd r) (snd e)"
    using Cons(1) by blast
  obtain k raw val where r: "r = (k, raw)" "e = (k, val)"
    using ps(1) by (cases r; cases e) simp
  show ?case
  proof (cases "pfx = [] \<or> prefix pfx k")
    case True
    obtain t1 where 1: "read_value_resolve_overflow L raw t = (Inr val, t1)" "still t t1"
      using resolve_spec [OF Cons.prems(1), of ps raw val] r ps Cons.prems(2,3) by (auto simp: runs_def)
    have t1: "steady t1" "bview t1 = bview t" "bt_size t1 = bt_size t"
      using 1(2) by (auto simp: still_def)
    have "runs (scan_leaf L pfx rs) t1 (\<lambda>r t'. r = scan_step pfx es \<and> still t1 t')"
      by (rule Cons.IH) (use t1 Cons.prems in auto)
    then obtain t2 where 2: "scan_leaf L pfx rs t1 = (Inr (scan_step pfx es), t2)" "still t1 t2"
      by (auto simp: runs_def)
    show ?thesis
      using True still_trans [OF 1(2) 2(2)] by (auto simp: runs_def r 1(1) 2(1) split_beta)
  next
    case False
    then show ?thesis
      using Cons.IH [OF Cons.prems] Cons.prems(1) by (auto simp: r still_refl)
  qed
qed

lemma scan_loop_spec:
  assumes "steady t" "entries V C (leafs_recs ((p, nx, rs) # ls)) es" "bview t = V" "\<forall>p\<in>C. p < bt_size t"
    "sorted_keys es" "linked (leafs_links ((p, nx, rs) # ls))" "length ls \<le> n"
    "\<forall>(p, nx, rs)\<in>set ls. \<exists>q. nodes t p = Leaf \<lparr>lf_parent = q, lf_next = nx, lf_records = rs\<rparr>"
  shows "runs (scan_loop L n pfx \<lparr>lf_parent = par, lf_next = nx, lf_records = rs\<rparr> results) t (\<lambda>r t'.
    r = results @ with_prefix pfx es \<and> still t t')"
  using assms
proof (induction ls arbitrary: t p nx rs es n par results)
  case Nil
  then have nx: "nx = None" and es: "entries V C rs es"
    by simp_all
  obtain t1 where 1: "scan_leaf L pfx rs t = (Inr (scan_step pfx es), t1)" "still t t1"
    using scan_leaf_spec [OF Nil.prems(1) es Nil.prems(3,4), of pfx] by (auto simp: runs_def)
  have "with_prefix pfx es = fst (scan_step pfx es)"
    using scan_step_sorted [of es "[]" pfx] Nil.prems(5) by (simp split: if_splits)
  then show ?case
    using 1 nx by (simp add: scan_loop.simps runs_def split_beta)
next
  case (Cons l ls)
  obtain p' nx' rs' where l: "l = (p', nx', rs')"
    by (cases l)
  have nx: "nx = Some p'"
    using Cons.prems(6) by (simp add: l)
  obtain es1 es2 where es: "es = es1 @ es2" "entries V C rs es1" "entries V C (leafs_recs (l # ls)) es2"
    using Cons.prems(2) unfolding entries_def by (auto simp: list_all2_append1)
  obtain t1 where 1: "scan_leaf L pfx rs t = (Inr (scan_step pfx es1), t1)" "still t t1"
    using scan_leaf_spec [OF Cons.prems(1) es(2) Cons.prems(3,4), of pfx] by (auto simp: runs_def)
  have t1: "steady t1" "bview t1 = V" "bt_size t1 = bt_size t" "nodes t1 = nodes t"
    using 1(2) Cons.prems(3) still_nodes by (auto simp: still_def)
  note step = scan_step_sorted [of es1 es2 pfx, folded es(1), OF Cons.prems(5)]
  show ?case
  proof (cases "snd (scan_step pfx es1)")
    case True
    then show ?thesis
      using 1 step by (simp add: scan_loop.simps runs_def split_beta)
  next
    case False
    obtain q where q: "nodes t1 p' = Leaf \<lparr>lf_parent = q, lf_next = nx', lf_records = rs'\<rparr>"
      using Cons.prems(8) t1(4) by (auto simp: l)
    obtain t2 where 2: "read_node L p' t1 = (Inr (nodes t1 p'), t2)" "still t1 t2"
      using read_node_spec [OF t1(1)] by (auto simp: runs_def)
    have t2: "steady t2" "bview t2 = V" "bt_size t2 = bt_size t" "nodes t2 = nodes t"
      using 2(2) t1 still_nodes [OF 2(2)] by (auto simp: still_def)
    obtain m where n: "n = Suc m" "length ls \<le> m"
      using Cons.prems(7) by (cases n) auto
    have "runs (scan_loop L m pfx \<lparr>lf_parent = q, lf_next = nx', lf_records = rs'\<rparr> (results @ fst (scan_step pfx es1))) t2
      (\<lambda>r t'. r = (results @ fst (scan_step pfx es1)) @ with_prefix pfx es2 \<and> still t2 t')"
    proof (rule Cons.IH [of t2 p' nx' rs' es2])
      show "sorted_keys es2"
        using Cons.prems(5) by (simp add: es(1) sorted_wrt_append)
      show "linked (leafs_links ((p', nx', rs') # ls))"
        using Cons.prems(6) by (simp add: l)
    qed (use t2 Cons.prems(4,8) es(3) n in \<open>auto simp: l\<close>)
    then obtain t3 where 3: "scan_loop L m pfx \<lparr>lf_parent = q, lf_next = nx', lf_records = rs'\<rparr>
        (results @ fst (scan_step pfx es1)) t2 =
        (Inr ((results @ fst (scan_step pfx es1)) @ with_prefix pfx es2), t3)" "still t2 t3"
      by (auto simp: runs_def)
    have "scan_loop L n pfx \<lparr>lf_parent = par, lf_next = nx, lf_records = rs\<rparr> results t =
        (Inr ((results @ fst (scan_step pfx es1)) @ with_prefix pfx es2), t3)"
      using False 3(1) by (simp add: scan_loop.simps [of L "Suc m"] 1(1) 2(1) split_beta nx n(1) q)
    then show ?thesis
      using False step still_trans [OF still_trans [OF 1(2) 2(2)] 3(2)] by (simp add: runs_def es(1))
  qed
qed

lemma scan_spec:
  assumes "bmap t h es"
  shows "runs (bt_scan_prefix L pfx) t (\<lambda>r t'. r = with_prefix pfx es \<and> still t t')"
proof -
  obtain T where T: "good t T" "entries (bview t) (bt_spare t T) (recs T) es"
    using assms by (rule bmapE)
  obtain lp nx rs c t1 where 1:
    "locate L pfx t = (Inr (lp, \<lparr>lf_parent = ctx_parent c, lf_next = nx, lf_records = rs\<rparr>), t1)"
    "still t t1" "T = plug (Lf lp nx rs) c" "ctx_wf c" "ctx_lo c \<le> pfx" "below pfx (ctx_hi c)"
    using T(1) by (rule locate_spec)
  have t1: "steady t1" "bview t1 = bview t" "bt_size t1 = bt_size t" "nodes t1 = nodes t"
    using 1(2) still_nodes by (auto simp: still_def)
  have ok: "tree_ok (nodes t) (bt_size t) (root_page_id t) T" "ctx_ord c"
    using T(1) 1(3,4) by (auto simp: good_def tree_ok_def ord_plug)
  have split: "leafs T = ctx_left leafs c @ (lp, nx, rs) # ctx_right leafs c"
    unfolding 1(3) leafs_plug by simp
  let ?ls = "(lp, nx, rs) # ctx_right leafs c"
  have "recs T = ctx_left recs c @ leafs_recs ?ls"
    using leafs_recs [of T] unfolding split by (simp add: ctx_left_leafs)
  then obtain es1 es2 where es: "es = es1 @ es2" "entries (bview t) (bt_spare t T) (ctx_left recs c) es1"
      "entries (bview t) (bt_spare t T) (leafs_recs ?ls) es2"
    using T(2) unfolding entries_def by (auto simp: list_all2_append1)
  have "\<not> prefix pfx x" if "x \<in> fst ` set es1" for x
  proof -
    have "x \<in> fst ` set (ctx_left recs c)"
      using that arg_cong [OF entries_keys [OF es(2)], of set] by simp
    then have "x < pfx"
      using ctx_separates(1) [OF ok(2) 1(5,6)] by blast
    then show ?thesis
      using prefix_le [of pfx x] by auto
  qed
  then have left: "with_prefix pfx es1 = []"
    by (auto simp: filter_empty_conv)
  have sorted: "sorted_keys es2"
    using bmap_sorted [OF assms] by (simp add: es(1) sorted_wrt_append)
  have linked: "linked (leafs_links ?ls)"
  proof (rule linked_suffix)
    show "linked (leafs_links (ctx_left leafs c) @ leafs_links ?ls)"
      using ok(1) unfolding tree_ok_def leafs_links [symmetric] split by simp
  qed
  have fuel: "length (ctx_right leafs c) \<le> walk_fuel t1"
    using length_leafs [of T] tree_ok_size [OF ok(1)] t1(3) unfolding split by (simp add: walk_fuel_def)
  have "stored (nodes t) None T"
    using ok(1) by (simp add: tree_ok_def)
  from leafs_stored [OF this]
  have kept: "\<forall>(p, nx, rs)\<in>set (ctx_right leafs c). \<exists>q. nodes t1 p = Leaf \<lparr>lf_parent = q, lf_next = nx, lf_records = rs\<rparr>"
    using t1(4) unfolding split by auto
  have "runs (scan_loop L (walk_fuel t1) pfx \<lparr>lf_parent = ctx_parent c, lf_next = nx, lf_records = rs\<rparr> []) t1
    (\<lambda>r t'. r = [] @ with_prefix pfx es2 \<and> still t1 t')"
    by (rule scan_loop_spec [OF t1(1) es(3) t1(2) _ sorted linked fuel kept]) (simp add: bt_spare_def t1(3))
  then obtain t2 where 2: "scan_loop L (walk_fuel t1) pfx \<lparr>lf_parent = ctx_parent c, lf_next = nx, lf_records = rs\<rparr> [] t1 =
      (Inr (with_prefix pfx es2), t2)" "still t1 t2"
    by (auto simp: runs_def)
  then show ?thesis
    using left still_trans [OF 1(2) 2(2)] by (simp add: runs_def bt_scan_prefix_def 1(1) es(1))
qed

end

section \<open>Removal\<close>

lemma balanced_0_leaf: "balanced 0 (plug (Lf p nx rs) c) \<Longrightarrow> c = []"
  using balanced_leaf_depth [of 0 "Lf p nx rs" c] by simp

lemma del_entry_absent: "map_of es k = None \<Longrightarrow> del_entry k es = es"
  by (auto simp: del_entry_def map_of_eq_None_iff intro!: filter_True)

lemma del_entry_bytes: "record_bytes (del_entry k rs) \<le> record_bytes rs"
  by (induction rs) (auto simp: del_entry_def)

text \<open>
  \<open>keeps_leaf L h key t\<close>: removing \<open>key\<close> does not empty its leaf, or the leaf is the root.
\<close>

definition keeps_leaf :: "'c cache_ops \<Rightarrow> nat \<Rightarrow> key \<Rightarrow> 'c btree \<Rightarrow> bool" where
  "keeps_leaf L h key t \<longleftrightarrow> h = 0 \<or>
     (case locate L key t of (Inr (_, leaf), _) \<Rightarrow> length (lf_records leaf) \<noteq> 1 | _ \<Rightarrow> False)"

context tree_pool
begin

lemma delete_spec:
  assumes m: "bmap t h es" and key: "inline_at key es" "keeps_leaf L h key t"
  shows "runs (bt_delete L key) t (\<lambda>_ t'. bmap t' h (del_entry key es) \<and> bt_size t' = bt_size t)"
proof -
  obtain T where T: "good t T" "balanced h T" "entries (bview t) (bt_spare t T) (recs T) es"
    using m by (rule bmapE)
  obtain lp nx rs c t1 where 1:
    "locate L key t = (Inr (lp, \<lparr>lf_parent = ctx_parent c, lf_next = nx, lf_records = rs\<rparr>), t1)"
    "still t t1" "T = plug (Lf lp nx rs) c" "ctx_wf c" "ctx_lo c \<le> key" "below key (ctx_hi c)"
    using T(1) by (rule locate_spec)
  have t1: "bview t1 = bview t" "bt_size t1 = bt_size t"
    using 1(2) by (auto simp: still_def)
  have T1: "good t1 (plug (Lf lp nx rs) c)"
    using good_still [OF T(1) 1(2)] 1(3) by simp
  have ok: "tree_ok (nodes t1) (bt_size t1) (root_page_id t1) (plug (Lf lp nx rs) c)" "ctx_ord c"
    using T1 1(4) by (auto simp: good_def tree_ok_def ord_plug)
  note leaf = tree_ok_leaf [OF ok(1) 1(4)]
  have sorted: "sorted_keys rs"
    using leaf(1) by (simp add: recs_ok_def)
  note sep = ctx_separates [OF ok(2) 1(5,6)]
  have look: "map_of (recs T) key = map_of rs key"
    unfolding 1(3) recs_plug recs.simps by (rule map_of_append_sorted) (rule sep)+
  show ?thesis
  proof (cases "record_search rs key")
    case (Inl p)
    then have "map_of es key = None"
      using entries_lookup [OF T(3), of key] look record_search_lookup [OF sorted, of key] by auto
    then show ?thesis
      using Inl 1(1,2) bmap_still [OF m 1(2)] t1(2) by (simp add: bt_delete_def runs_def del_entry_absent)
  next
    case (Inr p)
    obtain val ps where v: "map_of es key = Some val" "resolves (bview t) ps (snd (rs ! p)) val"
      using Inr entries_lookup [OF T(3), of key] look record_search_lookup [OF sorted, of key] by auto
    then have inline: "\<not> is_overflow (snd (rs ! p))"
      using key(1) by (auto simp: inline_at_def resolves_def)
    let ?rs = "del_entry key rs"
    let ?l = "\<lparr>lf_parent = ctx_parent c, lf_next = nx, lf_records = ?rs\<rparr>"
    have rem: "list_remove p rs = ?rs"
      by (rule list_remove_del_entry [OF sorted Inr])
    have "p < length rs"
      using sorted by (cases rule: record_search_cases [where k = key]) (use Inr in auto)
    then have ne: "?rs \<noteq> []" if "length rs \<noteq> 1"
      using that length_list_remove [of p rs] unfolding rem by (cases ?rs) auto
    have here: "?rs \<noteq> [] \<or> lp = root_page_id t"
    proof (cases "h = 0")
      case True
      then have "c = []"
        using T(2) 1(3) balanced_0_leaf by auto
      then have "lp = root_page_id t1"
        using ok(1) by (simp add: tree_ok_def)
      then show ?thesis
        using 1(2) by (simp add: still_def)
    next
      case False
      then show ?thesis
        using key(2) ne 1(1) by (simp add: keeps_leaf_def)
    qed
    have "encoded_size (nodes t1 lp) \<le> PAGE_SIZE"
      unfolding bt_nodes_def by (rule from_page_size)
    then have "11 + record_bytes rs \<le> PAGE_SIZE"
      unfolding leaf(2) encoded_size_leaf .
    then have "11 + record_bytes ?rs \<le> PAGE_SIZE"
      using del_entry_bytes [of key rs] by linarith
    then obtain t2 where 2: "write_node L lp (Leaf ?l) t1 = (Inr (), t2)"
      "good t2 (plug (Lf lp nx ?rs) c)" "framed (set (pids T)) t1 t2 (plug (Lf lp nx ?rs) c)" "bt_size t2 = bt_size t1"
      using write_leaf_spec [OF T1 1(4) recs_ok_del_entry [OF leaf(1)]] 1(3) by (auto simp: runs_def)
    have run: "bt_delete L key t = (Inr (), t2)"
      using here 2(1) by (auto simp: bt_delete_def 1(1) Inr Let_def rem free_inline [OF inline])
    have "recs (plug (Lf lp nx ?rs) c) = del_entry key (recs T)"
      unfolding 1(3) recs_plug recs.simps by (rule del_entry_append [symmetric]) (rule sep)+
    moreover have "entries (bview t1) (bt_spare t1 T) (del_entry key (recs T)) (del_entry key es)"
      using entries_del [OF T(3)] t1(1) bt_spare_still [OF 1(2)] by simp
    ultimately have "entries (bview t2) (bt_spare t2 (plug (Lf lp nx ?rs) c)) (recs (plug (Lf lp nx ?rs) c)) (del_entry key es)"
      using entries_framed [OF _ 2(3)] by simp
    moreover have "balanced h (plug (Lf lp nx ?rs) c)"
    proof -
      obtain g where h: "h = g + length c"
        using balanced_leaf_depth T(2) 1(3) by (metis add.commute le_iff_add)
      show ?thesis
        using T(2) unfolding 1(3) h balanced_plug balanced.simps .
    qed
    ultimately have "bmap t2 h (del_entry key es)"
      using 2(2) by (intro bmapI)
    then show ?thesis
      using run 2(4) t1(2) by (simp add: runs_def)
  qed
qed

end

section \<open>Opening a tree\<close>

lemma on_pool_bind: "on_pool (sbind m f) = sbind (on_pool m) (\<lambda>x. on_pool (f x))"
  by (auto simp: on_pool_def sbind_def fun_eq_iff split: prod.splits sum.splits)

lemma on_pool_at:
  "on_pool m \<lparr>buffer_pool = q, root_page_id = r\<rparr> = (Inr x, t) \<longleftrightarrow>
   (\<exists>q'. m q = (Inr x, q') \<and> t = \<lparr>buffer_pool = q', root_page_id = r\<rparr>)"
  by (auto simp: on_pool_def split: prod.splits)

context tree_pool
begin

lemma bt_new_fresh:
  assumes "pool_steady L ok lsn p" "meta_root (pool_view L p 0) = 0 \<or> meta_root (pool_view L p 0) = U32_MAX"
    "num_pages (pager p) \<noteq> U32_MAX"
  shows "\<exists>t. bt_new L p = (Inr t, buffer_pool t) \<and> bmap t 0 [] \<and> bt_size t = num_pages (pager p) + 1"
proof -
  let ?n = "num_pages (pager p)"
  let ?at = "\<lambda>q. \<lparr>buffer_pool = q, root_page_id = ?n\<rparr>"
  have s0: "steady (?at p)" "bview (?at p) = pool_view L p"
    using assms(1) by (simp_all add: bt_steady_def bt_view_def fun_eq_iff)
  have n0: "0 < ?n" "unat (?n + 1) = Suc (unat ?n)"
    using steadyD(3) [OF s0(1)] unat_plus_1 [OF assms(3)] by auto
  obtain q1 where 1: "pool_read L 0 p = (Inr (pool_view L p 0), q1)" "still (?at p) (?at q1)"
    using pool_read_spec [OF s0(1), of 0] s0(2) by (auto simp: runs_def on_pool_at)
  have s1: "steady (?at q1)" "bt_size (?at q1) = ?n"
    using 1(2) by (auto simp: still_def)
  obtain q2 where 2: "pool_allocate_page q1 = (Inr ?n, q2)" "steady (?at q2)" "bt_size (?at q2) = ?n + 1"
    using alloc_spec [OF s1(1)] s1(2) assms(3) by (auto simp: runs_def on_pool_at)
  obtain pg where pg: "to_page empty_leaf = Inr pg"
    using to_page_eq [of empty_leaf] by (auto simp: empty_leaf_def)
  have lt: "?n < ?n + 1"
    using n0(2) by (simp add: word_less_nat_alt)
  have "runs (write_node L ?n empty_leaf) (?at q2) (\<lambda>_ t'. wrote {?n} (?at q2) t' \<and> nodes t' ?n = empty_leaf)"
    by (rule write_node_spec) (use 2 n0 lt in \<open>auto simp: empty_leaf_def\<close>)
  then obtain q3 where 3: "pool_write_page L ?n pg q2 = (Inr (), q3)" "wrote {?n} (?at q2) (?at q3)"
    "nodes (?at q3) ?n = empty_leaf"
    by (auto simp: runs_def write_node_def pg on_pool_at)
  have s3: "steady (?at q3)" "bt_size (?at q3) = ?n + 1"
    using wroteD [OF 3(2)] 2(3) by auto
  obtain t4 where 4: "persist_root_page_id L ?n (?at q3) = (Inr (), t4)" "wrote {0} (?at q3) t4"
    "meta_root (bview t4 0) = ?n"
    using persist_root_spec [OF s3(1), of ?n] by (auto simp: runs_def)
  have "on_pool (sbind (pool_read L 0) (\<lambda>cloned. pool_write_page L 0 (patch 4 (u32_to_le ?n) cloned))) (?at q3) = (Inr (), t4)"
    using 4(1) by (simp add: persist_root_page_id_def on_pool_bind)
  then obtain q4 where q4: "sbind (pool_read L 0) (\<lambda>cloned. pool_write_page L 0 (patch 4 (u32_to_le ?n) cloned)) q3 = (Inr (), q4)"
    "t4 = ?at q4"
    unfolding on_pool_at by blast
  have rest: "sbind (pool_read L 0) (\<lambda>cloned. sthen (pool_write_page L 0 (patch 4 (u32_to_le ?n) cloned)) (ret ?n)) q3 = (Inr ?n, q4)"
    using q4(1) by (auto simp: sbind_def sthen_def split: prod.splits sum.splits)
  have "bt_new L p = (Inr (?at q4), q4)"
    using assms(2) rest unfolding meta_root_def
    by (elim disjE) (simp_all add: bt_new_def Let_def 1(1) 2(1) pg 3(1))
  moreover have "bmap (?at q4) 0 []"
  proof (rule bmapI [where T = "Lf ?n None []"])
    have "nodes (?at q4) ?n = empty_leaf"
      using wrote_nodes [OF 4(2), of ?n] 3(3) n0(1) q4(2) by auto
    then show "good (?at q4) (Lf ?n None [])"
      using wroteD [OF 4(2)] 4(3) q4(2) s3(2) lt n0(1) by (auto simp: good_def tree_ok_def empty_leaf_def)
  qed (simp_all add: entries_def)
  moreover have "bt_size (?at q4) = ?n + 1"
    using wroteD [OF 4(2)] q4(2) s3(2) by simp
  ultimately show ?thesis
    by (intro exI [of _ "?at q4"]) simp
qed

end

context tree_pool
begin

lemma bt_new_open:
  assumes "pool_steady L ok lsn p" "meta_root (pool_view L p 0) = r" "r \<noteq> 0" "r \<noteq> U32_MAX"
  shows "\<exists>t. bt_new L p = (Inr t, buffer_pool t) \<and> still \<lparr>buffer_pool = p, root_page_id = r\<rparr> t"
proof -
  let ?at = "\<lambda>q. \<lparr>buffer_pool = q, root_page_id = r\<rparr>"
  have s0: "steady (?at p)" "bview (?at p) = pool_view L p"
    using assms(1) by (simp_all add: bt_steady_def bt_view_def fun_eq_iff)
  obtain q where 1: "pool_read L 0 p = (Inr (pool_view L p 0), q)" "still (?at p) (?at q)"
    using pool_read_spec [OF s0(1), of 0] s0(2) by (auto simp: runs_def on_pool_at)
  have "bt_new L p = (Inr (?at q), q)"
    using assms(2-4) by (simp add: bt_new_def 1(1) meta_root_def)
  then show ?thesis
    using 1(2) by (intro exI [of _ "?at q"]) simp
qed

lemma root_valid:
  assumes "bmap t h es"
  shows "root_page_id t \<noteq> 0" "root_page_id t \<noteq> U32_MAX"
proof -
  obtain T where "good t T"
    using assms by (rule bmapE)
  then have "0 < root_page_id t" "root_page_id t < bt_size t"
    using pid_in_pids [of T] by (auto simp: good_def tree_ok_def simp del: pid_in_pids)
  then show "root_page_id t \<noteq> 0" "root_page_id t \<noteq> U32_MAX"
    using unat_less_pow [of "bt_size t"] by (auto simp: word_less_nat_alt)
qed

text \<open>Flushing, losing power and opening the file again.\<close>

lemma reopen_spec:
  assumes m: "bmap t h es"
  obtains t1 p t2 where "bt_flush_and_sync L t = (Inr (), t1)"
    "pager_open (file_crash (pfile (pager (buffer_pool t1)))) = Inr p"
    "bt_new L (pool_with_sync_interval i (pool_new L p n)) = (Inr t2, buffer_pool t2)"
    "bmap t2 h es" "bt_size t2 = bt_size t"
proof -
  have st: "pool_steady L ok lsn (buffer_pool t)"
    using m by (simp add: bt_map_def bt_steady_def)
  obtain s where 1: "pool_flush_and_sync L (buffer_pool t) = (Inr (), s)" "pool_steady L ok lsn s"
    "pool_view L s = pool_view L (buffer_pool t)" "pool_disk s = pool_view L (buffer_pool t)"
    "durable (pfile (pager s)) = content (pfile (pager s))" "num_pages (pager s) = bt_size t"
    using flush_steady [OF st] by (auto simp: runs_def)
  have "file_crash (pfile (pager s)) = pfile (pager s)"
    using 1(5) by (simp add: file_crash_def)
  moreover have wf: "pager_wf (pager s)" "meta_steady lsn (page_at (pager s) 0)"
    using 1(2) by (simp_all add: pool_steady_def pool_ok_def pool_disk_def)
  ultimately have p: "pager_open (file_crash (pfile (pager s))) = Inr (pager s)"
    by (simp add: pager_reopen meta_steady_def)
  have "pager_inv (pager s) []"
    using wf by (simp add: pager_inv_def meta_steady_def)
  let ?p = "pool_with_sync_interval i (pool_new L (pager s) n)"
  have new: "pool_steady L ok lsn ?p" "pool_view L ?p = pool_view L (buffer_pool t)" "num_pages (pager ?p) = bt_size t"
    using new_steady [OF \<open>pager_inv (pager s) []\<close>, of i n] wf(2) pool_new_ok [OF wf(1), of i n] 1(4,6)
    by (simp_all add: pool_disk_def meta_steady_def)
  have root: "meta_root (pool_view L ?p 0) = root_page_id t"
    using m new(2) by (simp add: bt_map_def bt_view_def)
  obtain t2 where t2: "bt_new L ?p = (Inr t2, buffer_pool t2)" "still \<lparr>buffer_pool = ?p, root_page_id = root_page_id t\<rparr> t2"
    using bt_new_open [OF new(1) root root_valid [OF m]] by blast
  have "still t t2"
    using t2(2) new by (auto simp: still_def bt_view_def fun_eq_iff)
  then have "bmap t2 h es" "bt_size t2 = bt_size t"
    using bmap_still [OF m] by (auto simp: still_def)
  moreover have "bt_flush_and_sync L t = (Inr (), t\<lparr>buffer_pool := s\<rparr>)"
    by (simp add: bt_flush_and_sync_def on_pool_def 1(1))
  ultimately show thesis
    using that [of "t\<lparr>buffer_pool := s\<rparr>" "pager s" t2] p t2(1) by simp
qed

end

section \<open>Sequences of operations\<close>

text \<open>
  A client of the tree: it inserts, searches and scans, and now and then it flushes, loses
  power and opens the file again with some cache capacity and sync interval. \<open>map_ops\<close> is
  what it would see on a sorted map in memory.
\<close>

datatype tree_op =
    InsertOp key bytes
  | SearchOp key
  | ScanOp bytes
  | ReopenOp nat u32

datatype tree_reply = Done | Found "bytes option" | Rows "(key \<times> bytes) list"

definition bt_reopen :: "'c cache_ops \<Rightarrow> nat \<Rightarrow> u32 \<Rightarrow> ('c btree, unit) M" where
  "bt_reopen L capacity interval =
     sthen (bt_flush_and_sync L) (\<lambda>t.
       case pager_open (file_crash (pfile (pager (buffer_pool t)))) of
         Inl e \<Rightarrow> (Inl e, t)
       | Inr p \<Rightarrow>
           (case bt_new L (pool_with_sync_interval interval (pool_new L p capacity)) of
              (Inl e, _) \<Rightarrow> (Inl e, t)
            | (Inr t', _) \<Rightarrow> (Inr (), t')))"

fun tree_step :: "'c cache_ops \<Rightarrow> tree_op \<Rightarrow> ('c btree, tree_reply) M" where
  "tree_step L (InsertOp k v) = sthen (bt_insert L k v) (ret Done)"
| "tree_step L (SearchOp k) = sbind (bt_search L k) (\<lambda>r. ret (Found r))"
| "tree_step L (ScanOp pfx) = sbind (bt_scan_prefix L pfx) (\<lambda>r. ret (Rows r))"
| "tree_step L (ReopenOp n i) = sthen (bt_reopen L n i) (ret Done)"

fun tree_ops :: "'c cache_ops \<Rightarrow> tree_op list \<Rightarrow> ('c btree, tree_reply list) M" where
  "tree_ops L [] = ret []"
| "tree_ops L (op # ops) = sbind (tree_step L op) (\<lambda>r. sbind (tree_ops L ops) (\<lambda>rs. ret (r # rs)))"

fun map_step :: "tree_op \<Rightarrow> (key \<times> bytes) list \<Rightarrow> tree_reply \<times> (key \<times> bytes) list" where
  "map_step (InsertOp k v) es = (Done, ins_entry k v es)"
| "map_step (SearchOp k) es = (Found (map_of es k), es)"
| "map_step (ScanOp pfx) es = (Rows (with_prefix pfx es), es)"
| "map_step (ReopenOp n i) es = (Done, es)"

fun map_ops :: "tree_op list \<Rightarrow> (key \<times> bytes) list \<Rightarrow> tree_reply list \<times> (key \<times> bytes) list" where
  "map_ops [] es = ([], es)"
| "map_ops (op # ops) es =
     (let (r, es1) = map_step op es; (rs, es2) = map_ops ops es1 in (r # rs, es2))"

text \<open>
  Every record is small and never replaces an overflow value, and the page ids suffice: an
  insertion takes the pages of its value, one page for every level and one for a new root.
\<close>

fun ops_fit :: "nat \<Rightarrow> nat \<Rightarrow> (key \<times> bytes) list \<Rightarrow> tree_op list \<Rightarrow> bool" where
  "ops_fit sz h es [] \<longleftrightarrow> True"
| "ops_fit sz h es (InsertOp k v # ops) \<longleftrightarrow> storable k v \<and> inline_at k es \<and>
     sz + value_pages v + h + 2 < 2 ^ 32 \<and> ops_fit (sz + value_pages v + h + 2) (Suc h) (ins_entry k v es) ops"
| "ops_fit sz h es (op # ops) \<longleftrightarrow> ops_fit sz h es ops"

context tree_pool
begin

lemma tree_ops_spec:
  assumes "bmap t h es" "ops_fit n H es ops" "unat (bt_size t) \<le> n" "h \<le> H"
  shows "runs (tree_ops L ops) t (\<lambda>rs t'. \<exists>h'. bmap t' h' (snd (map_ops ops es)) \<and> rs = fst (map_ops ops es))"
  using assms
proof (induction ops arbitrary: t h es n H)
  case Nil
  then show ?case by auto
next
  case (Cons op ops)
  have "runs (tree_step L op) t (\<lambda>r t'. r = fst (map_step op es) \<and>
    (\<exists>h' n' H'. bmap t' h' (snd (map_step op es)) \<and> ops_fit n' H' (snd (map_step op es)) ops \<and>
       unat (bt_size t') \<le> n' \<and> h' \<le> H'))"
  proof (cases op)
    case (InsertOp k v)
    have fit: "storable k v" "inline_at k es" "n + value_pages v + H + 2 < 2 ^ 32"
      "ops_fit (n + value_pages v + H + 2) (Suc H) (ins_entry k v es) ops"
      using Cons.prems(2) InsertOp by auto
    obtain t' where t': "bt_insert L k v t = (Inr (), t')"
      "bmap t' h (ins_entry k v es) \<or> bmap t' (Suc h) (ins_entry k v es)"
      "unat (bt_size t') \<le> unat (bt_size t) + value_pages v + h + 2"
      using insert_spec [OF Cons.prems(1) fit(1,2)] fit(3) Cons.prems(3,4) by (auto simp: runs_def)
    then have "\<exists>h'. bmap t' h' (ins_entry k v es) \<and> h' \<le> Suc H"
      using Cons.prems(4) by (metis Suc_le_mono le_SucI)
    moreover have "unat (bt_size t') \<le> n + value_pages v + H + 2"
      using t'(3) Cons.prems(3,4) by linarith
    ultimately show ?thesis
      using InsertOp t'(1) fit(4) by (auto simp: runs_def)
  next
    case (SearchOp k)
    then show ?thesis
      using runs_mono [OF search_spec [OF Cons.prems(1), of k], of "\<lambda>r t'. r = map_of es k \<and> bmap t' h es \<and> bt_size t' = bt_size t"]
        bmap_still [OF Cons.prems(1)] Cons.prems(2-4) by (fastforce simp: runs_def still_def)
  next
    case (ScanOp k)
    then show ?thesis
      using runs_mono [OF scan_spec [OF Cons.prems(1), of k], of "\<lambda>r t'. r = with_prefix k es \<and> bmap t' h es \<and> bt_size t' = bt_size t"]
        bmap_still [OF Cons.prems(1)] Cons.prems(2-4) by (fastforce simp: runs_def still_def)
  next
    case (ReopenOp c i)
    obtain t1 p t2 where t2: "bt_flush_and_sync L t = (Inr (), t1)"
      "pager_open (file_crash (pfile (pager (buffer_pool t1)))) = Inr p"
      "bt_new L (pool_with_sync_interval i (pool_new L p c)) = (Inr t2, buffer_pool t2)"
      "bmap t2 h es" "bt_size t2 = bt_size t"
      using Cons.prems(1) by (rule reopen_spec)
    then show ?thesis
      using ReopenOp Cons.prems(2-4) by (auto simp: runs_def bt_reopen_def)
  qed
  then obtain t' h' n' H' where 1: "tree_step L op t = (Inr (fst (map_step op es)), t')"
    "bmap t' h' (snd (map_step op es))" "ops_fit n' H' (snd (map_step op es)) ops" "unat (bt_size t') \<le> n'" "h' \<le> H'"
    by (auto simp: runs_def)
  from Cons.IH [OF 1(2-5)] show ?case
    by (auto simp: runs_def 1(1) split_beta Let_def)
qed

end

section \<open>Properties\<close>

lemma meta_root_init: "meta_root meta_init \<in> {0, U32_MAX}"
  by (simp add: meta_root_def meta_init_def slice_patch_before slice_patch_same)

text \<open>A tree on a new file, for the instances below.\<close>

lemma list_tree_exists:
  obtains p t where "pager_open empty_file = Inr p"
    "bt_new lru_list (pool_with_sync_interval i (pool_new lru_list p n)) = (Inr t, buffer_pool t)"
    "bt_map lru_list lru_list_ok 0 t 0 []" "bt_size t = 2"
proof -
  obtain p where p: "pager_open empty_file = Inr p" "num_pages p = 1"
    "pool_steady lru_list lru_list_ok 0 (pool_with_sync_interval i (pool_new lru_list p n))"
    "pool_view lru_list (pool_with_sync_interval i (pool_new lru_list p n)) = page_at p"
    "num_pages (pager (pool_with_sync_interval i (pool_new lru_list p n))) = 1" "page_at p 0 = meta_init"
    by (rule list_pool_exists)
  show thesis
    using list_tree.bt_new_fresh [OF p(3)] meta_root_init p that by auto
qed



text \<open>
  A new or root-less file is opened as the empty map: \<open>BTree::new\<close> allocates the root,
  writes an empty leaf and records the root in page 0.
\<close>

theorem btree_new_empty:
  assumes "lru_cache L ok" and "pool_steady L ok lsn p"
    and "meta_root (pool_view L p 0) \<in> {0, U32_MAX}" and "num_pages (pager p) \<noteq> U32_MAX"
  shows "\<exists>t. bt_new L p = (Inr t, buffer_pool t) \<and> bt_map L ok lsn t 0 [] \<and>
    bt_size t = num_pages (pager p) + 1"
proof -
  from assms(1) have "tree_pool L ok"
    by (intro tree_pool.intro pool_cache.intro)
  from tree_pool.bt_new_fresh [OF this assms(2)] assms(3,4) show ?thesis
    by auto
qed

theorem btree_new_empty_witness:
  "\<exists>p t. pager_open empty_file = Inr p \<and>
     bt_new lru_list (pool_with_sync_interval 0 (pool_new lru_list p 3)) = (Inr t, buffer_pool t) \<and>
     bt_map lru_list lru_list_ok 0 t 0 [] \<and> bt_size t = 2"
proof -
  obtain p where p: "pager_open empty_file = Inr p"
    "pool_steady lru_list lru_list_ok 0 (pool_with_sync_interval 0 (pool_new lru_list p 3))"
    "pool_view lru_list (pool_with_sync_interval 0 (pool_new lru_list p 3)) = page_at p"
    "num_pages (pager (pool_with_sync_interval 0 (pool_new lru_list p 3))) = 1" "page_at p 0 = meta_init"
    by (rule list_pool_exists)
  then show ?thesis
    using btree_new_empty [OF lru_list.lru_cache_axioms p(2)] meta_root_init by auto
qed

text \<open>
  (C15) Removal: \<open>delete\<close> takes the entry of the key out of the map and nothing else, and
  leaves an absent key alone, as long as the leaf keeps a record or is the root and the
  value is not on overflow pages.
\<close>

theorem btree_delete_removes:
  assumes "lru_cache L ok" and "bt_map L ok lsn t h es" and "inline_at key es" and "keeps_leaf L h key t"
  shows "\<exists>t'. bt_delete L key t = (Inr (), t') \<and> bt_map L ok lsn t' h (del_entry key es)"
proof -
  from assms(1) have "tree_pool L ok"
    by (intro tree_pool.intro pool_cache.intro)
  from tree_pool.delete_spec [OF this assms(2-4)] show ?thesis
    by (auto simp: runs_def)
qed

theorem btree_delete_removes_witness:
  "\<exists>p t t'. pager_open empty_file = Inr p \<and>
     bt_new lru_list (pool_with_sync_interval 0 (pool_new lru_list p 3)) = (Inr t, buffer_pool t) \<and>
     bt_delete lru_list [5] t = (Inr (), t') \<and> bt_map lru_list lru_list_ok 0 t' 0 []"
proof -
  obtain p t where t: "pager_open empty_file = Inr p"
    "bt_new lru_list (pool_with_sync_interval 0 (pool_new lru_list p 3)) = (Inr t, buffer_pool t)"
    "bt_map lru_list lru_list_ok 0 t 0 []"
    by (rule list_tree_exists)
  then show ?thesis
    using btree_delete_removes [OF lru_list.lru_cache_axioms t(3), of "[5]"]
    by (auto simp: inline_at_def keeps_leaf_def del_entry_def)
qed

end
