(* ===== verification/Wal.thy ===== *)
theory Wal
  imports Files
begin

text \<open>
  The write-ahead log (\<open>src/wal/mod.rs\<close>). A log file is a sequence of frames: a header of
  21 bytes with the log sequence number, the transaction id, the type of the record and
  the length of the payload, then the payload and a checksum. \<open>recover\<close> reads frames
  until one is incomplete, fails its checksum or cannot be interpreted. The checksum is
  \<open>crc32fast\<close>, third-party code: it is the argument \<open>crc\<close>, applied to the concatenation
  of what the hasher is fed, and nothing is assumed about it.
\<close>

section \<open>Model\<close>

datatype wal_entry = WPut bytes bytes | WDelete bytes

datatype wal_op_type = OpPut | OpDelete | OpBegin | OpCommit | OpRollback

fun op_code :: "wal_op_type \<Rightarrow> u8" where
  "op_code OpPut = 1"
| "op_code OpDelete = 2"
| "op_code OpBegin = 3"
| "op_code OpCommit = 4"
| "op_code OpRollback = 5"

record wal =
  wal_file :: dfile
  wal_lsn :: u64

type_synonym checksum = "bytes \<Rightarrow> u32"

definition wal_open :: "dfile \<Rightarrow> wal" where
  "wal_open f = \<lparr>wal_file = f, wal_lsn = 0\<rparr>"

definition wal_current_lsn :: "wal \<Rightarrow> u64" where
  "wal_current_lsn w = wal_lsn w"

subsection \<open>Writing\<close>

definition wal_header :: "u64 \<Rightarrow> u64 \<Rightarrow> u8 \<Rightarrow> u32 \<Rightarrow> bytes" where
  "wal_header lsn tx code len = u64_to_le lsn @ u64_to_le tx @ [code] @ u32_to_le len"

definition wal_write_record :: "checksum \<Rightarrow> u64 \<Rightarrow> wal_op_type \<Rightarrow> bytes \<Rightarrow> (wal, u64) M" where
  "wal_write_record crc tx op payload = (\<lambda>w.
     let lsn = wal_lsn w + 1;
         header = wal_header lsn tx (op_code op) (of_nat (length payload));
         c = crc (header @ payload);
         f = file_append (u32_to_le c) (file_append payload (file_append header (wal_file w)))
     in (Inr lsn, w\<lparr>wal_file := f, wal_lsn := lsn\<rparr>))"

definition put_payload :: "bytes \<Rightarrow> bytes \<Rightarrow> bytes" where
  "put_payload k v = u32_to_le (of_nat (length k)) @ k @ u32_to_le (of_nat (length v)) @ v"

definition delete_payload :: "bytes \<Rightarrow> bytes" where
  "delete_payload k = u32_to_le (of_nat (length k)) @ k"

definition wal_append_tx_put :: "checksum \<Rightarrow> u64 \<Rightarrow> bytes \<Rightarrow> bytes \<Rightarrow> (wal, u64) M" where
  "wal_append_tx_put crc tx k v = wal_write_record crc tx OpPut (put_payload k v)"

definition wal_append_put :: "checksum \<Rightarrow> bytes \<Rightarrow> bytes \<Rightarrow> (wal, u64) M" where
  "wal_append_put crc k v = wal_append_tx_put crc 0 k v"

definition wal_append_tx_delete :: "checksum \<Rightarrow> u64 \<Rightarrow> bytes \<Rightarrow> (wal, u64) M" where
  "wal_append_tx_delete crc tx k = wal_write_record crc tx OpDelete (delete_payload k)"

definition wal_append_delete :: "checksum \<Rightarrow> bytes \<Rightarrow> (wal, u64) M" where
  "wal_append_delete crc k = wal_append_tx_delete crc 0 k"

definition wal_append_begin :: "checksum \<Rightarrow> u64 \<Rightarrow> (wal, u64) M" where
  "wal_append_begin crc tx = wal_write_record crc tx OpBegin []"

definition wal_append_commit :: "checksum \<Rightarrow> u64 \<Rightarrow> (wal, u64) M" where
  "wal_append_commit crc tx = wal_write_record crc tx OpCommit []"

definition wal_append_rollback :: "checksum \<Rightarrow> u64 \<Rightarrow> (wal, u64) M" where
  "wal_append_rollback crc tx = wal_write_record crc tx OpRollback []"

definition wal_sync :: "(wal, unit) M" where
  "wal_sync = modify (\<lambda>w. w\<lparr>wal_file := file_sync (wal_file w)\<rparr>)"

definition wal_checkpoint :: "(wal, unit) M" where
  "wal_checkpoint = modify (\<lambda>w. w\<lparr>wal_file := file_sync (file_set_len_0 (wal_file w)), wal_lsn := 0\<rparr>)"

subsection \<open>Recovery\<close>

text \<open>One frame from the unread part of the file; \<open>None\<close> is a \<open>break\<close> of the loop.\<close>

definition read_frame :: "checksum \<Rightarrow> bytes \<Rightarrow> (u64 \<times> u64 \<times> u8 \<times> bytes \<times> bytes) option" where
  "read_frame crc bs =
     (if length bs < 21 then None
      else
        let header = take 21 bs;
            lsn = u64_from_le (slice 0 8 header);
            tx = u64_from_le (slice 8 16 header);
            code = header ! 16;
            plen = unat (u32_from_le (slice 17 21 header));
            bs1 = drop 21 bs
        in if length bs1 < plen then None
           else
             let payload = take plen bs1; bs2 = drop plen bs1
             in if length bs2 < 4 then None
                else if crc (header @ payload) \<noteq> u32_from_le (take 4 bs2) then None
                else Some (lsn, tx, code, payload, drop 4 bs2))"

definition parse_put :: "bytes \<Rightarrow> wal_entry option" where
  "parse_put payload =
     (if length payload < 8 then None
      else
        let klen = unat (u32_from_le (slice 0 4 payload))
        in if length payload < 4 + klen + 4 then None
           else
             let vlen_offset = 4 + klen;
                 vlen = unat (u32_from_le (slice vlen_offset (vlen_offset + 4) payload))
             in if length payload < vlen_offset + 4 + vlen then None
                else Some (WPut (slice 4 (4 + klen) payload)
                                (slice (vlen_offset + 4) (vlen_offset + 4 + vlen) payload)))"

definition parse_delete :: "bytes \<Rightarrow> wal_entry option" where
  "parse_delete payload =
     (if length payload < 4 then None
      else
        let klen = unat (u32_from_le (slice 0 4 payload))
        in if length payload < 4 + klen then None
           else Some (WDelete (slice 4 (4 + klen) payload)))"

type_synonym active_txs = "u64 \<Rightarrow> wal_entry list option"

definition or_default :: "wal_entry list option \<Rightarrow> wal_entry list" where
  "or_default es = (case es of None \<Rightarrow> [] | Some xs \<Rightarrow> xs)"

definition push_entry :: "u64 \<Rightarrow> wal_entry \<Rightarrow> wal_entry list \<times> active_txs \<Rightarrow> wal_entry list \<times> active_txs" where
  "push_entry tx e = (\<lambda>(committed, active).
     if tx = 0 then (committed @ [e], active)
     else (committed, active(tx \<mapsto> or_default (active tx) @ [e])))"

text \<open>The two \<open>match op_code\<close> blocks: for a record at or below the checkpoint, and above it.\<close>

definition skip_record :: "u64 \<Rightarrow> u8 \<Rightarrow> active_txs \<Rightarrow> active_txs" where
  "skip_record tx code active =
     (if code = 3 then (if 0 < tx then active(tx \<mapsto> []) else active)
      else if code = 4 then active(tx := None)
      else if code = 5 then active(tx := None)
      else active)"

definition apply_record :: "u64 \<Rightarrow> u8 \<Rightarrow> bytes \<Rightarrow> wal_entry list \<times> active_txs \<Rightarrow>
    (wal_entry list \<times> active_txs) option" where
  "apply_record tx code payload st =
     (case st of (committed, active) \<Rightarrow>
        if code = 1 then map_option (\<lambda>e. push_entry tx e st) (parse_put payload)
        else if code = 2 then map_option (\<lambda>e. push_entry tx e st) (parse_delete payload)
        else if code = 3 then Some (committed, if 0 < tx then active(tx \<mapsto> []) else active)
        else if code = 4 then Some (committed @ or_default (active tx), active(tx := None))
        else if code = 5 then Some (committed, active(tx := None))
        else None)"

lemma read_frame_shorter: "read_frame crc bs = Some (lsn, tx, code, payload, rest) \<Longrightarrow> length rest < length bs"
  by (auto simp: read_frame_def Let_def split: if_splits)

function recover_loop :: "checksum \<Rightarrow> u64 \<Rightarrow> bytes \<Rightarrow> wal_entry list \<times> active_txs \<Rightarrow> u64 \<Rightarrow>
    wal_entry list \<times> u64" where
  "recover_loop crc checkpoint_lsn bs st max_lsn =
     (case read_frame crc bs of
        None \<Rightarrow> (fst st, max_lsn)
      | Some (lsn, tx, code, payload, rest) \<Rightarrow>
          let max_lsn = (if max_lsn < lsn then lsn else max_lsn)
          in if lsn \<le> checkpoint_lsn then
               recover_loop crc checkpoint_lsn rest (fst st, skip_record tx code (snd st)) max_lsn
             else
               (case apply_record tx code payload st of
                  None \<Rightarrow> (fst st, max_lsn)
                | Some st' \<Rightarrow> recover_loop crc checkpoint_lsn rest st' max_lsn))"
  by pat_completeness auto
termination
  by (relation "measure (\<lambda>(crc, c, bs, st, m). length bs)") (auto dest: read_frame_shorter)

declare recover_loop.simps [simp del]

definition wal_recover :: "checksum \<Rightarrow> u64 \<Rightarrow> (wal, wal_entry list) M" where
  "wal_recover crc checkpoint_lsn = (\<lambda>w.
     case recover_loop crc checkpoint_lsn (content (wal_file w)) ([], Map.empty) 0 of
       (committed, max_lsn) \<Rightarrow> (Inr committed, w\<lparr>wal_lsn := max_lsn\<rparr>))"

section \<open>What a log means\<close>

text \<open>
  The records a client appends, and what recovery owes them. \<open>pending\<close> collects what a
  transaction wrote since its last marker; a commit delivers it, any other marker drops
  it; a write outside a transaction is delivered at once. Records at or below the
  checkpoint deliver nothing. Logs are given with the newest record first.
\<close>

datatype log_op =
    LogPut u64 bytes bytes
  | LogDelete u64 bytes
  | LogBegin u64
  | LogCommit u64
  | LogRollback u64

fun log_tx :: "log_op \<Rightarrow> u64" where
  "log_tx (LogPut tx k v) = tx"
| "log_tx (LogDelete tx k) = tx"
| "log_tx (LogBegin tx) = tx"
| "log_tx (LogCommit tx) = tx"
| "log_tx (LogRollback tx) = tx"

fun log_entry :: "log_op \<Rightarrow> wal_entry option" where
  "log_entry (LogPut tx k v) = Some (WPut k v)"
| "log_entry (LogDelete tx k) = Some (WDelete k)"
| "log_entry op = None"

fun pending :: "u64 \<Rightarrow> u64 \<Rightarrow> (u64 \<times> log_op) list \<Rightarrow> wal_entry list" where
  "pending ck tx [] = []"
| "pending ck tx ((lsn, op) # older) =
     (if log_tx op \<noteq> tx then pending ck tx older
      else case log_entry op of
        None \<Rightarrow> []
      | Some e \<Rightarrow> pending ck tx older @ (if lsn \<le> ck then [] else [e]))"

fun delivered :: "u64 \<Rightarrow> (u64 \<times> log_op) list \<Rightarrow> wal_entry list" where
  "delivered ck [] = []"
| "delivered ck ((lsn, op) # older) = delivered ck older @
     (if lsn \<le> ck then []
      else case log_entry op of
        Some e \<Rightarrow> (if log_tx op = 0 then [e] else [])
      | None \<Rightarrow> (if op = LogCommit (log_tx op) \<and> log_tx op \<noteq> 0 then pending ck (log_tx op) older else []))"

section \<open>Frames\<close>

fun log_type :: "log_op \<Rightarrow> wal_op_type" where
  "log_type (LogPut tx k v) = OpPut"
| "log_type (LogDelete tx k) = OpDelete"
| "log_type (LogBegin tx) = OpBegin"
| "log_type (LogCommit tx) = OpCommit"
| "log_type (LogRollback tx) = OpRollback"

fun log_payload :: "log_op \<Rightarrow> bytes" where
  "log_payload (LogPut tx k v) = put_payload k v"
| "log_payload (LogDelete tx k) = delete_payload k"
| "log_payload op = []"

definition log_frame :: "checksum \<Rightarrow> u64 \<times> log_op \<Rightarrow> bytes" where
  "log_frame crc r = (case r of (lsn, op) \<Rightarrow>
     let header = wal_header lsn (log_tx op) (op_code (log_type op)) (of_nat (length (log_payload op)))
     in header @ log_payload op @ u32_to_le (crc (header @ log_payload op)))"

text \<open>A record whose payload length fits the 32-bit length field.\<close>

definition log_fits :: "log_op \<Rightarrow> bool" where
  "log_fits op \<longleftrightarrow> length (log_payload op) < 2 ^ 32"

lemma length_wal_header [simp]: "length (wal_header lsn tx code len) = 21"
  by (simp add: wal_header_def)

lemma wal_header_slices:
  "slice 0 8 (wal_header lsn tx code len) = u64_to_le lsn"
  "slice 8 16 (wal_header lsn tx code len) = u64_to_le tx"
  "wal_header lsn tx code len ! 16 = code"
  "slice 17 21 (wal_header lsn tx code len) = u32_to_le len"
  by (simp_all add: wal_header_def slice_def nth_append)

lemma read_log_frame:
  assumes "log_fits op"
  shows "read_frame crc (log_frame crc (lsn, op) @ rest) =
    Some (lsn, log_tx op, op_code (log_type op), log_payload op, rest)"
proof -
  let ?len = "of_nat (length (log_payload op)) :: u32"
  have u: "unat ?len = length (log_payload op)"
    using assms by (simp add: log_fits_def unat_of_nat)
  show ?thesis
    unfolding read_frame_def log_frame_def Let_def
    by (simp add: wal_header_slices u)
qed

lemma torn_frame:
  assumes "log_fits op" "log_frame crc (lsn, op) = part @ missing" "missing \<noteq> []"
  shows "read_frame crc part = None"
proof -
  let ?p = "log_payload op"
  let ?len = "of_nat (length ?p) :: u32"
  let ?h = "wal_header lsn (log_tx op) (op_code (log_type op)) ?len"
  have u: "unat ?len = length ?p"
    using assms(1) by (simp add: log_fits_def unat_of_nat)
  have eq: "part @ missing = ?h @ ?p @ u32_to_le (crc (?h @ ?p))"
    using assms(2) by (simp add: log_frame_def Let_def)
  have short: "length part < 25 + length ?p"
    using arg_cong [OF eq, of length] assms(3) by (simp add: neq_Nil_conv) auto
  have "take 21 part = ?h" if "21 \<le> length part"
    using arg_cong [OF eq, of "take 21"] that by simp
  then show ?thesis
    using short by (auto simp: read_frame_def Let_def wal_header_slices u)
qed

lemma unat_u32_length: "length (k :: bytes) < 2 ^ 32 \<Longrightarrow> unat (of_nat (length k) :: u32) = length k"
  by (simp add: unat_of_nat)

lemma parse_put_payload:
  assumes "length (put_payload k v) < 2 ^ 32"
  shows "parse_put (put_payload k v) = Some (WPut k v)"
proof -
  let ?kl = "u32_to_le (of_nat (length k))" and ?vl = "u32_to_le (of_nat (length v))"
  have p: "put_payload k v = ?kl @ k @ ?vl @ v"
    by (simp add: put_payload_def)
  have u: "unat (of_nat (length k) :: u32) = length k" "unat (of_nat (length v) :: u32) = length v"
    using assms by (auto simp: put_payload_def intro!: unat_u32_length)
  have s: "slice 0 4 (put_payload k v) = ?kl" "slice 4 (4 + length k) (put_payload k v) = k"
    "slice (4 + length k) (4 + length k + 4) (put_payload k v) = ?vl"
    "slice (4 + length k + 4) (4 + length k + 4 + length v) (put_payload k v) = v"
    by (simp_all add: p slice_def)
  show ?thesis
    unfolding parse_put_def Let_def s(1) from_to_le u s(2,3,4)
    by (simp add: put_payload_def)
qed

lemma parse_delete_payload:
  assumes "length (delete_payload k) < 2 ^ 32"
  shows "parse_delete (delete_payload k) = Some (WDelete k)"
proof -
  have "unat (of_nat (length k) :: u32) = length k"
    using assms by (auto simp: delete_payload_def intro!: unat_u32_length)
  then show ?thesis
    by (simp add: parse_delete_def delete_payload_def slice_def)
qed

section \<open>The loop computes the meaning\<close>

text \<open>
  The state of the loop after the records \<open>rs\<close> (newest first): what is delivered, and for
  every transaction what is pending.
\<close>

definition loop_state :: "u64 \<Rightarrow> (u64 \<times> log_op) list \<Rightarrow> wal_entry list \<times> active_txs \<Rightarrow> bool" where
  "loop_state ck rs st \<longleftrightarrow> fst st = delivered ck rs \<and>
     (\<forall>tx. tx \<noteq> 0 \<longrightarrow> or_default (snd st tx) = pending ck tx rs) \<and> snd st 0 = None"

lemmas loop_defs = loop_state_def apply_record_def skip_record_def push_entry_def or_default_def

lemma loop_step_skip:
  assumes "loop_state ck rs st" "lsn \<le> ck"
  shows "loop_state ck ((lsn, op) # rs) (fst st, skip_record (log_tx op) (op_code (log_type op)) (snd st))"
  using assms by (cases op) (auto simp: loop_defs word_gt_0 split: option.splits)

lemma loop_step_apply:
  assumes "loop_state ck rs st" "\<not> lsn \<le> ck" "log_fits op"
  obtains st' where "apply_record (log_tx op) (op_code (log_type op)) (log_payload op) st = Some st'"
    "loop_state ck ((lsn, op) # rs) st'"
proof (cases op)
  case (LogPut tx k v)
  then show ?thesis
    using that assms parse_put_payload [of k v]
    by (cases st) (auto simp: loop_defs log_fits_def split: option.splits)
next
  case (LogDelete tx k)
  then show ?thesis
    using that assms parse_delete_payload [of k]
    by (cases st) (auto simp: loop_defs log_fits_def split: option.splits)
next
  case (LogBegin tx)
  then show ?thesis
    using that assms by (cases st) (auto simp: loop_defs word_gt_0 split: option.splits)
next
  case (LogCommit tx)
  then show ?thesis
    using that assms by (cases st) (auto simp: loop_defs split: option.splits)
next
  case (LogRollback tx)
  then show ?thesis
    using that assms by (cases st) (auto simp: loop_defs split: option.splits)
qed

lemma recover_loop_delivers:
  assumes "loop_state ck rs st" "\<forall>(lsn, op)\<in>set qs. log_fits op" "read_frame crc tail = None"
  shows "recover_loop crc ck (concat (map (log_frame crc) qs) @ tail) st m =
    (delivered ck (rev qs @ rs), fold (\<lambda>(lsn, op) m. max m lsn) qs m)"
  using assms
proof (induction qs arbitrary: rs st m)
  case Nil
  then show ?case
    by (simp add: recover_loop.simps [of crc ck tail] loop_state_def)
next
  case (Cons q qs)
  obtain lsn op where q: "q = (lsn, op)"
    by (cases q)
  have fits: "log_fits op"
    using Cons.prems(2) q by simp
  let ?m = "if m < lsn then lsn else m"
  have m: "?m = max m lsn"
    by (auto simp: max_def)
  note frame = read_log_frame [OF fits, of crc lsn "concat (map (log_frame crc) qs) @ tail"]
  show ?case
  proof (cases "lsn \<le> ck")
    case True
    then show ?thesis
      using Cons.IH [OF loop_step_skip [OF Cons.prems(1) True, of op], of ?m] Cons.prems frame
      by (simp add: recover_loop.simps [of crc ck "log_frame crc (lsn, op) @ _"] q m Let_def)
  next
    case False
    obtain st' where st': "apply_record (log_tx op) (op_code (log_type op)) (log_payload op) st = Some st'"
      "loop_state ck ((lsn, op) # rs) st'"
      using loop_step_apply [OF Cons.prems(1) False fits] .
    then show ?thesis
      using False Cons.IH [OF st'(2), of ?m] Cons.prems frame
      by (simp add: recover_loop.simps [of crc ck "log_frame crc (lsn, op) @ _"] q m Let_def)
  qed
qed

lemma loop_state_start: "loop_state ck [] ([], Map.empty)"
  by (simp add: loop_state_def or_default_def)

lemma read_frame_Nil [simp]: "read_frame crc [] = None"
  by (simp add: read_frame_def)

section \<open>Appending\<close>

fun wal_append :: "checksum \<Rightarrow> log_op \<Rightarrow> (wal, u64) M" where
  "wal_append crc (LogPut tx k v) = wal_append_tx_put crc tx k v"
| "wal_append crc (LogDelete tx k) = wal_append_tx_delete crc tx k"
| "wal_append crc (LogBegin tx) = wal_append_begin crc tx"
| "wal_append crc (LogCommit tx) = wal_append_commit crc tx"
| "wal_append crc (LogRollback tx) = wal_append_rollback crc tx"

definition wal_append_all :: "checksum \<Rightarrow> log_op list \<Rightarrow> (wal, unit) M" where
  "wal_append_all crc ops = for_each (\<lambda>op. sthen (wal_append crc op) (ret ())) ops"

text \<open>The records with the sequence numbers they get after \<open>n\<close>.\<close>

fun number :: "u64 \<Rightarrow> log_op list \<Rightarrow> (u64 \<times> log_op) list" where
  "number n [] = []"
| "number n (op # ops) = (n + 1, op) # number (n + 1) ops"

lemma length_number [simp]: "length (number n ops) = length ops"
  by (induction ops arbitrary: n) auto

lemma map_snd_number [simp]: "map snd (number n ops) = ops"
  by (induction ops arbitrary: n) auto

lemma number_append: "number n (xs @ ys) = number n xs @ number (n + of_nat (length xs)) ys"
  by (induction xs arbitrary: n) (auto simp: algebra_simps)

lemma number_fits: "list_all log_fits ops \<Longrightarrow> \<forall>(lsn, op)\<in>set (number n ops). log_fits op"
  by (induction ops arbitrary: n) auto

lemma fst_number: "length ops < 2 ^ 64 \<Longrightarrow> n + length ops < 2 ^ 64 \<Longrightarrow>
  (lsn, op) \<in> set (number (of_nat n) ops) \<Longrightarrow> n < unat lsn \<and> unat lsn \<le> n + length ops"
proof (induction ops arbitrary: n)
  case Nil
  then show ?case by simp
next
  case (Cons x xs)
  have "number (of_nat n) (x # xs) = (of_nat (Suc n), x) # number (of_nat (Suc n)) xs"
    by (simp add: add.commute)
  then have "(lsn, op) = (of_nat (Suc n), x) \<or> (lsn, op) \<in> set (number (of_nat (Suc n)) xs)"
    using Cons.prems(3) by (simp del: of_nat_Suc)
  moreover have "unat (of_nat (Suc n) :: u64) = Suc n"
    using Cons.prems by (simp only: unat_of_nat) simp
  ultimately show ?case
    using Cons.IH [of "Suc n"] Cons.prems by (auto simp del: of_nat_Suc)
qed

definition wal_with :: "wal \<Rightarrow> bytes \<Rightarrow> u64 \<Rightarrow> wal" where
  "wal_with w bs n = w\<lparr>wal_file := file_append bs (wal_file w), wal_lsn := n\<rparr>"

lemma wal_append_eq:
  "wal_append crc op w =
     (Inr (wal_lsn w + 1), wal_with w (log_frame crc (wal_lsn w + 1, op)) (wal_lsn w + 1))"
  by (cases op)
    (simp_all add: wal_append_tx_put_def wal_append_tx_delete_def wal_append_begin_def
      wal_append_commit_def wal_append_rollback_def wal_write_record_def log_frame_def Let_def
      file_append_def wal_with_def)

lemma wal_append_all_eq:
  "wal_append_all crc ops w =
     (Inr (), wal_with w (concat (map (log_frame crc) (number (wal_lsn w) ops)))
        (wal_lsn w + of_nat (length ops)))"
proof (induction ops arbitrary: w)
  case Nil
  then show ?case by (simp add: wal_append_all_def wal_with_def file_append_def)
next
  case (Cons op ops)
  then show ?case
    by (simp add: wal_append_all_def wal_append_eq wal_with_def file_append_def algebra_simps)
qed

text \<open>The log that a fresh file holds after a list of records.\<close>

definition wal_log :: "checksum \<Rightarrow> log_op list \<Rightarrow> wal" where
  "wal_log crc ops = snd (wal_append_all crc ops (wal_open empty_file))"

lemma content_wal_log: "content (wal_file (wal_log crc ops)) = concat (map (log_frame crc) (number 0 ops))"
  by (simp add: wal_log_def wal_append_all_eq wal_with_def file_append_def wal_open_def empty_file_def)

definition recovered :: "checksum \<Rightarrow> u64 \<Rightarrow> bytes \<Rightarrow> wal_entry list" where
  "recovered crc ck bs = fst (recover_loop crc ck bs ([], Map.empty) 0)"

lemma wal_recover_eq: "fst (wal_recover crc ck w) = Inr (recovered crc ck (content (wal_file w)))"
  by (simp add: wal_recover_def recovered_def split: prod.splits)

lemma recovered_frames:
  assumes "\<forall>(lsn, op)\<in>set qs. log_fits op" "read_frame crc tail = None"
  shows "recovered crc ck (concat (map (log_frame crc) qs) @ tail) = delivered ck (rev qs)"
  using recover_loop_delivers [OF loop_state_start assms] by (simp add: recovered_def)

lemma recovered_log:
  "list_all log_fits ops \<Longrightarrow>
   recovered crc ck (content (wal_file (wal_log crc ops))) = delivered ck (rev (number 0 ops))"
  using recovered_frames [OF number_fits, of ops crc "[]"] by (simp add: content_wal_log)

text \<open>Cutting a log anywhere leaves whole frames and a torn one.\<close>

lemma cut_frames:
  assumes "\<forall>(lsn, op)\<in>set qs. log_fits op" "k \<le> length (concat (map (log_frame crc) qs))"
  obtains n tail where "n \<le> length qs"
    "take k (concat (map (log_frame crc) qs)) = concat (map (log_frame crc) (take n qs)) @ tail"
    "read_frame crc tail = None"
    "k < length (concat (map (log_frame crc) (take (Suc n) qs))) \<or> n = length qs"
  using assms
proof (induction qs arbitrary: k thesis)
  case Nil
  then show ?case by (auto intro: Nil(1) [of 0 "[]"])
next
  case (Cons q qs)
  let ?f = "log_frame crc q"
  obtain lsn op where q: "q = (lsn, op)"
    by (cases q)
  show ?case
  proof (cases "length ?f \<le> k")
    case False
    have "log_frame crc (lsn, op) = take k ?f @ drop k ?f" "drop k ?f \<noteq> []" "log_fits op"
      using False Cons.prems(2) q by simp_all
    then have "read_frame crc (take k ?f) = None"
      by (rule torn_frame [rotated])
    then show ?thesis
      using False by (intro Cons.prems(1) [of 0 "take k ?f"]) auto
  next
    case True
    obtain n tail where n: "n \<le> length qs"
      "take (k - length ?f) (concat (map (log_frame crc) qs)) =
         concat (map (log_frame crc) (take n qs)) @ tail"
      "read_frame crc tail = None"
      "k - length ?f < length (concat (map (log_frame crc) (take (Suc n) qs))) \<or> n = length qs"
      by (rule Cons.IH [OF that]) (use Cons.prems(2,3) in auto)
    then show ?thesis
      using True by (intro Cons.prems(1) [of "Suc n" tail]) auto
  qed
qed

section \<open>Transactions\<close>

lemma pending_other:
  "pending ck tx (filter (\<lambda>(lsn, op). log_tx op \<noteq> t) rs) = (if tx = t then [] else pending ck tx rs)"
  by (induction rs) (auto split: option.splits)

lemma delivered_without:
  assumes "\<forall>(lsn, op)\<in>set rs. op \<noteq> LogCommit t" "t \<noteq> 0"
  shows "delivered ck (filter (\<lambda>(lsn, op). log_tx op \<noteq> t) rs) = delivered ck rs"
  using assms
proof (induction rs)
  case Nil
  then show ?case by simp
next
  case (Cons r rs)
  obtain lsn op where "r = (lsn, op)"
    by (cases r)
  then show ?case
    using Cons by (auto simp: pending_other split: option.splits)
qed

text \<open>Above the checkpoint, the numbers of the records do not matter.\<close>

lemma pending_cong:
  "map snd rs = map snd rs' \<Longrightarrow> \<forall>(lsn, op)\<in>set rs. \<not> lsn \<le> ck \<Longrightarrow> \<forall>(lsn, op)\<in>set rs'. \<not> lsn \<le> ck' \<Longrightarrow>
   pending ck tx rs = pending ck' tx rs'"
proof (induction rs arbitrary: rs')
  case (Cons r rs)
  then show ?case by (cases r; cases rs') (auto split: option.splits)
qed simp

lemma delivered_cong:
  "map snd rs = map snd rs' \<Longrightarrow> \<forall>(lsn, op)\<in>set rs. \<not> lsn \<le> ck \<Longrightarrow> \<forall>(lsn, op)\<in>set rs'. \<not> lsn \<le> ck' \<Longrightarrow>
   delivered ck rs = delivered ck' rs'"
proof (induction rs arbitrary: rs')
  case (Cons r rs)
  obtain lsn op where r: "r = (lsn, op)"
    by (cases r)
  obtain lsn' rs1 where rs': "rs' = (lsn', op) # rs1" and eq: "map snd rs = map snd rs1"
    using Cons.prems(1) r by (cases rs') auto
  have "pending ck tx rs = pending ck' tx rs1" for tx
    using pending_cong [OF eq] Cons.prems rs' by simp
  then show ?case
    using Cons.IH [OF eq] Cons.prems r rs' by (auto split: option.splits)
qed simp

lemma number_positive:
  "length ops < 2 ^ 64 \<Longrightarrow> \<forall>(lsn, op)\<in>set (number 0 ops). \<not> lsn \<le> 0"
  using fst_number [of ops 0] by fastforce

lemma pending_collects:
  assumes "\<forall>op\<in>set ops. log_tx op = t \<longrightarrow> log_entry op \<noteq> None" "\<forall>(lsn, op)\<in>set rs. \<not> lsn \<le> ck"
    "map snd rs = ops"
  shows "pending ck t (rev rs @ (lsn, LogBegin t) # older) =
    map (the \<circ> log_entry) (filter (\<lambda>op. log_tx op = t) ops)"
  using assms
proof (induction rs arbitrary: ops rule: rev_induct)
  case Nil
  then show ?case by simp
next
  case (snoc r rs)
  then show ?case by (cases r) (auto split: option.splits)
qed

section \<open>Sequence numbers\<close>

lemma fold_max_number:
  "n + length ops < 2 ^ 64 \<Longrightarrow>
   fold (\<lambda>(lsn, op) m. max m lsn) (number (of_nat n) ops) (of_nat n) = (of_nat (n + length ops) :: u64)"
proof (induction ops arbitrary: n)
  case Nil
  then show ?case by simp
next
  case (Cons op ops)
  have u: "unat (of_nat n :: u64) = n" "unat (of_nat (Suc n) :: u64) = Suc n"
    using Cons.prems by (simp_all only: unat_of_nat) simp_all
  have "(of_nat n :: u64) \<le> of_nat (Suc n)"
    using u by (simp add: word_le_nat_alt del: of_nat_Suc)
  then have "max (of_nat n) (of_nat (Suc n)) = (of_nat (Suc n) :: u64)"
    by (simp add: max_def del: of_nat_Suc)
  moreover have "(of_nat n + 1 :: u64) = of_nat (Suc n)"
    by (simp add: add.commute)
  ultimately show ?case
    using Cons.IH [of "Suc n"] Cons.prems by (simp del: of_nat_Suc)
qed

lemma wal_recover_log:
  assumes "list_all log_fits ops" "length ops < 2 ^ 64"
  shows "wal_recover crc ck (wal_log crc ops) = (Inr (delivered ck (rev (number 0 ops))), wal_log crc ops)"
proof -
  have "recover_loop crc ck (content (wal_file (wal_log crc ops))) ([], Map.empty) 0 =
      (delivered ck (rev (number 0 ops)), of_nat (length ops))"
    using recover_loop_delivers [OF loop_state_start number_fits [OF assms(1)], of crc "[]" ck 0 0]
      fold_max_number [of 0 ops] assms(2)
    by (simp add: content_wal_log)
  moreover have "wal_lsn (wal_log crc ops) = of_nat (length ops)"
    by (simp add: wal_log_def wal_append_all_eq wal_with_def wal_open_def)
  ultimately show ?thesis
    by (simp add: wal_recover_def)
qed

lemma delivered_all_skipped: "\<forall>(lsn, op)\<in>set rs. lsn \<le> ck \<Longrightarrow> delivered ck rs = []"
  by (induction rs) auto

lemma number_ops: "(lsn, op) \<in> set (number n ops) \<Longrightarrow> op \<in> set ops"
  by (induction ops arbitrary: n) auto

text \<open>A torn frame whose header survives, followed by less than the bytes it lacks.\<close>

lemma torn_frame_extended:
  assumes "log_fits op" "part = take m (log_frame crc (lsn, op))" "21 \<le> m"
    "m + length later < length (log_frame crc (lsn, op))"
  shows "read_frame crc (part @ later) = None"
proof -
  let ?p = "log_payload op"
  let ?len = "of_nat (length ?p) :: u32"
  let ?h = "wal_header lsn (log_tx op) (op_code (log_type op)) ?len"
  have u: "unat ?len = length ?p"
    using assms(1) by (simp add: log_fits_def unat_of_nat)
  have frame: "log_frame crc (lsn, op) = ?h @ ?p @ u32_to_le (crc (?h @ ?p))"
    by (simp add: log_frame_def Let_def)
  have len: "length part = m" "m + length later < 25 + length ?p"
    using assms(2,4) by (simp_all add: frame)
  have "take 21 (part @ later) = ?h"
    using assms(2,3) len by (simp add: frame)
  then show ?thesis
    using len assms(3) by (auto simp: read_frame_def Let_def wal_header_slices u)
qed

section \<open>Properties\<close>

text \<open>
  (C18) Recovery is prefix consistent. Take any records appended to a fresh log and cut the
  file anywhere, as a crash in the middle of a write does. Recovery then succeeds and
  returns exactly what the first \<open>n\<close> records mean, where \<open>n\<close> counts the records that lie
  wholly before the cut. With no cut, it returns what the whole log means.
\<close>

theorem wal_recover_prefix:
  assumes "list_all log_fits ops" and "k \<le> length (content (wal_file (wal_log crc ops)))"
    and "f = \<lparr>content = take k (content (wal_file (wal_log crc ops))), durable = d\<rparr>"
  shows "\<exists>n\<le>length ops. fst (wal_recover crc ck (wal_open f)) = Inr (delivered ck (rev (take n (number 0 ops)))) \<and>
    length (content (wal_file (wal_log crc (take n ops)))) \<le> k \<and>
    (n < length ops \<longrightarrow> k < length (content (wal_file (wal_log crc (take (Suc n) ops)))))"
proof -
  have num: "take j (number 0 ops) = number 0 (take j ops)" for j
    using number_append [of 0 "take j ops" "drop j ops"] by (cases "j \<le> length ops") simp_all
  obtain n tail where n: "n \<le> length ops"
    "take k (concat (map (log_frame crc) (number 0 ops))) =
       concat (map (log_frame crc) (take n (number 0 ops))) @ tail"
    "read_frame crc tail = None"
    "k < length (concat (map (log_frame crc) (take (Suc n) (number 0 ops)))) \<or> n = length (number 0 ops)"
    using cut_frames [OF number_fits [OF assms(1), of 0], of k crc] assms(2)
    by (auto simp: content_wal_log)
  have "\<forall>(lsn, op)\<in>set (take n (number 0 ops)). log_fits op"
    using number_fits [OF assms(1), of 0] by (auto dest: in_set_takeD)
  then have "recovered crc ck (content f) = delivered ck (rev (take n (number 0 ops)))"
    using recovered_frames n(2,3) assms(3) by (simp add: content_wal_log)
  moreover have "length (concat (map (log_frame crc) (take n (number 0 ops)))) \<le> k"
    using arg_cong [OF n(2), of length] by simp
  ultimately show ?thesis
    using n(1,4) by (intro exI [of _ n]) (auto simp: wal_recover_eq wal_open_def content_wal_log num)
qed

text \<open>The example log: a committed transaction, an open one, and a write outside any.\<close>

definition sample_log :: "log_op list" where
  "sample_log = [LogBegin 1, LogPut 1 [1] [10], LogBegin 2, LogPut 2 [2] [20], LogPut 0 [3] [30],
     LogCommit 1, LogDelete 2 [1]]"

definition sum_crc :: checksum where
  "sum_crc bs = sum_list (map ucast bs)"

lemma sample_log_fits: "list_all log_fits sample_log" "length sample_log < 2 ^ 64"
  by (simp_all add: sample_log_def log_fits_def put_payload_def delete_payload_def)

theorem wal_recover_prefix_witness:
  "\<exists>n. fst (wal_recover sum_crc 0 (wal_open
      \<lparr>content = take 30 (content (wal_file (wal_log sum_crc sample_log))), durable = []\<rparr>)) =
    Inr (delivered 0 (rev (take n (number 0 sample_log))))"
proof -
  have "30 \<le> length (content (wal_file (wal_log sum_crc sample_log)))"
    by (simp add: content_wal_log sample_log_def log_frame_def Let_def)
  then show ?thesis
    using wal_recover_prefix [OF sample_log_fits(1) _ refl, of 30 sum_crc 0 "[]"] by blast
qed

text \<open>
  (C19) A transaction that has not committed is invisible: recovering a log that holds no
  commit of transaction \<open>t\<close> gives what recovering the log without any record of \<open>t\<close> gives.
\<close>

theorem wal_uncommitted_invisible:
  assumes "list_all log_fits ops" and "length ops < 2 ^ 64" and "t \<noteq> 0" and "LogCommit t \<notin> set ops"
  shows "fst (wal_recover crc 0 (wal_log crc ops)) =
    fst (wal_recover crc 0 (wal_log crc (filter (\<lambda>op. log_tx op \<noteq> t) ops)))"
proof -
  let ?keep = "filter (\<lambda>(lsn, op). log_tx op \<noteq> t) (number 0 ops)"
  have fits: "list_all log_fits (filter (\<lambda>op. log_tx op \<noteq> t) ops)"
    and len: "length (filter (\<lambda>op. log_tx op \<noteq> t) ops) < 2 ^ 64"
    using assms(1) le_less_trans [OF length_filter_le [of "\<lambda>op. log_tx op \<noteq> t" ops] assms(2)]
    by (simp_all only: list_all_iff set_filter mem_Collect_eq) blast
  have "\<forall>(lsn, op)\<in>set (rev (number 0 ops)). op \<noteq> LogCommit t"
    using assms(4) by (auto dest: number_ops)
  then have "delivered 0 (rev (number 0 ops)) = delivered 0 (rev ?keep)"
    using delivered_without [OF _ assms(3), of "rev (number 0 ops)" 0] by (simp add: rev_filter)
  also have "\<dots> = delivered 0 (rev (number 0 (filter (\<lambda>op. log_tx op \<noteq> t) ops)))"
  proof (rule delivered_cong)
    have "map snd (filter (\<lambda>(lsn, op). log_tx op \<noteq> t) rs) = filter (\<lambda>op. log_tx op \<noteq> t) (map snd rs)"
      for rs :: "(u64 \<times> log_op) list"
      by (induction rs) auto
    then show "map snd (rev ?keep) = map snd (rev (number 0 (filter (\<lambda>op. log_tx op \<noteq> t) ops)))"
      by (simp flip: rev_map)
  qed (use number_positive [OF assms(2)] number_positive [OF len] in auto)
  finally show ?thesis
    using wal_recover_log [OF assms(1,2)] wal_recover_log [OF fits len] by simp
qed

theorem wal_uncommitted_invisible_witness:
  "fst (wal_recover sum_crc 0 (wal_log sum_crc sample_log)) =
     fst (wal_recover sum_crc 0 (wal_log sum_crc (filter (\<lambda>op. log_tx op \<noteq> 2) sample_log))) \<and>
   LogPut 2 [2] [20] \<in> set sample_log"
  using wal_uncommitted_invisible [OF sample_log_fits, of 2 sum_crc] by (simp add: sample_log_def)



text \<open>
  Recovery leaves the log as the last append left it, sequence number included, so
  new records continue the numbering.
\<close>

theorem wal_recover_resumes:
  assumes "list_all log_fits ops" and "length ops < 2 ^ 64"
  shows "\<exists>es. wal_recover crc ck (wal_open (wal_file (wal_log crc ops))) = (Inr es, wal_log crc ops)"
proof -
  have "wal_recover crc ck (wal_open (wal_file w)) =
      (fst (wal_recover crc ck w), snd (wal_recover crc ck w))" for w
    by (simp add: wal_recover_def wal_open_def split: prod.splits)
  then show ?thesis
    using wal_recover_log [OF assms] by simp
qed

theorem wal_recover_resumes_witness:
  "\<exists>es. wal_recover sum_crc 0 (wal_open (wal_file (wal_log sum_crc sample_log))) = (Inr es, wal_log sum_crc sample_log)"
  by (rule wal_recover_resumes [OF sample_log_fits])

text \<open>
  (C39) Records written after a checkpoint are lost: \<open>checkpoint\<close> restarts the numbering at
  zero, so as long as fewer records follow than preceded it, a recovery that skips what is
  at or below the checkpointed number returns none of them, committed or not.
\<close>

theorem wal_checkpoint_hides:
  assumes "list_all log_fits ops" and "length ops \<le> unat (wal_current_lsn w)"
    and "wal_checkpoint w = (Inr (), w1)" and "wal_append_all crc ops w1 = (Inr (), w2)"
  shows "fst (wal_recover crc (wal_current_lsn w) w2) = Inr []"
proof -
  have "content (wal_file w2) = concat (map (log_frame crc) (number 0 ops))"
    using assms(3,4)
    by (auto simp: wal_checkpoint_def wal_append_all_eq wal_with_def file_append_def file_sync_def file_set_len_0_def)
  moreover have "length ops < 2 ^ 64"
    using assms(2) unat_less_pow [of "wal_current_lsn w"] by simp
  then have "\<forall>(lsn, op)\<in>set (number 0 ops). lsn \<le> wal_current_lsn w"
    using fst_number [of ops 0] assms(2) by (fastforce simp: word_le_nat_alt)
  ultimately show ?thesis
    using recovered_frames [OF number_fits [OF assms(1)], of crc "[]" "wal_current_lsn w" 0]
    by (simp add: wal_recover_eq delivered_all_skipped)
qed

theorem wal_checkpoint_hides_witness:
  "\<exists>w1 w2. wal_checkpoint (wal_log sum_crc sample_log) = (Inr (), w1) \<and>
     wal_append_all sum_crc [LogPut 0 [7] [8]] w1 = (Inr (), w2) \<and>
     fst (wal_recover sum_crc (wal_current_lsn (wal_log sum_crc sample_log)) w2) = Inr []"
proof -
  define w1 where "w1 = snd (wal_checkpoint (wal_log sum_crc sample_log))"
  define w2 where "w2 = snd (wal_append_all sum_crc [LogPut 0 [7] [8]] w1)"
  have "wal_current_lsn (wal_log sum_crc sample_log) = 7"
    by (simp add: wal_current_lsn_def wal_log_def wal_append_all_eq wal_with_def wal_open_def sample_log_def)
  moreover have "wal_checkpoint (wal_log sum_crc sample_log) = (Inr (), w1)"
    by (simp add: w1_def wal_checkpoint_def)
  moreover have "wal_append_all sum_crc [LogPut 0 [7] [8]] w1 = (Inr (), w2)"
    by (simp add: w2_def wal_append_all_eq)
  ultimately show ?thesis
    using wal_checkpoint_hides [of "[LogPut 0 [7] [8]]" "wal_log sum_crc sample_log" w1 sum_crc w2]
    by (auto simp: log_fits_def put_payload_def)
qed

text \<open>
  (C40) Records written after a torn one are lost: recovery stops at a torn record and
  leaves it in the file. New records are appended behind it, and as long as they are
  shorter than the part that is missing, the next recovery does not reach them.
\<close>

theorem wal_torn_tail_hides:
  assumes "list_all log_fits ops" and "log_fits op" and "21 \<le> m"
    and "frame = log_frame crc (lsn, op)"
    and "m + length (content (wal_file (wal_log crc later))) < length frame"
    and "w = wal_open \<lparr>content = content (wal_file (wal_log crc ops)) @ take m frame, durable = d\<rparr>"
    and "sthen (wal_recover crc ck) (sthen (wal_append_all crc later) (wal_recover crc ck)) w = (r, w')"
  shows "r = fst (wal_recover crc ck w)"
proof -
  let ?frames = "\<lambda>n ops. concat (map (log_frame crc) (number n ops))"
  obtain es w1 where w1: "wal_recover crc ck w = (Inr es, w1)" "wal_file w1 = wal_file w"
    by (cases "recover_loop crc ck (content (wal_file w)) ([], Map.empty) 0") (simp add: wal_recover_def)
  define w2 where "w2 = snd (wal_append_all crc later w1)"
  have step: "wal_append_all crc later w1 = (Inr (), w2)"
    by (simp add: w2_def wal_append_all_eq)
  have len: "length (?frames n later) = length (?frames n' later)" for n n'
    by (induction later arbitrary: n n') (auto simp: log_frame_def Let_def)
  have "content (wal_file w2) = ?frames 0 ops @ take m frame @ ?frames (wal_lsn w1) later"
    using assms(6) w1(2)
    by (simp add: w2_def wal_append_all_eq wal_with_def file_append_def wal_open_def content_wal_log)
  moreover have "read_frame crc (take m frame @ ?frames (wal_lsn w1) later) = None"
    using torn_frame_extended [OF assms(2) refl assms(3), where crc = crc and lsn = lsn and later = "?frames (wal_lsn w1) later"]
      assms(4,5) len [of "wal_lsn w1" 0] by (simp add: content_wal_log)
  moreover have "read_frame crc (take m frame) = None"
    using torn_frame_extended [OF assms(2) refl assms(3), where crc = crc and lsn = lsn and later = "[]"] assms(4,5) by simp
  ultimately have "fst (wal_recover crc ck w2) = fst (wal_recover crc ck w)"
    using recovered_frames [OF number_fits [OF assms(1)], of crc _ ck 0] assms(6)
    by (simp add: wal_recover_eq wal_open_def content_wal_log)
  moreover have "r = fst (wal_recover crc ck w2)"
    using assms(7) w1 step by simp
  ultimately show ?thesis by simp
qed

theorem wal_torn_tail_hides_witness:
  "\<exists>w r w'. w = wal_open \<lparr>content = take 22 (log_frame sum_crc (1, LogPut 0 (replicate 80 1) [])), durable = []\<rparr> \<and>
     sthen (wal_recover sum_crc 0) (sthen (wal_append_all sum_crc [LogPut 0 [7] [8]]) (wal_recover sum_crc 0)) w = (r, w') \<and>
     r = fst (wal_recover sum_crc 0 w)"
proof -
  define f where "f = log_frame sum_crc (1, LogPut 0 (replicate 80 1) [])"
  define w where "w = wal_open \<lparr>content = take 22 f, durable = []\<rparr>"
  obtain r w' where r: "sthen (wal_recover sum_crc 0) (sthen (wal_append_all sum_crc [LogPut 0 [7] [8]]) (wal_recover sum_crc 0)) w = (r, w')"
    by fastforce
  have "w = wal_open \<lparr>content = content (wal_file (wal_log sum_crc [])) @ take 22 f, durable = []\<rparr>"
    by (simp add: w_def content_wal_log)
  moreover have "22 + length (content (wal_file (wal_log sum_crc [LogPut 0 [7] [8]]))) < length f"
    by (simp add: f_def content_wal_log log_frame_def Let_def put_payload_def)
  moreover have "log_fits (LogPut 0 (replicate 80 1) [])"
    by (simp add: log_fits_def put_payload_def)
  ultimately have "r = fst (wal_recover sum_crc 0 w)"
    using wal_torn_tail_hides [of "[]" "LogPut 0 (replicate 80 1) []" 22 f sum_crc 1 "[LogPut 0 [7] [8]]" w "[]" 0 r w'] r
    by (simp add: f_def)
  with r show ?thesis
    unfolding w_def f_def by blast
qed

end
