(* ===== verification/Config.thy ===== *)
theory Config
  imports Prelude
begin

text \<open>
  The configuration (\<open>src/config/mod.rs\<close>). Reading and decoding a TOML file is done by
  \<open>std::fs\<close> and the \<open>toml\<close> crate; both are arguments of \<open>load_from_file\<close>.
\<close>

record storage_config =
  path :: string
  cache_size_mb :: nat
  cfg_sync_interval :: u32

record wal_config =
  enabled :: bool
  sync_on_write :: bool

record network_config =
  host :: string
  port :: u16
  max_connections :: nat
  idle_timeout_secs :: u64

record config =
  storage :: storage_config
  wal_cfg :: wal_config
  network :: network_config

definition default_max_connections :: nat where
  "default_max_connections = 128"

definition default_idle_timeout :: u64 where
  "default_idle_timeout = 30"

definition config_default :: config where
  "config_default =
     \<lparr>storage = \<lparr>path = ''./data'', cache_size_mb = 256, cfg_sync_interval = 1000\<rparr>,
      wal_cfg = \<lparr>enabled = True, sync_on_write = False\<rparr>,
      network = \<lparr>host = ''127.0.0.1'', port = 7432, max_connections = 128, idle_timeout_secs = 30\<rparr>\<rparr>"

definition with_path :: "string \<Rightarrow> config \<Rightarrow> config" where
  "with_path p c = c\<lparr>storage := (storage c)\<lparr>path := p\<rparr>\<rparr>"

definition load_from_file :: "(string \<Rightarrow> string res) \<Rightarrow> (string \<Rightarrow> config res) \<Rightarrow> string \<Rightarrow> config res" where
  "load_from_file read_to_string toml_from_str p = rbind (read_to_string p) toml_from_str"

end
