(* ===== verification/Database.thy ===== *)
theory Database
  imports BTreeOps Wal Config
begin

text \<open>
  The storage engine (\<open>src/storage/mod.rs\<close>, \<open>Database\<close>): the tree and the log behind one
  interface. A directory is given by the two files in it, \<open>magnum.data\<close> and \<open>magnum.wal\<close>.
  A write is logged first and applied to the tree at once, whether its transaction commits
  or not; \<open>open\<close> replays what the log delivers.
\<close>

section \<open>Model\<close>

record 'c database =
  db_config :: config
  db_wal :: "wal option"
  db_index :: "'c btree"

definition on_index :: "('c btree, 'a) M \<Rightarrow> ('c database, 'a) M" where
  "on_index m = (\<lambda>db. case m (db_index db) of (r, t) \<Rightarrow> (r, db\<lparr>db_index := t\<rparr>))"

text \<open>\<open>if let Some(wal_mutex) = &self.wal { ... }\<close>\<close>

definition on_wal :: "(wal, unit) M \<Rightarrow> ('c database, unit) M" where
  "on_wal m = (\<lambda>db. case db_wal db of
     None \<Rightarrow> (Inr (), db)
   | Some w \<Rightarrow> (case m w of (r, w') \<Rightarrow> (r, db\<lparr>db_wal := Some w'\<rparr>)))"

text \<open>Append, then sync if the configuration asks for it.\<close>

definition log_write :: "(wal, u64) M \<Rightarrow> ('c database, unit) M" where
  "log_write m = (\<lambda>db. on_wal (sthen m
     (if sync_on_write (wal_cfg (db_config db)) then wal_sync else ret ())) db)"

fun replay_entry :: "'c cache_ops \<Rightarrow> wal_entry \<Rightarrow> ('c btree, unit) M" where
  "replay_entry L (WPut k v) = bt_insert L k v"
| "replay_entry L (WDelete k) = bt_delete L k"

definition db_open :: "'c cache_ops \<Rightarrow> checksum \<Rightarrow> config \<Rightarrow> dfile \<Rightarrow> dfile \<Rightarrow> 'c database res" where
  "db_open L crc cfg data_file log_file =
     rbind (pager_open data_file) (\<lambda>pgr.
     rbind (pager_open (pfile pgr)) (\<lambda>tmp_pager.
       let checkpoint_lsn = (case fst (pager_read_checkpoint_lsn tmp_pager) of Inl e \<Rightarrow> 0 | Inr n \<Rightarrow> n);
           pool = pool_with_sync_interval (cfg_sync_interval (storage cfg)) (pool_new L pgr 1024)
       in rbind (fst (bt_new L pool)) (\<lambda>index.
            if enabled (wal_cfg cfg) then
              (case wal_recover crc checkpoint_lsn (wal_open log_file) of
                 (Inl e, _) \<Rightarrow> Inl e
               | (Inr logged, wal_ref) \<Rightarrow>
                   (case sthen (for_each (replay_entry L) logged) (bt_flush_and_sync L) index of
                      (Inl e, _) \<Rightarrow> Inl e
                    | (Inr _, index') \<Rightarrow> Inr \<lparr>db_config = cfg, db_wal = Some wal_ref, db_index = index'\<rparr>))
            else Inr \<lparr>db_config = cfg, db_wal = None, db_index = index\<rparr>)))"

definition db_put_with_tx :: "'c cache_ops \<Rightarrow> checksum \<Rightarrow> u64 \<Rightarrow> bytes \<Rightarrow> bytes \<Rightarrow> ('c database, unit) M" where
  "db_put_with_tx L crc tx_id key val =
     sthen (log_write (wal_append_tx_put crc tx_id key val)) (on_index (bt_insert L key val))"

definition db_put :: "'c cache_ops \<Rightarrow> checksum \<Rightarrow> bytes \<Rightarrow> bytes \<Rightarrow> ('c database, unit) M" where
  "db_put L crc key val = db_put_with_tx L crc 0 key val"

definition db_get :: "'c cache_ops \<Rightarrow> bytes \<Rightarrow> ('c database, bytes option) M" where
  "db_get L key = on_index (bt_search L key)"

definition db_scan :: "'c cache_ops \<Rightarrow> ('c database, (bytes \<times> bytes) list) M" where
  "db_scan L = on_index (bt_scan L)"

definition db_scan_prefix :: "'c cache_ops \<Rightarrow> bytes \<Rightarrow> ('c database, (bytes \<times> bytes) list) M" where
  "db_scan_prefix L pfx = on_index (bt_scan_prefix L pfx)"

definition db_delete_with_tx :: "'c cache_ops \<Rightarrow> checksum \<Rightarrow> u64 \<Rightarrow> bytes \<Rightarrow> ('c database, unit) M" where
  "db_delete_with_tx L crc tx_id key =
     sthen (log_write (wal_append_tx_delete crc tx_id key)) (on_index (bt_delete L key))"

definition db_delete :: "'c cache_ops \<Rightarrow> checksum \<Rightarrow> bytes \<Rightarrow> ('c database, unit) M" where
  "db_delete L crc key = db_delete_with_tx L crc 0 key"

definition db_begin_tx :: "checksum \<Rightarrow> u64 \<Rightarrow> ('c database, unit) M" where
  "db_begin_tx crc tx_id = log_write (wal_append_begin crc tx_id)"

definition db_commit_tx :: "'c cache_ops \<Rightarrow> checksum \<Rightarrow> u64 \<Rightarrow> ('c database, unit) M" where
  "db_commit_tx L crc tx_id =
     sthen (on_wal (sthen (wal_append_commit crc tx_id) wal_sync)) (on_index (bt_flush_and_sync L))"

definition db_rollback_tx :: "checksum \<Rightarrow> u64 \<Rightarrow> ('c database, unit) M" where
  "db_rollback_tx crc tx_id = log_write (wal_append_rollback crc tx_id)"

definition db_close :: "'c cache_ops \<Rightarrow> ('c database, unit) M" where
  "db_close L =
     sthen (on_index (bt_flush_all L))
     (sthen (on_index bt_sync) (\<lambda>db.
        case db_wal db of
          None \<Rightarrow> (Inr (), db)
        | Some w \<Rightarrow>
            let current_lsn = wal_current_lsn w
            in sthen (on_index (on_pool (pool_write_checkpoint_lsn current_lsn)))
               (sthen (on_index bt_sync) (on_wal wal_checkpoint)) db))"

text \<open>The two files of the database, as a power failure leaves them.\<close>

abbreviation db_data :: "'c database \<Rightarrow> dfile" where
  "db_data db \<equiv> pfile (pager (buffer_pool (db_index db)))"

definition crashed_data :: "'c database \<Rightarrow> dfile" where
  "crashed_data db = file_crash (db_data db)"

definition crashed_log :: "'c database \<Rightarrow> dfile" where
  "crashed_log db = (case db_wal db of None \<Rightarrow> empty_file | Some w \<Rightarrow> file_crash (wal_file w))"

section \<open>Data files\<close>

text \<open>
  \<open>data_map f lsn n h es\<close>: opening the file \<open>f\<close> gives a tree of \<open>n\<close> pages that stands for
  the entries \<open>es\<close>, with checkpoint number \<open>lsn\<close> in page 0.
\<close>

definition pager_map :: "pager \<Rightarrow> u64 \<Rightarrow> nat \<Rightarrow> (key \<times> bytes) list \<Rightarrow> bool" where
  "pager_map p lsn h es \<longleftrightarrow> pager_inv p [] \<and> meta_lsn (page_at p 0) = lsn \<and>
     (\<exists>T. tree_ok (\<lambda>q. from_page (page_at p q)) (num_pages p) (meta_root (page_at p 0)) T \<and> balanced h T \<and>
        entries (page_at p) {q. 0 < q \<and> q < num_pages p \<and> q \<notin> set (pids T)} (recs T) es)"

definition data_map :: "dfile \<Rightarrow> u64 \<Rightarrow> page_id \<Rightarrow> nat \<Rightarrow> (key \<times> bytes) list \<Rightarrow> bool" where
  "data_map f lsn n h es \<longleftrightarrow> (\<exists>p. pager_open f = Inr p \<and> num_pages p = n \<and> pager_map p lsn h es)"

lemma pager_map_reopen: "pager_map p lsn h es \<Longrightarrow> pager_open (pfile p) = Inr p"
  by (simp add: pager_map_def pager_inv_def pager_reopen)

lemma pager_map_root:
  assumes "pager_map p lsn h es"
  shows "meta_root (page_at p 0) \<noteq> 0" "meta_root (page_at p 0) \<noteq> U32_MAX"
proof -
  obtain T where "tree_ok (\<lambda>q. from_page (page_at p q)) (num_pages p) (meta_root (page_at p 0)) T"
    using assms by (auto simp: pager_map_def)
  then have "0 < meta_root (page_at p 0)" "meta_root (page_at p 0) < num_pages p"
    using pid_in_pids [of T] by (auto simp: tree_ok_def simp del: pid_in_pids)
  then show "meta_root (page_at p 0) \<noteq> 0" "meta_root (page_at p 0) \<noteq> U32_MAX"
    using unat_less_pow [of "num_pages p"] by (auto simp: word_less_nat_alt)
qed

text \<open>Page 0 may change its checkpoint number.\<close>

lemma pager_map_cong:
  assumes "pager_map p lsn h es" "pager_inv p' []" "num_pages p' = num_pages p"
    "\<And>q. q \<noteq> 0 \<Longrightarrow> page_at p' q = page_at p q" "meta_root (page_at p' 0) = meta_root (page_at p 0)"
    "meta_lsn (page_at p' 0) = lsn'"
  shows "pager_map p' lsn' h es"
proof -
  obtain T where T: "tree_ok (\<lambda>q. from_page (page_at p q)) (num_pages p) (meta_root (page_at p 0)) T" "balanced h T"
    "entries (page_at p) {q. 0 < q \<and> q < num_pages p \<and> q \<notin> set (pids T)} (recs T) es"
    using assms(1) by (auto simp: pager_map_def)
  have rng: "q \<noteq> 0" if "q \<in> set (pids T)" for q
    using T(1) that by (auto simp: tree_ok_def)
  have "stored (\<lambda>q. from_page (page_at p' q)) None T"
    by (rule stored_cong [of "\<lambda>q. from_page (page_at p q)"]) (use T(1) rng assms(4) in \<open>auto simp: tree_ok_def\<close>)
  then have "tree_ok (\<lambda>q. from_page (page_at p' q)) (num_pages p') (meta_root (page_at p' 0)) T"
    using T(1) assms(3,5) by (simp add: tree_ok_def)
  moreover have "entries (page_at p') {q. 0 < q \<and> q < num_pages p' \<and> q \<notin> set (pids T)} (recs T) es"
    by (rule entries_cong [OF T(3)]) (use assms(3,4) in auto)
  ultimately show ?thesis
    using T(2) assms(2,6) by (auto simp: pager_map_def)
qed

context tree_pool
begin

lemma bmap_disk:
  assumes "bmap t h es" "pool_disk (buffer_pool t) = pool_view L (buffer_pool t)"
  shows "pager_map (pager (buffer_pool t)) lsn h es"
proof -
  let ?p = "pager (buffer_pool t)"
  have view: "page_at ?p = bview t"
    using assms(2) by (simp add: bt_view_def pool_disk_def fun_eq_iff)
  have st: "pool_steady L ok lsn (buffer_pool t)"
    using assms(1) by (simp add: bt_map_def bt_steady_def)
  then have "pager_wf ?p" "meta_steady lsn (page_at ?p 0)"
    by (simp_all add: pool_steady_def pool_ok_def pool_disk_def)
  then have "pager_inv ?p []" "meta_lsn (page_at ?p 0) = lsn"
    by (simp_all add: pager_inv_def meta_steady_def)
  then show ?thesis
    using assms(1) unfolding pager_map_def bt_map_def view bt_spare_def bt_nodes_def by auto
qed

lemma open_map:
  assumes "pager_map p lsn h es"
  obtains t where "bt_new L (pool_with_sync_interval i (pool_new L p n)) = (Inr t, buffer_pool t)"
    "bmap t h es" "bt_size t = num_pages p"
proof -
  let ?p = "pool_with_sync_interval i (pool_new L p n)"
  have inv: "pager_inv p []" "meta_lsn (page_at p 0) = lsn"
    using assms by (auto simp: pager_map_def)
  have new: "pool_steady L ok lsn ?p" "pool_view L ?p = page_at p" "pager ?p = p"
    using new_steady [OF inv(1), of i n] pool_new_ok [OF pager_inv_wf [OF inv(1)], of i n] inv(2) by simp_all
  have "meta_root (pool_view L ?p 0) = meta_root (page_at p 0)"
    by (simp add: new(2))
  from bt_new_open [OF new(1) this pager_map_root [OF assms]]
  obtain t where t: "bt_new L ?p = (Inr t, buffer_pool t)"
    "still \<lparr>buffer_pool = ?p, root_page_id = meta_root (page_at p 0)\<rparr> t"
    by blast
  have "bmap \<lparr>buffer_pool = ?p, root_page_id = meta_root (page_at p 0)\<rparr> h es"
    using assms new unfolding pager_map_def bt_map_def bt_steady_def bt_view_def bt_spare_def bt_nodes_def by auto
  then have "bmap t h es" "bt_size t = num_pages p"
    using bmap_still t(2) new(3) by (auto simp: still_def)
  with t(1) show thesis
    by (rule that)
qed

lemma flush_map:
  assumes "bmap t h es"
  obtains t' where "bt_flush_and_sync L t = (Inr (), t')" "bmap t' h es" "bt_size t' = bt_size t"
    "data_map (file_crash (pfile (pager (buffer_pool t')))) lsn (bt_size t) h es"
proof -
  have st: "pool_steady L ok lsn (buffer_pool t)"
    using assms by (simp add: bt_map_def bt_steady_def)
  obtain s where 1: "pool_flush_and_sync L (buffer_pool t) = (Inr (), s)" "pool_steady L ok lsn s"
    "pool_view L s = pool_view L (buffer_pool t)" "pool_disk s = pool_view L (buffer_pool t)"
    "durable (pfile (pager s)) = content (pfile (pager s))" "num_pages (pager s) = bt_size t"
    using flush_steady [OF st] by (auto simp: runs_def)
  let ?t = "t\<lparr>buffer_pool := s\<rparr>"
  have "still t ?t"
    using 1 by (simp add: still_def bt_steady_def bt_view_def)
  then have m: "bmap ?t h es"
    by (rule bmap_still [OF assms])
  then have pm: "pager_map (pager s) lsn h es"
    using bmap_disk [OF m] 1(3,4) by simp
  have "file_crash (pfile (pager s)) = pfile (pager s)"
    using 1(5) by (simp add: file_crash_def)
  then have "data_map (file_crash (pfile (pager s))) lsn (bt_size t) h es"
    using pm pager_map_reopen [OF pm] 1(6) by (auto simp: data_map_def)
  moreover have "bt_flush_and_sync L t = (Inr (), ?t)"
    by (simp add: bt_flush_and_sync_def on_pool_def 1(1))
  ultimately show thesis
    using that [of ?t] m 1(6) by simp
qed

end

section \<open>Replay\<close>

fun replayed :: "(key \<times> bytes) list \<Rightarrow> wal_entry \<Rightarrow> (key \<times> bytes) list" where
  "replayed es (WPut k v) = ins_entry k v es"
| "replayed es (WDelete k) = del_entry k es"

text \<open>The entries are insertions that fit.\<close>

fun replay_fit :: "nat \<Rightarrow> nat \<Rightarrow> (key \<times> bytes) list \<Rightarrow> wal_entry list \<Rightarrow> bool" where
  "replay_fit n h es [] \<longleftrightarrow> True"
| "replay_fit n h es (WPut k v # rest) \<longleftrightarrow> storable k v \<and> inline_at k es \<and>
     n + value_pages v + h + 2 < 2 ^ 32 \<and> replay_fit (n + value_pages v + h + 2) (Suc h) (ins_entry k v es) rest"
| "replay_fit n h es (WDelete k # rest) \<longleftrightarrow> False"

context tree_pool
begin

lemma replay_spec:
  assumes "bmap t h es" "replay_fit n H es rest" "unat (bt_size t) \<le> n" "h \<le> H"
  shows "runs (for_each (replay_entry L) rest) t (\<lambda>_ t'. \<exists>h'. bmap t' h' (foldl replayed es rest))"
  using assms
proof (induction rest arbitrary: t h es n H)
  case Nil
  then show ?case by auto
next
  case (Cons e rest)
  obtain k v where e: "e = WPut k v"
    using Cons.prems(2) by (cases e) auto
  have fit: "storable k v" "inline_at k es" "n + value_pages v + H + 2 < 2 ^ 32"
    "replay_fit (n + value_pages v + H + 2) (Suc H) (ins_entry k v es) rest"
    using Cons.prems(2) by (auto simp: e)
  obtain t' where t': "bt_insert L k v t = (Inr (), t')"
    "bmap t' h (ins_entry k v es) \<or> bmap t' (Suc h) (ins_entry k v es)"
    "unat (bt_size t') \<le> unat (bt_size t) + value_pages v + h + 2"
    using insert_spec [OF Cons.prems(1) fit(1,2)] fit(3) Cons.prems(3,4) by (auto simp: runs_def)
  then obtain h' where h': "bmap t' h' (ins_entry k v es)" "h' \<le> Suc H"
    using Cons.prems(4) by (metis Suc_le_mono le_SucI)
  have "unat (bt_size t') \<le> n + value_pages v + H + 2"
    using t'(3) Cons.prems(3,4) by linarith
  from Cons.IH [OF h'(1) fit(4) this h'(2)] show ?case
    using t'(1) by (simp add: e runs_def)
qed

lemma db_open_spec:
  assumes data: "data_map F lsn n h es" and cfg: "enabled (wal_cfg cfg)"
    and log: "wal_recover crc lsn (wal_open G) = (Inr rest, w)" and fit: "replay_fit (unat n) h es rest"
  obtains db h' where "db_open L crc cfg F G = Inr db" "db_wal db = Some w" "db_config db = cfg"
    "bmap (db_index db) h' (foldl replayed es rest)"
    "\<exists>n'. data_map (crashed_data db) lsn n' h' (foldl replayed es rest)"
proof -
  obtain p where p: "pager_open F = Inr p" "num_pages p = n" "pager_map p lsn h es"
    using data by (auto simp: data_map_def)
  have again: "pager_open (pfile p) = Inr p"
    by (rule pager_map_reopen [OF p(3)])
  have "pager_wf p" "meta_lsn (page_at p 0) = lsn"
    using p(3) by (auto simp: pager_map_def pager_inv_def)
  then have ck: "fst (pager_read_checkpoint_lsn p) = Inr lsn"
    by (simp add: pager_read_checkpoint_lsn_def pager_read_page_eq meta_lsn_def)
  obtain t where t: "bt_new L (pool_with_sync_interval (cfg_sync_interval (storage cfg)) (pool_new L p 1024)) = (Inr t, buffer_pool t)"
    "bmap t h es" "bt_size t = num_pages p"
    using p(3) by (rule open_map)
  obtain t1 h' where t1: "for_each (replay_entry L) rest t = (Inr (), t1)" "bmap t1 h' (foldl replayed es rest)"
    using replay_spec [OF t(2) fit] t(3) p(2) by (auto simp: runs_def)
  obtain t2 where t2: "bt_flush_and_sync L t1 = (Inr (), t2)" "bmap t2 h' (foldl replayed es rest)"
    "data_map (file_crash (pfile (pager (buffer_pool t2)))) lsn (bt_size t1) h' (foldl replayed es rest)"
    using t1(2) by (rule flush_map)
  show thesis
  proof (rule that [of "\<lparr>db_config = cfg, db_wal = Some w, db_index = t2\<rparr>" h'])
    show "db_open L crc cfg F G = Inr \<lparr>db_config = cfg, db_wal = Some w, db_index = t2\<rparr>"
      using ck cfg log by (simp add: db_open_def p(1) again t(1) t1(1) t2(1))
  qed (use t2 in \<open>auto simp: crashed_data_def\<close>)
qed

end

section \<open>The log beside the tree\<close>

definition logs :: "checksum \<Rightarrow> log_op list \<Rightarrow> wal \<Rightarrow> bool" where
  "logs crc log w \<longleftrightarrow> content (wal_file w) = concat (map (log_frame crc) (number 0 log)) \<and>
     wal_lsn w = of_nat (length log)"

lemma logs_append:
  assumes "logs crc log w"
  shows "\<exists>n w'. wal_append crc op w = (Inr n, w') \<and> logs crc (log @ [op]) w'"
  using assms unfolding wal_append_eq
  by (auto simp: logs_def wal_with_def file_append_def number_append add.commute)

lemma logs_sync: "logs crc log w \<Longrightarrow> \<exists>w'. wal_sync w = (Inr (), w') \<and> logs crc log w' \<and>
    content (file_crash (wal_file w')) = content (wal_file w')"
  by (simp add: wal_sync_def logs_def file_sync_def file_crash_def)

lemma logs_recover:
  assumes "content f = concat (map (log_frame crc) (number 0 log))" "list_all log_fits log" "length log < 2 ^ 64"
  shows "\<exists>w. wal_recover crc ck (wal_open f) = (Inr (delivered ck (rev (number 0 log))), w) \<and> logs crc log w"
proof -
  have eq: "wal_recover crc ck (wal_log crc log) = (Inr (delivered ck (rev (number 0 log))), wal_log crc log)"
    by (rule wal_recover_log [OF assms(2,3)])
  have n: "wal_lsn (wal_log crc log) = of_nat (length log)"
    by (simp add: wal_log_def wal_append_all_eq wal_with_def wal_open_def)
  obtain es m where loop: "recover_loop crc ck (content f) ([], Map.empty) 0 = (es, m)"
    by (cases "recover_loop crc ck (content f) ([], Map.empty) 0")
  then have r: "recover_loop crc ck (content (wal_file (wal_log crc log))) ([], Map.empty) 0 = (es, m)"
    using assms(1) by (simp add: content_wal_log)
  have "wal_recover crc ck (wal_log crc log) = (Inr es, (wal_log crc log)\<lparr>wal_lsn := m\<rparr>)"
    by (simp add: wal_recover_def r)
  then have es: "es = delivered ck (rev (number 0 log))" "wal_lsn (wal_log crc log) = m"
    using eq by (auto dest: arg_cong [of _ _ wal_lsn])
  show ?thesis
    using loop es n assms(1) by (auto simp: wal_recover_def wal_open_def logs_def)
qed

text \<open>The state of an open database: its map, and the records in its log.\<close>

definition db_map :: "'c cache_ops \<Rightarrow> ('c \<Rightarrow> bool) \<Rightarrow> checksum \<Rightarrow> u64 \<Rightarrow> 'c database \<Rightarrow> nat \<Rightarrow> (key \<times> bytes) list \<Rightarrow> log_op list \<Rightarrow> bool" where
  "db_map L ok crc lsn db h es log \<longleftrightarrow> bt_map L ok lsn (db_index db) h es \<and>
     (\<exists>w. db_wal db = Some w \<and> logs crc log w)"

lemma on_wal_Some:
  "db_wal db = Some w \<Longrightarrow> m w = (Inr (), w') \<Longrightarrow> on_wal m db = (Inr (), db\<lparr>db_wal := Some w'\<rparr>)"
  by (simp add: on_wal_def)

lemma log_write_spec:
  assumes "db_wal db = Some w" "logs crc log w"
  obtains w' where "log_write (wal_append crc op) db = (Inr (), db\<lparr>db_wal := Some w'\<rparr>)" "logs crc (log @ [op]) w'"
proof -
  obtain n w1 where 1: "wal_append crc op w = (Inr n, w1)" "logs crc (log @ [op]) w1"
    using logs_append [OF assms(2)] by blast
  obtain w2 where 2: "wal_sync w1 = (Inr (), w2)" "logs crc (log @ [op]) w2"
    using logs_sync [OF 1(2)] by blast
  show thesis
    using that [of w1] that [of w2] 1 2
    by (cases "sync_on_write (wal_cfg (db_config db))") (simp_all add: log_write_def on_wal_def assms(1))
qed

context tree_pool
begin

abbreviation "dmap crc \<equiv> db_map L ok crc lsn"

lemma db_begin_spec:
  assumes "dmap crc db h es log"
  shows "runs (db_begin_tx crc tx) db (\<lambda>_ db'. dmap crc db' h es (log @ [LogBegin tx]) \<and> db_index db' = db_index db)"
proof -
  obtain w where w: "db_wal db = Some w" "logs crc log w"
    using assms by (auto simp: db_map_def)
  obtain w' where "log_write (wal_append crc (LogBegin tx)) db = (Inr (), db\<lparr>db_wal := Some w'\<rparr>)"
    "logs crc (log @ [LogBegin tx]) w'"
    by (rule log_write_spec [OF w])
  then show ?thesis
    using assms by (auto simp: db_begin_tx_def runs_def db_map_def)
qed

lemma db_put_spec:
  assumes "dmap crc db h es log" "storable k v" "inline_at k es"
    "unat (bt_size (db_index db)) + value_pages v + h + 2 < 2 ^ 32"
  shows "runs (db_put_with_tx L crc tx k v) db (\<lambda>_ db'.
    (dmap crc db' h (ins_entry k v es) (log @ [LogPut tx k v]) \<or>
     dmap crc db' (Suc h) (ins_entry k v es) (log @ [LogPut tx k v])) \<and>
    unat (bt_size (db_index db')) \<le> unat (bt_size (db_index db)) + value_pages v + h + 2)"
proof -
  obtain w where w: "db_wal db = Some w" "logs crc log w" and m: "bmap (db_index db) h es"
    using assms(1) by (auto simp: db_map_def)
  obtain w' where 1: "log_write (wal_append crc (LogPut tx k v)) db = (Inr (), db\<lparr>db_wal := Some w'\<rparr>)"
    "logs crc (log @ [LogPut tx k v]) w'"
    by (rule log_write_spec [OF w])
  obtain t where 2: "bt_insert L k v (db_index db) = (Inr (), t)"
    "bmap t h (ins_entry k v es) \<or> bmap t (Suc h) (ins_entry k v es)"
    "unat (bt_size t) \<le> unat (bt_size (db_index db)) + value_pages v + h + 2"
    using insert_spec [OF m assms(2-4)] by (auto simp: runs_def)
  have "db_put_with_tx L crc tx k v db = (Inr (), db\<lparr>db_wal := Some w', db_index := t\<rparr>)"
    using 1(1) by (simp add: db_put_with_tx_def on_index_def 2(1))
  then show ?thesis
    using 1(2) 2(2,3) by (auto simp: runs_def db_map_def)
qed

lemma db_get_spec:
  assumes "bmap (db_index db) h es"
  shows "fst (db_get L k db) = Inr (map_of es k)"
  using search_spec [OF assms, of k] by (auto simp: db_get_def on_index_def runs_def split: prod.splits)

lemma db_commit_spec:
  assumes "dmap crc db h es log"
  shows "runs (db_commit_tx L crc tx) db (\<lambda>_ db'. dmap crc db' h es (log @ [LogCommit tx]) \<and>
    data_map (crashed_data db') lsn (bt_size (db_index db)) h es \<and>
    content (crashed_log db') = concat (map (log_frame crc) (number 0 (log @ [LogCommit tx]))) \<and>
    bt_size (db_index db') = bt_size (db_index db))"
proof -
  obtain w where w: "db_wal db = Some w" "logs crc log w" and m: "bmap (db_index db) h es"
    using assms(1) by (auto simp: db_map_def)
  obtain n w1 where 1: "wal_append crc (LogCommit tx) w = (Inr n, w1)" "logs crc (log @ [LogCommit tx]) w1"
    using logs_append [OF w(2)] by blast
  obtain w2 where 2: "wal_sync w1 = (Inr (), w2)" "logs crc (log @ [LogCommit tx]) w2"
    "content (file_crash (wal_file w2)) = content (wal_file w2)"
    using logs_sync [OF 1(2)] by blast
  obtain t where 3: "bt_flush_and_sync L (db_index db) = (Inr (), t)" "bmap t h es"
    "data_map (file_crash (pfile (pager (buffer_pool t)))) lsn (bt_size (db_index db)) h es"
    "bt_size t = bt_size (db_index db)"
    using m by (rule flush_map)
  have "db_commit_tx L crc tx db = (Inr (), db\<lparr>db_wal := Some w2, db_index := t\<rparr>)"
    using 1(1) 2(1) by (simp add: db_commit_tx_def on_index_def on_wal_def w(1) 3(1))
  then show ?thesis
    using 2 3 by (auto simp: runs_def db_map_def crashed_data_def crashed_log_def logs_def)
qed

lemma db_puts_spec:
  assumes "dmap crc db h es log" "replay_fit n H es (map (\<lambda>(k, v). WPut k v) ws @ rest)"
    "unat (bt_size (db_index db)) \<le> n" "h \<le> H"
  shows "runs (for_each (\<lambda>(k, v). db_put_with_tx L crc tx k v) ws) db (\<lambda>_ db'. \<exists>h' n' H'.
    dmap crc db' h' (foldl replayed es (map (\<lambda>(k, v). WPut k v) ws)) (log @ map (\<lambda>(k, v). LogPut tx k v) ws) \<and>
    replay_fit n' H' (foldl replayed es (map (\<lambda>(k, v). WPut k v) ws)) rest \<and>
    unat (bt_size (db_index db')) \<le> n' \<and> h' \<le> H')"
  using assms
proof (induction ws arbitrary: db h es log n H)
  case Nil
  then show ?case by auto
next
  case (Cons kv ws)
  obtain k v where kv: "kv = (k, v)"
    by (cases kv)
  have fit: "storable k v" "inline_at k es" "n + value_pages v + H + 2 < 2 ^ 32"
    "replay_fit (n + value_pages v + H + 2) (Suc H) (ins_entry k v es) (map (\<lambda>(k, v). WPut k v) ws @ rest)"
    using Cons.prems(2) by (auto simp: kv)
  obtain db1 where 1: "db_put_with_tx L crc tx k v db = (Inr (), db1)"
    "dmap crc db1 h (ins_entry k v es) (log @ [LogPut tx k v]) \<or>
     dmap crc db1 (Suc h) (ins_entry k v es) (log @ [LogPut tx k v])"
    "unat (bt_size (db_index db1)) \<le> unat (bt_size (db_index db)) + value_pages v + h + 2"
    using db_put_spec [OF Cons.prems(1) fit(1,2)] fit(3) Cons.prems(3,4) by (auto simp: runs_def)
  then obtain h' where h': "dmap crc db1 h' (ins_entry k v es) (log @ [LogPut tx k v])" "h' \<le> Suc H"
    using Cons.prems(4) by (metis Suc_le_mono le_SucI)
  have "unat (bt_size (db_index db1)) \<le> n + value_pages v + H + 2"
    using 1(3) Cons.prems(3,4) by linarith
  from Cons.IH [OF h'(1) fit(4) this h'(2)] show ?case
    by (auto simp: kv runs_def 1(1))
qed

end

section \<open>Transactions\<close>

definition db_transaction :: "'c cache_ops \<Rightarrow> checksum \<Rightarrow> u64 \<Rightarrow> (bytes \<times> bytes) list \<Rightarrow> ('c database, unit) M" where
  "db_transaction L crc tx writes =
     sthen (db_begin_tx crc tx)
     (sthen (for_each (\<lambda>(k, v). db_put_with_tx L crc tx k v) writes) (db_commit_tx L crc tx))"

abbreviation put_entries :: "(bytes \<times> bytes) list \<Rightarrow> wal_entry list" where
  "put_entries ws \<equiv> map (\<lambda>(k, v). WPut k v) ws"

definition tx_log :: "u64 \<Rightarrow> (bytes \<times> bytes) list \<Rightarrow> log_op list" where
  "tx_log tx ws = LogBegin tx # map (\<lambda>(k, v). LogPut tx k v) ws @ [LogCommit tx]"

lemma sorted_replayed: "sorted_keys es \<Longrightarrow> sorted_keys (foldl replayed es rest)"
proof (induction rest arbitrary: es)
  case Nil
  then show ?case by simp
next
  case (Cons e rest)
  then show ?case by (cases e) (simp_all add: sorted_ins_entry sorted_del_entry)
qed

lemma map_of_replayed_puts:
  "sorted_keys es \<Longrightarrow> map_of (foldl replayed es (put_entries ws)) k =
     (case map_of (rev ws) k of Some v \<Rightarrow> Some v | None \<Rightarrow> map_of es k)"
proof (induction ws arbitrary: es)
  case Nil
  then show ?case by simp
next
  case (Cons w ws)
  then show ?case
    by (cases w) (auto simp: sorted_ins_entry map_of_ins_entry map_add_def split: option.splits)
qed

lemma delivered_tx:
  assumes "tx \<noteq> 0" "unat ck \<le> length log" "length (log @ tx_log tx ws) < 2 ^ 64"
  shows "\<exists>old. delivered ck (rev (number 0 (log @ tx_log tx ws))) = old @ put_entries ws"
proof -
  let ?n = "of_nat (length log) :: u64"
  let ?puts = "map (\<lambda>(k, v). LogPut tx k v) ws"
  let ?mid = "number (?n + 1) ?puts"
  let ?older = "(?n + 1, LogBegin tx) # rev (number 0 log)"
  let ?last = "?n + 1 + of_nat (length ws) + 1"
  have num: "rev (number 0 (log @ tx_log tx ws)) = (?last, LogCommit tx) # rev ?mid @ ?older"
    by (simp add: tx_log_def number_append algebra_simps)
  have n: "unat ?n = length log"
    using assms(3) by (simp add: unat_of_nat tx_log_def)
  have above: "\<not> l \<le> ck" if "(l, op) \<in> set (number ?n (tx_log tx ws))" for l op
  proof -
    have "length log < unat l"
      using fst_number [of "tx_log tx ws" "length log" l op] that assms(3) by simp
    then show ?thesis
      using assms(2) by (simp add: word_le_nat_alt)
  qed
  have tail: "number ?n (tx_log tx ws) = (?n + 1, LogBegin tx) # ?mid @ [(?last, LogCommit tx)]"
    by (simp add: tx_log_def number_append algebra_simps)
  have "pending ck tx (rev ?mid @ ?older) = map (the \<circ> log_entry) (filter (\<lambda>op. log_tx op = tx) ?puts)"
    by (rule pending_collects) (use above in \<open>auto simp: tail\<close>)
  also have "filter (\<lambda>op. log_tx op = tx) ?puts = ?puts"
    by (auto intro!: filter_True)
  also have "map (the \<circ> log_entry) ?puts = put_entries ws"
    by auto
  finally have "delivered ck (rev (number 0 (log @ tx_log tx ws))) =
      delivered ck (rev ?mid @ ?older) @ put_entries ws"
    using above [of ?last "LogCommit tx"] assms(1) unfolding num by (simp add: tail)
  then show ?thesis
    by blast
qed

lemma replay_fit_mono:
  "replay_fit n H es rest \<Longrightarrow> m \<le> n \<Longrightarrow> h \<le> H \<Longrightarrow> replay_fit m h es rest"
proof (induction n H es rest arbitrary: m h rule: replay_fit.induct)
  case (2 n H es k v rest)
  then show ?case
    using 2(1) [of "m + value_pages v + h + 2" "Suc h"] by auto
qed auto

context tree_pool
begin

text \<open>Playing the writes of a transaction that has begun and committing it.\<close>

lemma db_commit_durable:
  assumes m: "dmap crc db h es (log @ [LogBegin tx])" and cfg: "enabled (wal_cfg cfg)" and tx: "tx \<noteq> 0"
    and log: "unat lsn \<le> length log" "list_all log_fits (log @ tx_log tx ws)" "length (log @ tx_log tx ws) < 2 ^ 64"
    and fit: "replay_fit (unat (bt_size (db_index db))) h es
      (put_entries ws @ delivered lsn (rev (number 0 (log @ tx_log tx ws))))"
  shows "\<exists>db1 db2 db3. for_each (\<lambda>(k, v). db_put_with_tx L crc tx k v) ws db = (Inr (), db1) \<and>
    db_commit_tx L crc tx db1 = (Inr (), db2) \<and>
    db_open L crc cfg (crashed_data db2) (crashed_log db2) = Inr db3 \<and>
    (\<forall>k\<in>fst ` set ws. fst (db_get L k db3) = Inr (map_of (rev ws) k))"
proof -
  let ?es = "foldl replayed es (put_entries ws)"
  let ?rest = "delivered lsn (rev (number 0 (log @ tx_log tx ws)))"
  obtain db2 h2 n2 H2 where 2: "for_each (\<lambda>(k, v). db_put_with_tx L crc tx k v) ws db = (Inr (), db2)"
    "dmap crc db2 h2 ?es ((log @ [LogBegin tx]) @ map (\<lambda>(k, v). LogPut tx k v) ws)"
    "replay_fit n2 H2 ?es ?rest" "unat (bt_size (db_index db2)) \<le> n2" "h2 \<le> H2"
    using db_puts_spec [OF m, of "unat (bt_size (db_index db))" h ws ?rest tx] fit by (auto simp: runs_def)
  obtain db3 where 3: "db_commit_tx L crc tx db2 = (Inr (), db3)"
    "data_map (crashed_data db3) lsn (bt_size (db_index db2)) h2 ?es"
    "content (crashed_log db3) = concat (map (log_frame crc) (number 0 (log @ tx_log tx ws)))"
    using db_commit_spec [OF 2(2), of tx] by (auto simp: runs_def tx_log_def)
  obtain w where w: "wal_recover crc lsn (wal_open (crashed_log db3)) = (Inr ?rest, w)"
    using logs_recover [OF 3(3) log(2,3)] by blast
  have fit2: "replay_fit (unat (bt_size (db_index db2))) h2 ?es ?rest"
    using 2(3-5) by (rule replay_fit_mono)
  obtain db4 h4 where 4: "db_open L crc cfg (crashed_data db3) (crashed_log db3) = Inr db4"
    "bmap (db_index db4) h4 (foldl replayed ?es ?rest)"
    using 3(2) cfg w fit2 by (rule db_open_spec)
  obtain old where old: "?rest = old @ put_entries ws"
    using delivered_tx [OF tx log(1,3)] by blast
  have "sorted_keys (foldl replayed ?es old)"
    using m by (intro sorted_replayed) (auto simp: db_map_def dest: bmap_sorted)
  then have look: "map_of (foldl replayed ?es ?rest) k = map_of (rev ws) k" if "k \<in> fst ` set ws" for k
    using that map_of_replayed_puts [of "foldl replayed ?es old" ws k] unfolding old foldl_append
    by (auto split: option.splits simp: map_of_eq_None_iff)
  show ?thesis
    using 2(1) 3(1) 4(1) db_get_spec [OF 4(2)] look by auto
qed

lemma db_transaction_spec:
  assumes m: "dmap crc db h es log" and cfg: "enabled (wal_cfg cfg)" and tx: "tx \<noteq> 0"
    and log: "unat lsn \<le> length log" "list_all log_fits (log @ tx_log tx ws)" "length (log @ tx_log tx ws) < 2 ^ 64"
    and fit: "replay_fit (unat (bt_size (db_index db))) h es
      (put_entries ws @ delivered lsn (rev (number 0 (log @ tx_log tx ws))))"
  shows "\<exists>db1 db2. db_transaction L crc tx ws db = (Inr (), db1) \<and>
    db_open L crc cfg (crashed_data db1) (crashed_log db1) = Inr db2 \<and>
    (\<forall>k\<in>fst ` set ws. fst (db_get L k db2) = Inr (map_of (rev ws) k))"
proof -
  obtain db1 where 1: "db_begin_tx crc tx db = (Inr (), db1)" "dmap crc db1 h es (log @ [LogBegin tx])"
    "db_index db1 = db_index db"
    using db_begin_spec [OF m] by (auto simp: runs_def)
  from db_commit_durable [OF 1(2) cfg tx log] fit 1(1,3) show ?thesis
    by (auto simp: db_transaction_def)
qed

end

section \<open>Closing\<close>

lemma pager_checkpoint_map:
  assumes "pager_map p lsn h es"
  obtains p' where "pager_write_checkpoint_lsn n p = (Inr (), p')" "pager_map p' n h es" "num_pages p' = num_pages p"
proof -
  let ?pg = "patch 12 (u64_to_le n) (page_at p 0)"
  have inv: "pager_wf p" "meta_magic_ok (page_at p 0)" "meta_free (page_at p 0) = U32_MAX"
    using assms by (auto simp: pager_map_def pager_inv_def)
  have len: "length (page_at p 0) = PAGE_SIZE"
    using inv(1) by simp
  have run: "pager_write_checkpoint_lsn n p = (Inr (), pager_put 0 ?pg p)"
    using inv(1) by (simp add: pager_write_checkpoint_lsn_def pager_eqs)
  have n0: "0 < num_pages p"
    using inv(1) by (rule wf_page_0)
  have at: "page_at (pager_put 0 ?pg p) q = (if q = 0 then ?pg else page_at p q)" for q
    using page_at_put [OF inv(1), of ?pg 0] len by simp
  have num: "num_pages (pager_put 0 ?pg p) = num_pages p"
    using n0 by (simp add: num_pages_put)
  have "pager_map (pager_put 0 ?pg p) n h es"
  proof (rule pager_map_cong [OF assms])
    show "pager_inv (pager_put 0 ?pg p) []"
      using inv len pager_put_wf [OF inv(1), of ?pg 0] by (simp add: pager_inv_def at)
  qed (use at num len in auto)
  with run num show thesis
    by (intro that)
qed

lemma pager_sync_map:
  assumes "pager_map p lsn h es"
  shows "pager_map (p\<lparr>pfile := file_sync (pfile p)\<rparr>) lsn h es"
proof (rule pager_map_cong [OF assms])
  let ?p = "p\<lparr>pfile := file_sync (pfile p)\<rparr>"
  have at: "page_at ?p q = page_at p q" for q
    by (simp add: page_at_def file_sync_def)
  show "pager_inv ?p []"
    using assms by (simp add: pager_map_def pager_inv_def at pager_wf_def) (simp add: file_sync_def)
qed (use assms in \<open>auto simp: page_at_def file_sync_def pager_map_def\<close>)

context tree_pool
begin

lemma db_close_spec:
  assumes "dmap crc db h es log"
  shows "runs (db_close L) db (\<lambda>_ db'. data_map (crashed_data db') (of_nat (length log)) (bt_size (db_index db)) h es \<and>
    content (crashed_log db') = [] \<and> file_crash (db_data db') = db_data db' \<and>
    (\<exists>w. db_wal db' = Some w \<and> content (wal_file w) = []))"
proof -
  obtain w where w: "db_wal db = Some w" "logs crc log w" and m: "bmap (db_index db) h es"
    using assms(1) by (auto simp: db_map_def)
  let ?t = "db_index db"
  have st: "pool_steady L ok lsn (buffer_pool ?t)"
    using m by (simp add: bt_map_def bt_steady_def)
  then have okay: "pool_okay (buffer_pool ?t)" and coh: "\<And>q. pool_coherent L (buffer_pool ?t) q"
    by (simp_all add: pool_steady_def)
  obtain s1 where 1: "pool_flush_all L (buffer_pool ?t) = (Inr (), s1)" "pool_okay s1" "evolves {} (buffer_pool ?t) s1"
    "\<And>q. pool_disk s1 q = pool_view L (buffer_pool ?t) q"
    using flush_all_spec [OF okay] coh by (auto simp: runs_def)
  note st1 = evolves_steady [OF st 1(2,3)]
  let ?t1 = "?t\<lparr>buffer_pool := s1\<rparr>"
  have "still ?t ?t1"
    using st1 by (simp add: still_def bt_steady_def bt_view_def)
  then have "bmap ?t1 h es"
    by (rule bmap_still [OF m])
  then have p1: "pager_map (pager s1) lsn h es"
    using bmap_disk [of ?t1 h es] 1(4) st1(2) by (simp add: fun_eq_iff)
  define p2 where "p2 = (pager s1)\<lparr>pfile := file_sync (pfile (pager s1))\<rparr>"
  have p2: "pager_map p2 lsn h es" "num_pages p2 = num_pages (pager s1)"
    unfolding p2_def using pager_sync_map [OF p1] by simp_all
  obtain p3 where p3: "pager_write_checkpoint_lsn (wal_current_lsn w) p2 = (Inr (), p3)"
    "pager_map p3 (wal_current_lsn w) h es" "num_pages p3 = num_pages p2"
    using p2(1) by (rule pager_checkpoint_map)
  define p4 where "p4 = p3\<lparr>pfile := file_sync (pfile p3)\<rparr>"
  have p4: "pager_map p4 (wal_current_lsn w) h es" "num_pages p4 = bt_size ?t"
    unfolding p4_def using pager_sync_map [OF p3(2)] p3(3) p2(2) st1(3) by simp_all
  have synced: "file_crash (pfile p4) = pfile p4"
    by (simp add: p4_def file_crash_def file_sync_def)
  then have data: "data_map (file_crash (pfile p4)) (of_nat (length log)) (bt_size ?t) h es"
    using pager_map_reopen [OF p4(1)] p4 w(2) by (auto simp: data_map_def wal_current_lsn_def logs_def)
  define w' where "w' = w\<lparr>wal_file := file_sync (file_set_len_0 (wal_file w)), wal_lsn := 0\<rparr>"
  have "db_close L db = (Inr (), db\<lparr>db_index := ?t\<lparr>buffer_pool := s1\<lparr>pager := p4\<rparr>\<rparr>, db_wal := Some w'\<rparr>)"
    using p3(1) unfolding p2_def
    by (simp add: db_close_def on_index_def bt_flush_all_def on_pool_def 1(1) bt_sync_def pool_sync_def
        on_pager_def pager_sync_def w(1) Let_def pool_write_checkpoint_lsn_def on_wal_def wal_checkpoint_def w'_def p4_def)
  then show ?thesis
    using data synced by (simp add: runs_def crashed_data_def crashed_log_def w'_def file_sync_def file_set_len_0_def)
      (simp add: file_crash_def)
qed

end

section \<open>A new database\<close>

lemma list_db_exists:
  assumes "enabled (wal_cfg cfg)"
  obtains db where "db_open lru_list crc cfg empty_file empty_file = Inr db"
    "db_map lru_list lru_list_ok crc 0 db 0 [] []" "bt_size (db_index db) = 2"
proof -
  obtain p where p: "pager_open empty_file = Inr p" "pager_inv p []" "num_pages p = 1" "page_at p 0 = meta_init"
    by (rule pager_open_empty)
  have again: "pager_open (pfile p) = Inr p"
    using p(2) by (simp add: pager_inv_def pager_reopen)
  have ck: "fst (pager_read_checkpoint_lsn p) = Inr 0"
    using p(2,4) by (simp add: pager_read_checkpoint_lsn_def pager_read_page_eq pager_inv_def flip: meta_lsn_def)
  let ?pool = "pool_with_sync_interval (cfg_sync_interval (storage cfg)) (pool_new lru_list p 1024)"
  have "pool_steady lru_list lru_list_ok 0 ?pool" "pool_view lru_list ?pool = page_at p" "num_pages (pager ?pool) = 1"
    using list_pool.new_steady [OF p(2), of "cfg_sync_interval (storage cfg)" 1024] p(3,4)
      list_pool.pool_new_ok [OF pager_inv_wf [OF p(2)], of "cfg_sync_interval (storage cfg)" 1024] by simp_all
  then obtain t where t: "bt_new lru_list ?pool = (Inr t, buffer_pool t)"
    "bt_map lru_list lru_list_ok 0 t 0 []" "bt_size t = 2"
    using list_tree.bt_new_fresh [of ?pool] p(4) by auto
  obtain t1 where t1: "bt_flush_and_sync lru_list t = (Inr (), t1)" "bt_map lru_list lru_list_ok 0 t1 0 []"
    "bt_size t1 = bt_size t"
    using t(2) by (rule list_tree.flush_map)
  obtain w where w: "wal_recover crc 0 (wal_open empty_file) = (Inr [], w)" "logs crc [] w"
    using logs_recover [of empty_file crc "[]" 0] by (auto simp: empty_file_def)
  show thesis
  proof (rule that [of "\<lparr>db_config = cfg, db_wal = Some w, db_index = t1\<rparr>"])
    show "db_open lru_list crc cfg empty_file empty_file = Inr \<lparr>db_config = cfg, db_wal = Some w, db_index = t1\<rparr>"
      using assms ck by (simp add: db_open_def p(1) again t(1) w(1) t1(1))
  qed (use t1 t(3) w(2) in \<open>auto simp: db_map_def\<close>)
qed

section \<open>Properties\<close>



text \<open>
  (C13) A clean shutdown keeps everything: \<open>close\<close> succeeds and leaves an empty log, and
  opening the files again, even after a power failure, gives a database with exactly the
  entries the closed one had.
\<close>

theorem db_close_reopen:
  assumes "lru_cache L ok" and "db_map L ok crc lsn db h es log" and "enabled (wal_cfg cfg)"
  shows "\<exists>db1 db2. db_close L db = (Inr (), db1) \<and>
    db_open L crc cfg (crashed_data db1) (crashed_log db1) = Inr db2 \<and>
    (\<exists>h'. db_map L ok crc (of_nat (length log)) db2 h' es []) \<and> (\<forall>k. fst (db_get L k db2) = Inr (map_of es k))"
proof -
  from assms(1) have tp: "tree_pool L ok"
    by (intro tree_pool.intro pool_cache.intro)
  obtain db1 where 1: "db_close L db = (Inr (), db1)"
    "data_map (crashed_data db1) (of_nat (length log)) (bt_size (db_index db)) h es" "content (crashed_log db1) = []"
    using tree_pool.db_close_spec [OF tp assms(2)] by (auto simp: runs_def)
  obtain w where w: "wal_recover crc (of_nat (length log)) (wal_open (crashed_log db1)) = (Inr [], w)" "logs crc [] w"
    using logs_recover [of "crashed_log db1" crc "[]"] 1(3) by auto
  obtain db2 h2 where 2: "db_open L crc cfg (crashed_data db1) (crashed_log db1) = Inr db2"
    "db_wal db2 = Some w" "bt_map L ok (of_nat (length log)) (db_index db2) h2 (foldl replayed es [])"
    by (rule tree_pool.db_open_spec [OF tp 1(2) assms(3) w(1)]) auto
  have "db_map L ok crc (of_nat (length log)) db2 h2 es []"
    using 2(2,3) w(2) by (simp add: db_map_def)
  moreover have "fst (db_get L k db2) = Inr (map_of es k)" for k
    using tree_pool.db_get_spec [OF tp 2(3), of k] by simp
  ultimately show ?thesis
    using 1(1) 2(1) by blast
qed

theorem db_close_reopen_witness:
  "\<exists>db db1 db2. db_open lru_list sum_crc config_default empty_file empty_file = Inr db \<and>
     db_close lru_list db = (Inr (), db1) \<and>
     db_open lru_list sum_crc config_default (crashed_data db1) (crashed_log db1) = Inr db2 \<and>
     fst (db_get lru_list [1] db2) = Inr None"
proof -
  have on: "enabled (wal_cfg config_default)"
    by (simp add: config_default_def)
  obtain db where db: "db_open lru_list sum_crc config_default empty_file empty_file = Inr db"
    "db_map lru_list lru_list_ok sum_crc 0 db 0 [] []"
    using on by (rule list_db_exists)
  show ?thesis
    using db_close_reopen [OF lru_list.lru_cache_axioms db(2) on] db(1) by auto
qed

end
