(* ===== verification/Store.thy ===== *)
theory Store
  imports Database
begin

text \<open>
  The database as the SQL layer sees it. \<open>CatalogManager\<close> and \<open>Executor\<close> hold a
  \<open>&Database\<close> and call its methods; \<open>store\<close> collects these methods, \<open>database_ops\<close> are the ones
  of \<open>Database\<close>. The locale \<open>key_store\<close> is what the SQL layer relies on: the methods
  behave like a sorted map as long as there is room for the writes to come.
\<close>

section \<open>Model\<close>

record 's store =
  st_get :: "bytes \<Rightarrow> ('s, bytes option) M"
  st_scan_prefix :: "bytes \<Rightarrow> ('s, (bytes \<times> bytes) list) M"
  st_put :: "bytes \<Rightarrow> bytes \<Rightarrow> ('s, unit) M"
  st_delete :: "bytes \<Rightarrow> ('s, unit) M"
  st_put_with_tx :: "u64 \<Rightarrow> bytes \<Rightarrow> bytes \<Rightarrow> ('s, unit) M"
  st_delete_with_tx :: "u64 \<Rightarrow> bytes \<Rightarrow> ('s, unit) M"
  st_begin_tx :: "u64 \<Rightarrow> ('s, unit) M"
  st_commit_tx :: "u64 \<Rightarrow> ('s, unit) M"
  st_rollback_tx :: "u64 \<Rightarrow> ('s, unit) M"

definition database_ops :: "'c cache_ops \<Rightarrow> checksum \<Rightarrow> 'c database store" where
  "database_ops L crc =
     \<lparr>st_get = db_get L, st_scan_prefix = db_scan_prefix L, st_put = db_put L crc, st_delete = db_delete L crc,
      st_put_with_tx = db_put_with_tx L crc, st_delete_with_tx = db_delete_with_tx L crc,
      st_begin_tx = db_begin_tx crc, st_commit_tx = db_commit_tx L crc, st_rollback_tx = db_rollback_tx crc\<rparr>"

section \<open>The contract\<close>

text \<open>Reading: \<open>holds s es\<close> says that the store stands for the entries \<open>es\<close>.\<close>

locale key_reader =
  fixes D :: "'s store" and holds :: "'s \<Rightarrow> (key \<times> bytes) list \<Rightarrow> bool"
  assumes sorted: "holds s es \<Longrightarrow> sorted_keys es"
    and get: "holds s es \<Longrightarrow> runs (st_get D k) s (\<lambda>r s'. r = map_of es k \<and> holds s' es)"
    and scan: "holds s es \<Longrightarrow> runs (st_scan_prefix D pfx) s (\<lambda>r s'. r = with_prefix pfx es \<and> holds s' es)"
begin

text \<open>The laws in the form in which proofs use them.\<close>

lemma getE:
  assumes "holds s es"
  obtains s' where "st_get D k s = (Inr (map_of es k), s')" "holds s' es"
  using get [OF assms] by (auto simp: runs_def)

lemma scanE:
  assumes "holds s es"
  obtains s' where "st_scan_prefix D pfx s = (Inr (with_prefix pfx es), s')" "holds s' es"
  using scan [OF assms] by (auto simp: runs_def)

end

text \<open>Writing: \<open>room s es ws\<close> says that there is also room for the puts \<open>ws\<close>, in this order.\<close>

locale key_store =
  fixes D :: "'s store" and room :: "'s \<Rightarrow> (key \<times> bytes) list \<Rightarrow> (key \<times> bytes) list \<Rightarrow> bool"
  assumes reader: "key_reader D (\<lambda>s es. room s es ws)"
    and put: "room s es ((k, v) # ws) \<Longrightarrow> runs (st_put_with_tx D tx k v) s (\<lambda>_ s'. room s' (ins_entry k v es) ws)"
    and put_0: "st_put D = st_put_with_tx D 0"
    and begin_tx: "room s es ws \<Longrightarrow> runs (st_begin_tx D tx) s (\<lambda>_ s'. room s' es ws)"
    and rollback_tx: "room s es ws \<Longrightarrow> runs (st_rollback_tx D tx) s (\<lambda>_ s'. room s' es ws)"
    and commit_tx: "room s es ws \<Longrightarrow> runs (st_commit_tx D tx) s (\<lambda>_ s'. room s' es ws)"
begin

sublocale reads: key_reader D "\<lambda>s es. room s es ws" for ws
  by (rule reader)

lemma putE:
  assumes "room s es ((k, v) # ws)"
  obtains s' where "st_put D k v s = (Inr (), s')" "room s' (ins_entry k v es) ws"
  using put [OF assms] by (auto simp: runs_def put_0)

end

section \<open>Database keeps the contract\<close>

definition db_holds :: "'c cache_ops \<Rightarrow> ('c \<Rightarrow> bool) \<Rightarrow> checksum \<Rightarrow> u64 \<Rightarrow> 'c database \<Rightarrow>
    (key \<times> bytes) list \<Rightarrow> (key \<times> bytes) list \<Rightarrow> bool" where
  "db_holds L ok crc lsn db es ws \<longleftrightarrow> (\<exists>h log n H. db_map L ok crc lsn db h es log \<and>
     replay_fit n H es (put_entries ws) \<and> unat (bt_size (db_index db)) \<le> n \<and> h \<le> H)"

text \<open>Reading leaves the log and the number of pages as they are.\<close>

definition db_logged :: "'c cache_ops \<Rightarrow> ('c \<Rightarrow> bool) \<Rightarrow> checksum \<Rightarrow> u64 \<Rightarrow> nat \<Rightarrow> page_id \<Rightarrow> log_op list \<Rightarrow>
    'c database \<Rightarrow> (key \<times> bytes) list \<Rightarrow> bool" where
  "db_logged L ok crc lsn h n log db es \<longleftrightarrow> db_map L ok crc lsn db h es log \<and> bt_size (db_index db) = n"

locale tree_store = tree_pool L ok lsn for L :: "'c cache_ops" and ok lsn +
  fixes crc :: checksum
begin

abbreviation "dholds \<equiv> db_holds L ok crc lsn"

lemma dmap_read:
  assumes "dmap crc db h es log" "still (db_index db) t"
  shows "dmap crc (db\<lparr>db_index := t\<rparr>) h es log" "bt_size t = bt_size (db_index db)"
  using assms bmap_still by (auto simp: db_map_def still_def)

lemma dholds_read:
  assumes "dholds db es ws" "still (db_index db) t"
  shows "dholds (db\<lparr>db_index := t\<rparr>) es ws"
proof -
  obtain h log n H where *: "dmap crc db h es log" "replay_fit n H es (put_entries ws)"
    "unat (bt_size (db_index db)) \<le> n" "h \<le> H"
    using assms(1) by (auto simp: db_holds_def)
  then show ?thesis
    using dmap_read [OF *(1) assms(2)] unfolding db_holds_def
    by (intro exI [of _ h] exI [of _ log] exI [of _ n] exI [of _ H]) simp
qed

lemma dholds_logged:
  assumes "dholds db es ws"
    and "\<And>h log. dmap crc db h es log \<Longrightarrow> runs m db (\<lambda>_ db'. (\<exists>log'. dmap crc db' h es log') \<and>
      bt_size (db_index db') = bt_size (db_index db))"
  shows "runs m db (\<lambda>_ db'. dholds db' es ws)"
proof -
  obtain h log n H where *: "dmap crc db h es log" "replay_fit n H es (put_entries ws)"
    "unat (bt_size (db_index db)) \<le> n" "h \<le> H"
    using assms(1) by (auto simp: db_holds_def)
  show ?thesis
    by (rule runs_mono [OF assms(2) [OF *(1)]]) (use *(2-4) in \<open>fastforce simp: db_holds_def\<close>)
qed

lemma dholds_bmap: "dholds db es ws \<Longrightarrow> \<exists>h. bmap (db_index db) h es"
  by (auto simp: db_holds_def db_map_def)

lemma db_rollback_spec:
  assumes "dmap crc db h es log"
  shows "runs (db_rollback_tx crc tx) db (\<lambda>_ db'. dmap crc db' h es (log @ [LogRollback tx]) \<and> db_index db' = db_index db)"
proof -
  obtain w where w: "db_wal db = Some w" "logs crc log w"
    using assms by (auto simp: db_map_def)
  obtain w' where "log_write (wal_append crc (LogRollback tx)) db = (Inr (), db\<lparr>db_wal := Some w'\<rparr>)"
    "logs crc (log @ [LogRollback tx]) w'"
    by (rule log_write_spec [OF w])
  then show ?thesis
    using assms by (auto simp: db_rollback_tx_def runs_def db_map_def)
qed

lemma reader_of_dmap:
  assumes "\<And>db es. P db es \<Longrightarrow> \<exists>h. bmap (db_index db) h es"
    and "\<And>db es t. P db es \<Longrightarrow> still (db_index db) t \<Longrightarrow> P (db\<lparr>db_index := t\<rparr>) es"
  shows "key_reader (database_ops L crc) P"
proof
  fix db es k pfx
  assume *: "P db es"
  then obtain h where h: "bmap (db_index db) h es"
    using assms(1) by blast
  show "sorted_keys es"
    using h bmap_sorted by blast
  show "runs (st_get (database_ops L crc) k) db (\<lambda>r s'. r = map_of es k \<and> P s' es)"
    using search_spec [OF h, of k] assms(2) [OF *] by (auto simp: runs_def database_ops_def db_get_def on_index_def)
  show "runs (st_scan_prefix (database_ops L crc) pfx) db (\<lambda>r s'. r = with_prefix pfx es \<and> P s' es)"
    using scan_spec [OF h, of pfx] assms(2) [OF *] by (auto simp: runs_def database_ops_def db_scan_prefix_def on_index_def)
qed

sublocale logged: key_reader "database_ops L crc" "db_logged L ok crc lsn h n log" for h n log
  by (rule reader_of_dmap) (auto simp: db_logged_def db_map_def still_def dest: bmap_still)

sublocale store: key_store "database_ops L crc" "db_holds L ok crc lsn"
proof (rule key_store.intro)
  fix db es ws k v tx
  show "key_reader (database_ops L crc) (\<lambda>db es. dholds db es ws)"
    by (rule reader_of_dmap) (auto dest: dholds_bmap dholds_read)
  show "runs (st_put_with_tx (database_ops L crc) tx k v) db (\<lambda>_ s'. dholds s' (ins_entry k v es) ws)"
    if *: "dholds db es ((k, v) # ws)"
  proof -
    obtain h log n H where m: "dmap crc db h es log" "replay_fit n H es (put_entries [(k, v)] @ put_entries ws)"
      "unat (bt_size (db_index db)) \<le> n" "h \<le> H"
      using * by (auto simp: db_holds_def)
    from db_puts_spec [OF m, of tx] show ?thesis
      by (auto simp: runs_then_eq database_ops_def db_holds_def elim!: runs_mono)
  qed
  show "st_put (database_ops L crc) = st_put_with_tx (database_ops L crc) 0"
    by (simp add: database_ops_def db_put_def fun_eq_iff)
  show "runs (st_begin_tx (database_ops L crc) tx) db (\<lambda>_ s'. dholds s' es ws)" if "dholds db es ws"
    by (rule dholds_logged [OF that]) (auto simp: database_ops_def elim!: runs_mono [OF db_begin_spec])
  show "runs (st_rollback_tx (database_ops L crc) tx) db (\<lambda>_ s'. dholds s' es ws)" if "dholds db es ws"
    by (rule dholds_logged [OF that]) (auto simp: database_ops_def elim!: runs_mono [OF db_rollback_spec])
  show "runs (st_commit_tx (database_ops L crc) tx) db (\<lambda>_ s'. dholds s' es ws)" if "dholds db es ws"
    by (rule dholds_logged [OF that]) (auto simp: database_ops_def elim!: runs_mono [OF db_commit_spec])
qed

lemma is_store: "key_store (database_ops L crc) (db_holds L ok crc lsn)"
  by (rule store.key_store_axioms)

lemma is_reader: "key_reader (database_ops L crc) (db_logged L ok crc lsn h n log)"
  by (rule logged.key_reader_axioms)

end

interpretation list_store: tree_store lru_list lru_list_ok 0 crc for crc
  by (intro tree_store.intro list_tree.tree_pool_axioms)

lemma lru_store:
  assumes "lru_cache L ok"
  shows "key_store (database_ops L crc) (db_holds L ok crc lsn)"
    and "key_reader (database_ops L crc) (db_logged L ok crc lsn h n log)"
proof -
  from assms have "tree_store L ok"
    by (intro tree_store.intro tree_pool.intro pool_cache.intro)
  then show "key_store (database_ops L crc) (db_holds L ok crc lsn)"
    "key_reader (database_ops L crc) (db_logged L ok crc lsn h n log)"
    by (rule tree_store.is_store tree_store.is_reader)+
qed

text \<open>Small records always fit; what the witnesses need.\<close>

fun small_put :: "wal_entry \<Rightarrow> bool" where
  "small_put (WPut k v) \<longleftrightarrow> length k + length v \<le> 168 \<and> length v \<noteq> 12"
| "small_put (WDelete k) \<longleftrightarrow> False"

lemma inline_at_small: "\<forall>(k, v)\<in>set es. length v \<le> 168 \<Longrightarrow> inline_at k es"
  by (fastforce simp: inline_at_def dest: map_of_SomeD)

lemma set_ins_entry_small:
  "\<forall>(k, v)\<in>set es. length v \<le> 168 \<Longrightarrow> length v \<le> 168 \<Longrightarrow> \<forall>(k, v)\<in>set (ins_entry k v es). length v \<le> 168"
  by (induction es) (auto split: if_splits)

lemma small_puts_fit:
  "list_all small_put rest \<Longrightarrow> \<forall>(k, v)\<in>set es. length v \<le> 168 \<Longrightarrow>
   n + length rest * (h + length rest + 2) < 2 ^ 32 \<Longrightarrow> replay_fit n h es rest"
proof (induction rest arbitrary: n h es)
  case (Cons e rest)
  obtain k v where e: "e = WPut k v" "length k + length v \<le> 168" "length v \<noteq> 12"
    using Cons.prems(1) by (cases e) auto
  have "n + (h + length rest + 3) + length rest * (h + length rest + 3) < 2 ^ 32"
    using Cons.prems(3) by (simp add: distrib_left distrib_right add.assoc)
  then have "(n + h + 2) + length rest * (Suc h + length rest + 2) < 2 ^ 32" "n + h + 2 < 2 ^ 32"
    by (simp_all add: distrib_left distrib_right)
  then show ?case
    using Cons.IH [of "ins_entry k v es" "n + h + 2" "Suc h"] Cons.prems(1,2) e set_ins_entry_small [of es v k]
      inline_at_small [of es k]
    by (simp add: storable_def stored_size_def value_pages_def is_overflow_def)
qed simp

lemma list_db_room:
  assumes "enabled (wal_cfg cfg)" "replay_fit 2 0 [] (put_entries ws)"
  obtains db where "db_open lru_list crc cfg empty_file empty_file = Inr db"
    "db_holds lru_list lru_list_ok crc 0 db [] ws"
proof -
  obtain db where db: "db_open lru_list crc cfg empty_file empty_file = Inr db"
    "db_map lru_list lru_list_ok crc 0 db 0 [] []" "bt_size (db_index db) = 2"
    using assms(1) by (rule list_db_exists)
  then have "db_holds lru_list lru_list_ok crc 0 db [] ws"
    using assms(2) unfolding db_holds_def
    by (intro exI [of _ 0] exI [of _ "[]"] exI [of _ 2]) simp
  with db(1) show thesis
    by (rule that)
qed

end
