(* ===== verification/Texts.thy ===== *)
theory Texts
  imports Bytes
begin

text \<open>
  Text: the functions of Rust's \<open>str\<close> and \<open>String\<close> that the SQL and network layers use. A
  string is its UTF-8 encoding, one \<open>char\<close> per byte. Decoding of bytes
  (\<open>String::from_utf8\<close>, \<open>String::from_utf8_lossy\<close>) is modelled for all inputs; the case
  mappings and the white space are those of ASCII, which the SQL keywords are written in.
  Integers are parsed and printed as \<open>FromStr\<close> and \<open>Display\<close> do.
\<close>

named_theorems text_simps "equations that compute with strings"

section \<open>Bytes of a string\<close>

definition byte_of :: "char \<Rightarrow> u8" where
  "byte_of c = of_nat (of_char c)"

definition char_at :: "u8 \<Rightarrow> char" where
  "char_at b = char_of (unat b)"

abbreviation as_bytes :: "string \<Rightarrow> bytes" where
  "as_bytes s \<equiv> map byte_of s"

abbreviation of_bytes :: "bytes \<Rightarrow> string" where
  "of_bytes bs \<equiv> map char_at bs"

lemma char_at_byte_of [simp]: "char_at (byte_of c) = c"
proof -
  have "of_char c < (256 :: nat)"
    by (simp add: of_char_def)
  then show ?thesis
    by (simp add: char_at_def byte_of_def unat_of_nat)
qed

lemma byte_of_char_at [simp]: "byte_of (char_at b) = b"
  using unat_less_pow [of b] by (simp add: char_at_def byte_of_def)

lemma char_at_comp [simp]: "char_at \<circ> byte_of = id" "byte_of \<circ> char_at = id"
  by (simp_all add: fun_eq_iff)

lemma byte_of_eq [simp]: "byte_of c = byte_of d \<longleftrightarrow> c = d"
  by (metis char_at_byte_of)

lemma as_bytes_inject [simp]: "as_bytes s = as_bytes t \<longleftrightarrow> s = t"
  by (simp add: inj_def)

section \<open>UTF-8\<close>

text \<open>
  \<open>utf8_step\<close> looks at the front of a non-empty buffer: how many bytes the next character
  has, or how many bytes the decoder gives up on before it resumes.
\<close>

definition cont_byte :: "nat \<Rightarrow> bool" where
  "cont_byte b \<longleftrightarrow> 128 \<le> b \<and> b < 192"

definition second_byte :: "nat \<Rightarrow> nat \<Rightarrow> bool" where
  "second_byte a b \<longleftrightarrow>
     (if a = 224 then 160 \<le> b \<and> b < 192
      else if a = 237 then 128 \<le> b \<and> b < 160
      else if a = 240 then 144 \<le> b \<and> b < 192
      else if a = 244 then 128 \<le> b \<and> b < 144
      else cont_byte b)"

fun utf8_step :: "nat list \<Rightarrow> bool \<times> nat" where
  "utf8_step [] = (True, 0)"
| "utf8_step (a # rest) =
     (if a < 128 then (True, 1)
      else if 194 \<le> a \<and> a < 224 then
        (case rest of b # _ \<Rightarrow> if cont_byte b then (True, 2) else (False, 1) | [] \<Rightarrow> (False, 1))
      else if 224 \<le> a \<and> a < 240 then
        (case rest of
           b # rest' \<Rightarrow> if second_byte a b
             then (case rest' of c # _ \<Rightarrow> if cont_byte c then (True, 3) else (False, 2) | [] \<Rightarrow> (False, 2))
             else (False, 1)
         | [] \<Rightarrow> (False, 1))
      else if 240 \<le> a \<and> a < 245 then
        (case rest of
           b # rest' \<Rightarrow> if second_byte a b
             then (case rest' of
                 c # rest'' \<Rightarrow> if cont_byte c
                   then (case rest'' of d # _ \<Rightarrow> if cont_byte d then (True, 4) else (False, 3) | [] \<Rightarrow> (False, 3))
                   else (False, 2)
               | [] \<Rightarrow> (False, 2))
             else (False, 1)
         | [] \<Rightarrow> (False, 1))
      else (False, 1))"

lemma utf8_step_pos: "bs \<noteq> [] \<Longrightarrow> 0 < snd (utf8_step bs)"
  by (cases bs) (auto split: list.splits)

function utf8_valid :: "nat list \<Rightarrow> bool" where
  "utf8_valid bs =
     (if bs = [] then True
      else if fst (utf8_step bs) then utf8_valid (drop (snd (utf8_step bs)) bs) else False)"
  by auto
termination
  by (relation "measure length") (simp_all add: utf8_step_pos)

declare utf8_valid.simps [simp del]

function lossy :: "nat list \<Rightarrow> nat list" where
  "lossy bs =
     (if bs = [] then []
      else (if fst (utf8_step bs) then take (snd (utf8_step bs)) bs else [239, 191, 189]) @
           lossy (drop (snd (utf8_step bs)) bs))"
  by auto
termination
  by (relation "measure length") (simp_all add: utf8_step_pos)

declare lossy.simps [simp del]

definition from_utf8 :: "bytes \<Rightarrow> string res" where
  "from_utf8 bs = (if utf8_valid (map unat bs) then Inr (of_bytes bs) else Inl Utf8Error)"

definition from_utf8_lossy :: "bytes \<Rightarrow> string" where
  "from_utf8_lossy bs = map char_of (lossy (map unat bs))"

text \<open>The strings of the program are valid UTF-8.\<close>

definition valid_str :: "string \<Rightarrow> bool" where
  "valid_str s \<longleftrightarrow> utf8_valid (map of_char s)"

lemma unat_byte_of: "unat (byte_of c) = of_char c"
proof -
  have "of_char c < (256 :: nat)"
    by (simp add: of_char_def)
  then show ?thesis
    by (simp add: byte_of_def unat_of_nat)
qed

lemma unat_as_bytes [simp]: "map (unat \<circ> byte_of) s = map of_char s"
  by (simp add: unat_byte_of)

lemma lossy_valid: "utf8_valid bs \<Longrightarrow> lossy bs = bs"
proof (induction bs rule: lossy.induct)
  case (1 bs)
  show ?case
  proof (cases "bs = []")
    case False
    then have "fst (utf8_step bs)" "utf8_valid (drop (snd (utf8_step bs)) bs)"
      using "1.prems" by (simp_all add: utf8_valid.simps [of bs] split: if_splits)
    then show ?thesis
      using "1.IH" [OF False] False by (simp add: lossy.simps [of bs])
  qed (simp add: lossy.simps)
qed

lemma from_utf8_as_bytes [simp]: "valid_str s \<Longrightarrow> from_utf8 (as_bytes s) = Inr s"
  by (simp add: from_utf8_def valid_str_def)

lemma from_utf8_lossy_as_bytes [simp]: "valid_str s \<Longrightarrow> from_utf8_lossy (as_bytes s) = s"
  by (simp add: from_utf8_lossy_def valid_str_def lossy_valid)

lemma ascii_utf8: "list_all (\<lambda>b. b < 128) bs \<Longrightarrow> utf8_valid bs"
proof (induction bs)
  case (Cons b bs)
  then show ?case by (simp add: utf8_valid.simps [of "b # bs"])
qed (simp add: utf8_valid.simps)

definition ascii :: "string \<Rightarrow> bool" where
  "ascii s \<longleftrightarrow> list_all (\<lambda>c. of_char c < (128 :: nat)) s"

lemma ascii_valid: "ascii s \<Longrightarrow> valid_str s"
  by (simp add: ascii_def valid_str_def ascii_utf8 list_all_iff)

lemma ascii_simps [simp]:
  "ascii []" "ascii (c # s) \<longleftrightarrow> of_char c < (128 :: nat) \<and> ascii s" "ascii (s @ t) \<longleftrightarrow> ascii s \<and> ascii t"
  by (simp_all add: ascii_def)

section \<open>Searching\<close>

abbreviation starts_with :: "string \<Rightarrow> string \<Rightarrow> bool" where
  "starts_with p s \<equiv> take (length p) s = p"

definition ends_with :: "string \<Rightarrow> string \<Rightarrow> bool" where
  "ends_with p s \<longleftrightarrow> starts_with (rev p) (rev s)"

fun strip_prefix :: "string \<Rightarrow> string \<Rightarrow> string option" where
  "strip_prefix [] s = Some s"
| "strip_prefix (p # ps) [] = None"
| "strip_prefix (p # ps) (c # cs) = (if p = c then strip_prefix ps cs else None)"

fun find_str :: "string \<Rightarrow> string \<Rightarrow> nat option" where
  "find_str p [] = (if p = [] then Some 0 else None)"
| "find_str p (c # cs) = (if starts_with p (c # cs) then Some 0 else map_option Suc (find_str p cs))"

definition contains_str :: "string \<Rightarrow> string \<Rightarrow> bool" where
  "contains_str p s \<longleftrightarrow> find_str p s \<noteq> None"

fun rfind_char :: "char \<Rightarrow> string \<Rightarrow> nat option" where
  "rfind_char c [] = None"
| "rfind_char c (d # ds) =
     (case rfind_char c ds of Some i \<Rightarrow> Some (Suc i) | None \<Rightarrow> if d = c then Some 0 else None)"

fun position :: "('a \<Rightarrow> bool) \<Rightarrow> 'a list \<Rightarrow> nat option" where
  "position P [] = None"
| "position P (x # xs) = (if P x then Some 0 else map_option Suc (position P xs))"

lemma strip_prefix_append [simp]: "strip_prefix p (p @ s) = Some s"
  by (induction p) auto

lemma strip_prefix_Some: "strip_prefix p s = Some t \<Longrightarrow> s = p @ t"
  by (induction p s rule: strip_prefix.induct) (auto split: if_splits)

lemma find_str_Some:
  "find_str p s = Some i \<Longrightarrow> i + length p \<le> length s \<and> take (length p) (drop i s) = p"
proof (induction p s arbitrary: i rule: find_str.induct)
  case (2 p c cs)
  show ?case
  proof (cases "starts_with p (c # cs)")
    case True
    then have "length p \<le> length (c # cs)"
      by (metis length_take min.cobounded1)
    then show ?thesis
      using 2(2) True by simp
  qed (use 2 in auto)
qed (auto split: if_splits)

lemma rfind_char_Some: "rfind_char c s = Some i \<Longrightarrow> i < length s \<and> s ! i = c"
  by (induction s arbitrary: i) (auto split: option.splits if_splits)

lemma position_Some: "position P xs = Some i \<Longrightarrow> i < length xs \<and> P (xs ! i)"
  by (induction xs arbitrary: i) (auto split: if_splits)

lemma position_least: "position P xs = Some i \<Longrightarrow> j < i \<Longrightarrow> \<not> P (xs ! j)"
  by (induction xs arbitrary: i j) (auto split: if_splits simp: nth_Cons split: nat.splits)

lemma position_None: "position P xs = None \<longleftrightarrow> (\<forall>x\<in>set xs. \<not> P x)"
  by (induction xs) auto

text \<open>\<open>&s[a..b]\<close>: the ends must be in order, in range and between characters.\<close>

definition char_boundary :: "string \<Rightarrow> nat \<Rightarrow> bool" where
  "char_boundary s i \<longleftrightarrow> i = 0 \<or> i = length s \<or> i < length s \<and> \<not> cont_byte (of_char (s ! i))"

definition str_slice :: "string \<Rightarrow> nat \<Rightarrow> nat \<Rightarrow> string res" where
  "str_slice s a b =
     (if a \<le> b \<and> char_boundary s a \<and> char_boundary s b then Inr (slice a b s) else Inl Panic)"

abbreviation str_from :: "string \<Rightarrow> nat \<Rightarrow> string res" where
  "str_from s a \<equiv> str_slice s a (length s)"

abbreviation str_to :: "string \<Rightarrow> nat \<Rightarrow> string res" where
  "str_to s b \<equiv> str_slice s 0 b"

section \<open>Trimming, splitting, joining\<close>

definition white_space :: "char \<Rightarrow> bool" where
  "white_space c \<longleftrightarrow> (let n = of_char c :: nat in n = 32 \<or> 9 \<le> n \<and> n \<le> 13)"

definition trim_start_by :: "(char \<Rightarrow> bool) \<Rightarrow> string \<Rightarrow> string" where
  "trim_start_by P s = dropWhile P s"

definition trim_end_by :: "(char \<Rightarrow> bool) \<Rightarrow> string \<Rightarrow> string" where
  "trim_end_by P s = rev (dropWhile P (rev s))"

definition trim_by :: "(char \<Rightarrow> bool) \<Rightarrow> string \<Rightarrow> string" where
  "trim_by P s = trim_end_by P (trim_start_by P s)"

abbreviation trim :: "string \<Rightarrow> string" where
  "trim s \<equiv> trim_by white_space s"

abbreviation trim_char :: "char \<Rightarrow> string \<Rightarrow> string" where
  "trim_char c s \<equiv> trim_by (\<lambda>d. d = c) s"

fun split_by :: "('a \<Rightarrow> bool) \<Rightarrow> 'a list \<Rightarrow> 'a list list" where
  "split_by P [] = [[]]"
| "split_by P (c # cs) =
     (if P c then [] # split_by P cs
      else (case split_by P cs of [] \<Rightarrow> [[c]] | w # ws \<Rightarrow> (c # w) # ws))"

abbreviation split_char :: "char \<Rightarrow> string \<Rightarrow> string list" where
  "split_char c s \<equiv> split_by (\<lambda>d. d = c) s"

definition split_whitespace :: "string \<Rightarrow> string list" where
  "split_whitespace s = filter (\<lambda>w. w \<noteq> []) (split_by white_space s)"

text \<open>\<open>s.splitn(n, c)\<close>: at most \<open>n\<close> pieces.\<close>

fun splitn :: "nat \<Rightarrow> char \<Rightarrow> string \<Rightarrow> string list" where
  "splitn 0 c s = []"
| "splitn (Suc 0) c s = [s]"
| "splitn (Suc (Suc n)) c s =
     (case dropWhile (\<lambda>d. d \<noteq> c) s of
        [] \<Rightarrow> [s]
      | _ # rest \<Rightarrow> takeWhile (\<lambda>d. d \<noteq> c) s # splitn (Suc n) c rest)"

fun join :: "string \<Rightarrow> string list \<Rightarrow> string" where
  "join sep [] = []"
| "join sep [s] = s"
| "join sep (s # t # ss) = s @ sep @ join sep (t # ss)"

definition newline :: char where
  "newline = CHR 10"

text \<open>\<open>str::lines\<close>: a final line break ends the last line, and a carriage return before a line break is dropped.\<close>

definition chomp :: "string \<Rightarrow> string" where
  "chomp s = (if s \<noteq> [] \<and> last s = CHR 13 then butlast s else s)"

definition lines :: "string \<Rightarrow> string list" where
  "lines s =
     (let ps = split_char newline s in
      map chomp (butlast ps) @ (if last ps = [] then [] else [last ps]))"

lemma split_by_not_Nil [simp]: "split_by P s \<noteq> []"
  by (cases s) (auto split: list.splits)

lemma split_by_sep:
  "P c \<Longrightarrow> (\<And>d. d \<in> set s \<Longrightarrow> \<not> P d) \<Longrightarrow> split_by P (s @ c # t) = s # split_by P t"
  by (induction s) (auto split: list.splits)

lemma split_by_single: "(\<And>d. d \<in> set s \<Longrightarrow> \<not> P d) \<Longrightarrow> split_by P s = [s]"
  by (induction s) auto

text \<open>Splitting undoes joining when no part holds the separator.\<close>

lemma split_join:
  "ss \<noteq> [] \<Longrightarrow> (\<forall>s\<in>set ss. c \<notin> set s) \<Longrightarrow> split_char c (join [c] ss) = ss"
proof (induction ss rule: induct_list012)
  case (2 s)
  then show ?case by (auto intro: split_by_single)
next
  case (3 s t ss)
  then have "split_char c (s @ c # join [c] (t # ss)) = s # split_char c (join [c] (t # ss))"
    by (intro split_by_sep) auto
  with 3 show ?case
    by simp
qed simp

lemma join_split: "join [c] (split_char c s) = s"
proof (induction s)
  case (Cons d s)
  obtain w ws where w: "split_char c s = w # ws"
    by (meson split_by_not_Nil neq_Nil_conv)
  then show ?case
    using Cons by (cases ws) auto
qed simp

lemma split_by_parts: "w \<in> set (split_by P s) \<Longrightarrow> d \<in> set w \<Longrightarrow> d \<in> set s \<and> \<not> P d"
proof (induction s arbitrary: w)
  case (Cons c s)
  obtain v vs where "split_by P s = v # vs"
    by (meson split_by_not_Nil neq_Nil_conv)
  then show ?case
    using Cons by (fastforce split: if_splits)
qed simp

lemma trim_id: "s = [] \<or> \<not> P (hd s) \<and> \<not> P (last s) \<Longrightarrow> trim_by P s = s"
proof (cases s)
  case (Cons c t)
  assume *: "s = [] \<or> \<not> P (hd s) \<and> \<not> P (last s)"
  have "dropWhile P (rev s) = rev s"
    using * Cons hd_rev [of s] by (simp only: dropWhile_eq_self_iff) simp
  then show ?thesis
    using * Cons by (simp add: trim_by_def trim_start_by_def trim_end_by_def)
qed (simp add: trim_by_def trim_start_by_def trim_end_by_def)

lemma trim_by_idem [simp]: "trim_by P (trim_by P s) = trim_by P s"
proof (rule trim_id)
  show "trim_by P s = [] \<or> \<not> P (hd (trim_by P s)) \<and> \<not> P (last (trim_by P s))"
  proof (cases "trim_by P s = []")
    case False
    let ?t = "dropWhile P s"
    have ne: "dropWhile P (rev ?t) \<noteq> []"
      using False unfolding trim_by_def trim_end_by_def trim_start_by_def by blast
    have "last (trim_by P s) = hd (dropWhile P (rev ?t))"
      unfolding trim_by_def trim_end_by_def trim_start_by_def by (rule last_rev)
    then have "\<not> P (last (trim_by P s))"
      using hd_dropWhile [OF ne] by simp
    moreover have "?t \<noteq> []"
      using ne by (auto dest: set_dropWhileD simp del: dropWhile_eq_Nil_conv)
    moreover have "hd (trim_by P s) = hd ?t"
    proof -
      have "rev ?t = takeWhile P (rev ?t) @ dropWhile P (rev ?t)"
        by simp
      then have "?t = rev (dropWhile P (rev ?t)) @ rev (takeWhile P (rev ?t))"
        by (metis rev_append rev_rev_ident)
      then show ?thesis
        using ne by (metis hd_append2 rev_is_Nil_conv trim_by_def trim_end_by_def trim_start_by_def)
    qed
    ultimately show ?thesis
      using hd_dropWhile by metis
  qed simp
qed

lemma length_trim_by: "length (trim_by P s) \<le> length s"
  by (simp add: trim_by_def trim_end_by_def trim_start_by_def)
    (metis length_dropWhile_le length_rev order_trans)

lemma trim_by_Cons: "P a \<Longrightarrow> trim_by P (a # s) = trim_by P s"
  by (simp add: trim_by_def trim_start_by_def)

lemma white_blank [simp]: "white_space (CHR '' '')"
  by (simp add: white_space_def)

lemma trim_by_snoc: "P b \<Longrightarrow> trim_by P (s @ [b]) = trim_by P s"
  by (cases "\<forall>x\<in>set s. P x")
    (auto simp: trim_by_def trim_start_by_def trim_end_by_def dropWhile_append dest: set_dropWhileD)

lemma trim_end_append: "p \<noteq> [] \<Longrightarrow> \<not> P (last p) \<Longrightarrow> trim_end_by P (p @ q) = p @ trim_end_by P q"
  by (cases p rule: rev_cases) (auto simp: trim_end_by_def dropWhile_append dest: set_dropWhileD)

lemma length_trim_end_by: "length (trim_end_by P s) \<le> length s"
  by (simp add: trim_end_by_def) (metis length_dropWhile_le length_rev)

lemma trim_ends:
  assumes "P a" "P b" "s \<noteq> []" "\<not> P (hd s)" "\<not> P (last s)"
  shows "trim_by P (a # s @ [b]) = s"
proof -
  have "trim_by P (a # s @ [b]) = trim_by P s"
    using assms by (cases s) (simp_all add: trim_by_def trim_start_by_def trim_end_by_def)
  then show ?thesis
    using assms trim_id [of s P] by simp
qed

lemma trim_end_snoc: "P b \<Longrightarrow> trim_end_by P (s @ [b]) = trim_end_by P s"
  by (simp add: trim_end_by_def)

lemma join_chars: "c \<in> set (join sep r) \<Longrightarrow> c \<in> set sep \<or> (\<exists>s\<in>set r. c \<in> set s)"
  by (induction sep r rule: join.induct) auto

text \<open>A pattern without the character \<open>c\<close> is found on one side of it.\<close>

lemma starts_with_sep:
  assumes "c \<notin> set p" "p \<noteq> []"
  shows "starts_with p (a @ c # b) \<longleftrightarrow> starts_with p a"
proof (cases "length p \<le> length a")
  case False
  have "starts_with p (a @ c # b) \<Longrightarrow> c \<in> set p"
  proof -
    assume *: "starts_with p (a @ c # b)"
    have "c \<in> set (take (length p) (a @ c # b))"
      using False by (simp add: take_Cons' Suc_diff_le)
    then show "c \<in> set p"
      by (simp only: *)
  qed
  moreover have "\<not> starts_with p a"
    using False by (metis length_take min.cobounded1)
  ultimately show ?thesis
    using assms by blast
qed simp

lemma find_str_sep:
  assumes "c \<notin> set p" "p \<noteq> []"
  shows "find_str p (a @ c # b) =
    (case find_str p a of Some i \<Rightarrow> Some i | None \<Rightarrow> map_option (\<lambda>j. j + length a + 1) (find_str p b))"
proof (induction a)
  case Nil
  have "\<not> starts_with p (c # b)"
    using starts_with_sep [OF assms, of "[]" b] assms(2) by simp
  with assms show ?case
    by (simp add: option.map_comp comp_def)
next
  case (Cons x a)
  show ?case
  proof (cases "starts_with p (x # a)")
    case True
    then have "starts_with p ((x # a) @ c # b)"
      using starts_with_sep [OF assms] by blast
    with True show ?thesis
      by simp
  next
    case False
    then have "\<not> starts_with p ((x # a) @ c # b)"
      using starts_with_sep [OF assms] by blast
    with False Cons show ?thesis
      by (simp add: option.map_comp comp_def split: option.splits)
  qed
qed

lemma find_str_absent: "c \<in> set p \<Longrightarrow> c \<notin> set s \<Longrightarrow> find_str p s = None"
proof (rule ccontr)
  assume *: "c \<in> set p" "c \<notin> set s" "find_str p s \<noteq> None"
  then obtain i where "take (length p) (drop i s) = p"
    using find_str_Some by blast
  then have "set p \<subseteq> set s"
    by (metis set_drop_subset set_take_subset subset_trans)
  with * show False
    by blast
qed

text \<open>What a witness unfolds to trim and split a literal.\<close>

lemmas text_eval = split_whitespace_def trim_by_def trim_start_by_def trim_end_by_def white_space_def

section \<open>Case, comparison, replacement\<close>

fun ascii_upper :: "char \<Rightarrow> char" where
  "ascii_upper (Char b0 b1 b2 b3 b4 b5 b6 b7) =
     (if of_char (Char b0 b1 b2 b3 b4 b5 b6 b7) \<in> {97..122 :: nat}
      then Char b0 b1 b2 b3 b4 False b6 b7 else Char b0 b1 b2 b3 b4 b5 b6 b7)"

fun ascii_lower :: "char \<Rightarrow> char" where
  "ascii_lower (Char b0 b1 b2 b3 b4 b5 b6 b7) =
     (if of_char (Char b0 b1 b2 b3 b4 b5 b6 b7) \<in> {65..90 :: nat}
      then Char b0 b1 b2 b3 b4 True b6 b7 else Char b0 b1 b2 b3 b4 b5 b6 b7)"

lemma ascii_lower_other: "of_char c \<notin> {65..90 :: nat} \<Longrightarrow> ascii_lower c = c"
  by (cases c) (simp only: ascii_lower.simps if_False)

lemma ascii_upper_other: "of_char c \<notin> {97..122 :: nat} \<Longrightarrow> ascii_upper c = c"
  by (cases c) (simp only: ascii_upper.simps if_False)

abbreviation to_uppercase :: "string \<Rightarrow> string" where
  "to_uppercase s \<equiv> map ascii_upper s"

abbreviation to_lowercase :: "string \<Rightarrow> string" where
  "to_lowercase s \<equiv> map ascii_lower s"

definition eq_ignore_case :: "string \<Rightarrow> string \<Rightarrow> bool" where
  "eq_ignore_case s t \<longleftrightarrow> to_lowercase s = to_lowercase t"

primrec reverse_ord :: "ordering \<Rightarrow> ordering" where
  "reverse_ord Less = Greater"
| "reverse_ord Equal = Equal"
| "reverse_ord Greater = Less"

abbreviation str_less :: "string \<Rightarrow> string \<Rightarrow> bool" where
  "str_less s t \<equiv> as_bytes s < as_bytes t"

definition str_cmp :: "string \<Rightarrow> string \<Rightarrow> ordering" where
  "str_cmp s t = cmp (as_bytes s) (as_bytes t)"

text \<open>\<open>s.replace(from, to)\<close> for a non-empty \<open>from\<close>: matches are found left to right and do not overlap.\<close>

function replace_str :: "string \<Rightarrow> string \<Rightarrow> string \<Rightarrow> string" where
  "replace_str p q s =
     (case s of
        [] \<Rightarrow> []
      | c # cs \<Rightarrow> if p \<noteq> [] \<and> starts_with p s then q @ replace_str p q (drop (length p) s)
                  else c # replace_str p q cs)"
  by auto
termination
  by (relation "measure (\<lambda>(p, q, s). length s)") auto

declare replace_str.simps [simp del]

section \<open>Decimal numbers\<close>

definition digit :: "nat \<Rightarrow> char" where
  "digit n = ''0123456789'' ! n"

definition is_digit :: "char \<Rightarrow> bool" where
  "is_digit c \<longleftrightarrow> (let n = of_char c :: nat in 48 \<le> n \<and> n \<le> 57)"

definition digit_val :: "char \<Rightarrow> nat" where
  "digit_val c = of_char c - 48"

fun nat_str :: "nat \<Rightarrow> string" where
  "nat_str n = (if n < 10 then [digit n] else nat_str (n div 10) @ [digit (n mod 10)])"

declare nat_str.simps [simp del]

definition int_str :: "int \<Rightarrow> string" where
  "int_str i = (if i < 0 then ''-'' @ nat_str (nat (- i)) else nat_str (nat i))"

definition dec_val :: "string \<Rightarrow> nat" where
  "dec_val s = foldl (\<lambda>n c. 10 * n + digit_val c) 0 s"

text \<open>\<open>s.parse\<close> for an unsigned type with values below \<open>bound\<close>, and for a signed type with \<open>- half \<le> i < half\<close>.\<close>

definition parse_digits :: "string \<Rightarrow> nat option" where
  "parse_digits s = (if s \<noteq> [] \<and> list_all is_digit s then Some (dec_val s) else None)"

definition parse_unsigned :: "nat \<Rightarrow> string \<Rightarrow> nat option" where
  "parse_unsigned bound s =
     (case parse_digits (case strip_prefix ''+'' s of Some t \<Rightarrow> t | None \<Rightarrow> s) of
        Some n \<Rightarrow> if n < bound then Some n else None
      | None \<Rightarrow> None)"

definition parse_signed :: "int \<Rightarrow> string \<Rightarrow> int option" where
  "parse_signed half s =
     (case strip_prefix ''-'' s of
        Some t \<Rightarrow> (case parse_digits t of
            Some n \<Rightarrow> if int n \<le> half then Some (- int n) else None
          | None \<Rightarrow> None)
      | None \<Rightarrow> (case parse_digits (case strip_prefix ''+'' s of Some t \<Rightarrow> t | None \<Rightarrow> s) of
            Some n \<Rightarrow> if int n < half then Some (int n) else None
          | None \<Rightarrow> None))"

lemma of_char_digit: "n < 10 \<Longrightarrow> of_char (digit n) = 48 + n"
  by (auto simp: digit_def less_Suc_eq numeral_eq_Suc)

lemma digit_simps [simp]:
  assumes "n < 10"
  shows "is_digit (digit n)" "digit_val (digit n) = n"
  using assms by (simp_all add: is_digit_def digit_val_def of_char_digit)

lemma nat_str_not_Nil [simp]: "nat_str n \<noteq> []"
  by (subst nat_str.simps) simp

lemma nat_str_digits: "list_all is_digit (nat_str n)"
proof (induction n rule: nat_str.induct)
  case (1 n)
  then show ?case by (simp add: nat_str.simps [of n])
qed

lemma dec_val_nat_str [simp]: "dec_val (nat_str n) = n"
proof (induction n rule: nat_str.induct)
  case (1 n)
  then show ?case by (simp add: nat_str.simps [of n] dec_val_def)
qed

lemma parse_digits_nat_str [simp]: "parse_digits (nat_str n) = Some n"
  by (simp add: parse_digits_def nat_str_digits)

lemma nat_str_inject [simp]: "nat_str m = nat_str n \<longleftrightarrow> m = n"
  by (metis dec_val_nat_str)

lemma hd_nat_str: "is_digit (hd (nat_str n))"
  using nat_str_digits [of n] by (cases "nat_str n") auto

lemma strip_prefix_sign: "is_digit (hd s) \<Longrightarrow> s \<noteq> [] \<Longrightarrow> strip_prefix ''-'' s = None \<and> strip_prefix ''+'' s = None"
  by (cases s) (auto simp: is_digit_def)

lemma parse_unsigned_nat_str [simp]: "parse_unsigned b (nat_str n) = (if n < b then Some n else None)"
  using strip_prefix_sign [OF hd_nat_str nat_str_not_Nil, of n] by (simp add: parse_unsigned_def)

lemma parse_signed_int_str: "- half \<le> i \<Longrightarrow> i < half \<Longrightarrow> parse_signed half (int_str i) = Some i"
  using strip_prefix_sign [OF hd_nat_str nat_str_not_Nil, of "nat i"]
  by (auto simp: parse_signed_def int_str_def)

lemma parse_signed_range: "parse_signed half s = Some i \<Longrightarrow> 0 < half \<Longrightarrow> - half \<le> i \<and> i < half"
  by (auto simp: parse_signed_def split: option.splits if_splits)

end
