(* ===== verification/F64.thy ===== *)
theory F64
  imports Texts
begin

text \<open>
  Rust's \<open>f64\<close> as the SQL layer uses it: IEEE 754 binary64 values with addition,
  subtraction, division, comparison, \<open>abs\<close>, the cast from an integer, \<open>str::parse\<close> and
  \<open>to_string\<close>. Arithmetic is exact on integers and rounded once, to nearest with ties to
  even. \<open>to_string\<close> prints the shortest decimal that parses back to the same value,
  without an exponent.

  A finite value \<open>Fin s m e\<close> stands for \<open>m * 2 ^ e\<close>, negated if \<open>s\<close>. Its form is canonical:
  \<open>m < 2 ^ 53\<close>, \<open>- 1074 \<le> e \<le> 971\<close>, and \<open>2 ^ 52 \<le> m\<close> unless \<open>e = - 1074\<close>.
\<close>

datatype f64 = NaN | Inf bool | Fin bool nat int

definition f64_zero :: f64 where
  "f64_zero = Fin False 0 (- 1074)"

fun canonical :: "f64 \<Rightarrow> bool" where
  "canonical (Fin s m e) \<longleftrightarrow> m < 2 ^ 53 \<and> - 1074 \<le> e \<and> e \<le> 971 \<and> (2 ^ 52 \<le> m \<or> e = - 1074)"
| "canonical _ \<longleftrightarrow> True"

section \<open>Rounding\<close>

fun bit_length :: "nat \<Rightarrow> nat" where
  "bit_length n = (if n = 0 then 0 else Suc (bit_length (n div 2)))"

declare bit_length.simps [simp del]

text \<open>The fraction \<open>p / q\<close> times \<open>2 ^ (- e)\<close>, as a fraction.\<close>

definition scaled :: "nat \<Rightarrow> nat \<Rightarrow> int \<Rightarrow> nat \<times> nat" where
  "scaled p q e = (if 0 \<le> e then (p, q * 2 ^ nat e) else (p * 2 ^ nat (- e), q))"

definition half_even :: "nat \<Rightarrow> nat \<Rightarrow> nat" where
  "half_even n d =
     (let k = n div d; r = n mod d
      in if 2 * r < d then k else if d < 2 * r then Suc k else if even k then k else Suc k)"

text \<open>
  The exponent for \<open>p / q\<close>: \<open>bit_length p - bit_length q - 53\<close> or one more puts the
  quotient into \<open>[2 ^ 52, 2 ^ 53)\<close>; small values keep the least exponent.
\<close>

definition exponent_for :: "nat \<Rightarrow> nat \<Rightarrow> int" where
  "exponent_for p q =
     (let e = int (bit_length p) - int (bit_length q) - 53; (n, d) = scaled p q e
      in max (- 1074) (if n < d * 2 ^ 53 then e else e + 1))"

definition round_f64 :: "bool \<Rightarrow> nat \<Rightarrow> nat \<Rightarrow> f64" where
  "round_f64 s p q =
     (if p = 0 then Fin s 0 (- 1074)
      else let e = exponent_for p q; (n, d) = scaled p q e; k = half_even n d;
               (m, e') = (if k = 2 ^ 53 then (2 ^ 52, e + 1) else (k, e))
           in if 971 < e' then Inf s else Fin s m e')"

section \<open>Arithmetic\<close>

fun f64_neg :: "f64 \<Rightarrow> f64" where
  "f64_neg NaN = NaN"
| "f64_neg (Inf s) = Inf (\<not> s)"
| "f64_neg (Fin s m e) = Fin (\<not> s) m e"

fun f64_abs :: "f64 \<Rightarrow> f64" where
  "f64_abs NaN = NaN"
| "f64_abs (Inf s) = Inf False"
| "f64_abs (Fin s m e) = Fin False m e"

definition signed_int :: "bool \<Rightarrow> nat \<Rightarrow> int" where
  "signed_int s n = (if s then - int n else int n)"

text \<open>A multiple of a power of two.\<close>

definition round_dyadic :: "bool \<Rightarrow> nat \<Rightarrow> int \<Rightarrow> f64" where
  "round_dyadic s n e = (if 0 \<le> e then round_f64 s (n * 2 ^ nat e) 1 else round_f64 s n (2 ^ nat (- e)))"

fun f64_add :: "f64 \<Rightarrow> f64 \<Rightarrow> f64" where
  "f64_add NaN y = NaN"
| "f64_add x NaN = NaN"
| "f64_add (Inf s) (Inf t) = (if s = t then Inf s else NaN)"
| "f64_add (Inf s) (Fin t n f) = Inf s"
| "f64_add (Fin s m e) (Inf t) = Inf t"
| "f64_add (Fin s m e) (Fin t n f) =
     (let g = min e f;
          i = signed_int s (m * 2 ^ nat (e - g)) + signed_int t (n * 2 ^ nat (f - g))
      in if i = 0 then Fin (s \<and> t) 0 (- 1074) else round_dyadic (i < 0) (nat \<bar>i\<bar>) g)"

definition f64_sub :: "f64 \<Rightarrow> f64 \<Rightarrow> f64" where
  "f64_sub x y = f64_add x (f64_neg y)"

fun f64_div :: "f64 \<Rightarrow> f64 \<Rightarrow> f64" where
  "f64_div NaN y = NaN"
| "f64_div x NaN = NaN"
| "f64_div (Inf s) (Inf t) = NaN"
| "f64_div (Inf s) (Fin t n f) = Inf (s \<noteq> t)"
| "f64_div (Fin s m e) (Inf t) = Fin (s \<noteq> t) 0 (- 1074)"
| "f64_div (Fin s m e) (Fin t n f) =
     (if n = 0 then (if m = 0 then NaN else Inf (s \<noteq> t))
      else if f \<le> e then round_f64 (s \<noteq> t) (m * 2 ^ nat (e - f)) n
      else round_f64 (s \<noteq> t) m (n * 2 ^ nat (f - e)))"

definition f64_of_int :: "int \<Rightarrow> f64" where
  "f64_of_int i = round_f64 (i < 0) (nat \<bar>i\<bar>) 1"

section \<open>Comparison\<close>

text \<open>
  Canonical values compare as the numbers made of exponent and significand do, the way
  their bit patterns compare.
\<close>

fun f64_key :: "f64 \<Rightarrow> int" where
  "f64_key NaN = 0"
| "f64_key (Inf s) = signed_int s (2 ^ 64)"
| "f64_key (Fin s m e) = signed_int s (nat (e + 1074) * 2 ^ 53 + m)"

definition f64_less :: "f64 \<Rightarrow> f64 \<Rightarrow> bool" where
  "f64_less x y \<longleftrightarrow> x \<noteq> NaN \<and> y \<noteq> NaN \<and> f64_key x < f64_key y"

definition f64_le :: "f64 \<Rightarrow> f64 \<Rightarrow> bool" where
  "f64_le x y \<longleftrightarrow> x \<noteq> NaN \<and> y \<noteq> NaN \<and> f64_key x \<le> f64_key y"

definition f64_eq :: "f64 \<Rightarrow> f64 \<Rightarrow> bool" where
  "f64_eq x y \<longleftrightarrow> x \<noteq> NaN \<and> y \<noteq> NaN \<and> f64_key x = f64_key y"

definition f64_partial_cmp :: "f64 \<Rightarrow> f64 \<Rightarrow> ordering option" where
  "f64_partial_cmp x y = (if x = NaN \<or> y = NaN then None else Some (cmp (f64_key x) (f64_key y)))"

section \<open>Parsing\<close>

definition round_decimal :: "bool \<Rightarrow> nat \<Rightarrow> int \<Rightarrow> f64" where
  "round_decimal s n e = (if 0 \<le> e then round_f64 s (n * 10 ^ nat e) 1 else round_f64 s n (10 ^ nat (- e)))"

text \<open>An optional exponent at the end: \<open>e\<close>, an optional sign, at least one digit.\<close>

definition parse_exponent :: "string \<Rightarrow> int option" where
  "parse_exponent s =
     (case s of
        [] \<Rightarrow> Some 0
      | c # t \<Rightarrow> if ascii_lower c \<noteq> CHR ''e'' then None
          else (case strip_prefix ''-'' t of
              Some u \<Rightarrow> map_option (\<lambda>n. - int n) (parse_digits u)
            | None \<Rightarrow> map_option int (parse_digits (case strip_prefix ''+'' t of Some u \<Rightarrow> u | None \<Rightarrow> t))))"

definition parse_number :: "bool \<Rightarrow> string \<Rightarrow> f64 option" where
  "parse_number neg s =
     (let whole = takeWhile is_digit s; rest = dropWhile is_digit s;
          (frac, rest') = (case rest of
              c # t \<Rightarrow> if c = CHR ''.'' then (takeWhile is_digit t, dropWhile is_digit t) else ([], rest)
            | [] \<Rightarrow> ([], []))
      in if whole = [] \<and> frac = [] then None
         else map_option (\<lambda>e. round_decimal neg (dec_val (whole @ frac)) (e - int (length frac)))
                (parse_exponent rest'))"

definition parse_f64 :: "string \<Rightarrow> f64 option" where
  "parse_f64 s =
     (let (neg, body) = (case s of
              c # t \<Rightarrow> if c = CHR ''-'' then (True, t) else if c = CHR ''+'' then (False, t) else (False, s)
            | [] \<Rightarrow> (False, []));
          low = to_lowercase body
      in if low = ''inf'' \<or> low = ''infinity'' then Some (Inf neg)
         else if low = ''nan'' then Some NaN
         else parse_number neg body)"

section \<open>Printing\<close>

text \<open>\<open>x / 10 ^ e\<close> for \<open>x = m * 2 ^ b\<close>, as a fraction.\<close>

definition decimal_scaled :: "nat \<Rightarrow> int \<Rightarrow> int \<Rightarrow> nat \<times> nat" where
  "decimal_scaled m b e =
     (m * (if 0 \<le> b then 2 ^ nat b else 1) * (if e < 0 then 10 ^ nat (- e) else 1),
      (if b < 0 then 2 ^ nat (- b) else 1) * (if 0 \<le> e then 10 ^ nat e else 1))"

text \<open>The decimal exponent: \<open>10 ^ p \<le> m * 2 ^ b < 10 ^ (p + 1)\<close>.\<close>

definition decimal_exponent :: "nat \<Rightarrow> int \<Rightarrow> int" where
  "decimal_exponent m b =
     (let (n, d) = decimal_scaled m b 0;
          p = int (length (nat_str n)) - int (length (nat_str d)); (n', d') = decimal_scaled m b p
      in if n' < d' then p - 1 else p)"

text \<open>
  The candidates with \<open>k\<close> digits are the two neighbours of the value; \<open>shortest\<close> takes the first
  \<open>k\<close> for which one of them parses back, and the closer one if both do. A candidate that carries
  into one more digit ends in a zero, which is dropped.
\<close>

definition decimal_candidate :: "nat \<Rightarrow> int \<Rightarrow> int \<Rightarrow> nat option" where
  "decimal_candidate m b e =
     (let (n, d) = decimal_scaled m b e; lo = n div d; r = n mod d;
          fits = (\<lambda>c. round_decimal False c e = Fin False m b)
      in if fits lo \<and> (2 * r < d \<or> \<not> fits (Suc lo)) then Some lo
         else if fits (Suc lo) then Some (Suc lo) else None)"

fun shortest :: "nat \<Rightarrow> int \<Rightarrow> int \<Rightarrow> nat \<Rightarrow> nat \<times> int" where
  "shortest m b e 0 = (fst (decimal_scaled m b e) div snd (decimal_scaled m b e), e)"
| "shortest m b e (Suc k) =
     (case decimal_candidate m b e of
        Some c \<Rightarrow> if c mod 10 = 0 then (c div 10, e + 1) else (c, e)
      | None \<Rightarrow> shortest m b (e - 1) k)"

definition positional :: "nat \<Rightarrow> int \<Rightarrow> string" where
  "positional c e =
     (let ds = nat_str c; n = int (length ds) + e
      in if 0 \<le> e then ds @ replicate (nat e) (CHR ''0'')
         else if 0 < n then take (nat n) ds @ ''.'' @ drop (nat n) ds
         else ''0.'' @ replicate (nat (- n)) (CHR ''0'') @ ds)"

fun f64_str :: "f64 \<Rightarrow> string" where
  "f64_str NaN = ''NaN''"
| "f64_str (Inf s) = (if s then ''-inf'' else ''inf'')"
| "f64_str (Fin s m e) =
     (if s then ''-'' else '''') @
     (if m = 0 then ''0'' else case shortest m e (decimal_exponent m e) 17 of (c, f) \<Rightarrow> positional c f)"

end
