(* ===== verification/SqlTypes.thy ===== *)
theory SqlTypes
  imports F64
begin

text \<open>
  SQL types and values (\<open>src/sql/types.rs\<close>): parsing of a literal at a column's type,
  printing, the hand-written equality and order of values, column definitions and table
  schemas.
\<close>

section \<open>Model\<close>

type_synonym i32 = "32 word"
type_synonym i64 = "64 word"

datatype data_type = TInt | TBigInt | TFloat | TText | TBoolean

definition data_type_from_str :: "string \<Rightarrow> data_type res" where
  "data_type_from_str s =
     (let u = to_uppercase s in
      if u \<in> {''INT'', ''INTEGER'', ''INT4''} then Inr TInt
      else if u \<in> {''BIGINT'', ''INT8''} then Inr TBigInt
      else if u \<in> {''FLOAT'', ''FLOAT8'', ''DOUBLE'', ''REAL''} then Inr TFloat
      else if u \<in> {''TEXT'', ''VARCHAR'', ''STRING'', ''CHAR''} then Inr TText
      else if u \<in> {''BOOL'', ''BOOLEAN''} then Inr TBoolean
      else Inl (Message (''Unsupported data type: '' @ [CHR 39] @ u @ [CHR 39])))"

primrec to_sql_string :: "data_type \<Rightarrow> string" where
  "to_sql_string TInt = ''INTEGER''"
| "to_sql_string TBigInt = ''BIGINT''"
| "to_sql_string TFloat = ''FLOAT''"
| "to_sql_string TText = ''TEXT''"
| "to_sql_string TBoolean = ''BOOLEAN''"

datatype val =
    VNull
  | VInt i32
  | VBigInt i64
  | VFloat f64
  | VText string
  | VBoolean bool

definition quoted :: "string \<Rightarrow> string" where
  "quoted s = [CHR 39] @ s @ [CHR 39]"

definition parse_i32 :: "string \<Rightarrow> i32 option" where
  "parse_i32 s = map_option word_of_int (parse_signed (2 ^ 31) s)"

definition parse_i64 :: "string \<Rightarrow> i64 option" where
  "parse_i64 s = map_option word_of_int (parse_signed (2 ^ 63) s)"

definition parse_str :: "string \<Rightarrow> data_type \<Rightarrow> val res" where
  "parse_str raw dt =
     (let trimmed = trim raw in
      if eq_ignore_case trimmed ''NULL'' then Inr VNull
      else case dt of
        TInt \<Rightarrow> (case parse_i32 trimmed of
            None \<Rightarrow> Inl (Message (''Cannot parse '' @ quoted raw @ '' as INT'')) | Some v \<Rightarrow> Inr (VInt v))
      | TBigInt \<Rightarrow> (case parse_i64 trimmed of
            None \<Rightarrow> Inl (Message (''Cannot parse '' @ quoted raw @ '' as BIGINT'')) | Some v \<Rightarrow> Inr (VBigInt v))
      | TFloat \<Rightarrow> (case parse_f64 trimmed of
            None \<Rightarrow> Inl (Message (''Cannot parse '' @ quoted raw @ '' as FLOAT'')) | Some v \<Rightarrow> Inr (VFloat v))
      | TText \<Rightarrow>
          if starts_with [CHR 39] trimmed \<and> ends_with [CHR 39] trimmed \<or>
             starts_with [CHR 34] trimmed \<and> ends_with [CHR 34] trimmed
          then rbind (str_slice trimmed 1 (length trimmed - 1)) (\<lambda>t. Inr (VText t))
          else Inr (VText trimmed)
      | TBoolean \<Rightarrow>
          let low = to_lowercase trimmed in
          if low \<in> {''true'', ''t'', ''1''} then Inr (VBoolean True)
          else if low \<in> {''false'', ''f'', ''0''} then Inr (VBoolean False)
          else Inl (Message (''Cannot parse '' @ quoted raw @ '' as BOOLEAN'')))"

definition is_null :: "val \<Rightarrow> bool" where
  "is_null v \<longleftrightarrow> v = VNull"

fun to_string_repr :: "val \<Rightarrow> string" where
  "to_string_repr VNull = ''NULL''"
| "to_string_repr (VInt v) = int_str (sint v)"
| "to_string_repr (VBigInt v) = int_str (sint v)"
| "to_string_repr (VFloat v) = f64_str v"
| "to_string_repr (VText v) = v"
| "to_string_repr (VBoolean v) = (if v then ''true'' else ''false'')"

fun value_eq :: "val \<Rightarrow> val \<Rightarrow> bool" where
  "value_eq VNull VNull \<longleftrightarrow> True"
| "value_eq (VInt a) (VInt b) \<longleftrightarrow> a = b"
| "value_eq (VBigInt a) (VBigInt b) \<longleftrightarrow> a = b"
| "value_eq (VFloat a) (VFloat b) \<longleftrightarrow> f64_eq a b"
| "value_eq (VText a) (VText b) \<longleftrightarrow> a = b"
| "value_eq (VBoolean a) (VBoolean b) \<longleftrightarrow> a = b"
| "value_eq (VInt a) (VBigInt b) \<longleftrightarrow> scast a = b"
| "value_eq (VBigInt a) (VInt b) \<longleftrightarrow> a = scast b"
| "value_eq (VInt a) (VFloat b) \<longleftrightarrow> f64_eq (f64_of_int (sint a)) b"
| "value_eq (VFloat a) (VInt b) \<longleftrightarrow> f64_eq a (f64_of_int (sint b))"
| "value_eq (VBigInt a) (VFloat b) \<longleftrightarrow> f64_eq (f64_of_int (sint a)) b"
| "value_eq (VFloat a) (VBigInt b) \<longleftrightarrow> f64_eq a (f64_of_int (sint b))"
| "value_eq _ _ \<longleftrightarrow> False"

fun value_partial_cmp :: "val \<Rightarrow> val \<Rightarrow> ordering option" where
  "value_partial_cmp VNull VNull = Some Equal"
| "value_partial_cmp VNull _ = Some Less"
| "value_partial_cmp _ VNull = Some Greater"
| "value_partial_cmp (VInt a) (VInt b) = Some (cmp (sint a) (sint b))"
| "value_partial_cmp (VBigInt a) (VBigInt b) = Some (cmp (sint a) (sint b))"
| "value_partial_cmp (VFloat a) (VFloat b) = f64_partial_cmp a b"
| "value_partial_cmp (VText a) (VText b) = Some (str_cmp a b)"
| "value_partial_cmp (VBoolean a) (VBoolean b) = Some (cmp a b)"
| "value_partial_cmp (VInt a) (VBigInt b) = Some (cmp (sint a) (sint b))"
| "value_partial_cmp (VBigInt a) (VInt b) = Some (cmp (sint a) (sint b))"
| "value_partial_cmp (VInt a) (VFloat b) = f64_partial_cmp (f64_of_int (sint a)) b"
| "value_partial_cmp (VFloat a) (VInt b) = f64_partial_cmp a (f64_of_int (sint b))"
| "value_partial_cmp (VBigInt a) (VFloat b) = f64_partial_cmp (f64_of_int (sint a)) b"
| "value_partial_cmp (VFloat a) (VBigInt b) = f64_partial_cmp a (f64_of_int (sint b))"
| "value_partial_cmp _ _ = None"

definition value_cmp :: "val \<Rightarrow> val \<Rightarrow> ordering" where
  "value_cmp a b = (case value_partial_cmp a b of Some r \<Rightarrow> r | None \<Rightarrow> Equal)"

record column_def =
  name :: string
  data_type :: data_type
  is_nullable :: bool
  is_primary_key :: bool
  is_unique :: bool
  default_value :: "string option"

definition column_new :: "string \<Rightarrow> data_type \<Rightarrow> column_def" where
  "column_new n dt = \<lparr>name = n, data_type = dt, is_nullable = True, is_primary_key = False,
     is_unique = False, default_value = None\<rparr>"

definition with_nullable :: "bool \<Rightarrow> column_def \<Rightarrow> column_def" where
  "with_nullable nullable c = c\<lparr>is_nullable := nullable\<rparr>"

definition with_primary_key :: "bool \<Rightarrow> column_def \<Rightarrow> column_def" where
  "with_primary_key pk c =
     (let c' = c\<lparr>is_primary_key := pk\<rparr>
      in if pk then c'\<lparr>is_nullable := False, is_unique := True\<rparr> else c')"

definition with_unique :: "bool \<Rightarrow> column_def \<Rightarrow> column_def" where
  "with_unique unique c = c\<lparr>is_unique := unique\<rparr>"

record table_schema =
  schema_name :: string
  table_name :: string
  columns :: "column_def list"
  primary_key :: "string list option"

definition schema_new :: "string \<Rightarrow> string \<Rightarrow> column_def list \<Rightarrow> table_schema" where
  "schema_new s t cs =
     (let pk_cols = map name (filter is_primary_key cs)
      in \<lparr>schema_name = s, table_name = t, columns = cs,
          primary_key = (if pk_cols \<noteq> [] then Some pk_cols else None)\<rparr>)"

definition full_name :: "table_schema \<Rightarrow> string" where
  "full_name ts = schema_name ts @ ''.'' @ table_name ts"

definition find_column :: "table_schema \<Rightarrow> string \<Rightarrow> (nat \<times> column_def) option" where
  "find_column ts col =
     List.find (\<lambda>(_, c). eq_ignore_case (name c) col) (List.enumerate 0 (columns ts))"

definition column_names :: "table_schema \<Rightarrow> string list" where
  "column_names ts = map name (columns ts)"

section \<open>Types of values\<close>

fun type_of :: "val \<Rightarrow> data_type option" where
  "type_of VNull = None"
| "type_of (VInt _) = Some TInt"
| "type_of (VBigInt _) = Some TBigInt"
| "type_of (VFloat _) = Some TFloat"
| "type_of (VText _) = Some TText"
| "type_of (VBoolean _) = Some TBoolean"

text \<open>A literal that is a single quote character, in either style.\<close>

definition lone_quote :: "string \<Rightarrow> bool" where
  "lone_quote raw \<longleftrightarrow> trim raw = [CHR 39] \<or> trim raw = [CHR 34]"

declare cmp_iff [simp]

lemma cmp_sym: "cmp b a = reverse_ord (cmp (a :: 'a::linorder) b)"
  by (auto simp: cmp_def)

lemma reverse_reverse [simp]: "reverse_ord (reverse_ord r) = r"
  by (cases r) simp_all

lemma type_round_trip: "data_type_from_str (to_sql_string dt) = Inr dt"
  by (cases dt) (simp_all add: data_type_from_str_def)

section \<open>Properties\<close>

lemma trim_plain: "s \<noteq> [] \<Longrightarrow> \<not> white_space (hd s) \<Longrightarrow> \<not> white_space (last s) \<Longrightarrow> trim s = s"
  by (rule trim_id) simp

lemma is_digit_not:
  assumes "is_digit c"
  shows "\<not> white_space c" "ascii_lower c = c" "c \<noteq> CHR ''n''"
  using assms by (auto simp: is_digit_def white_space_def Let_def intro!: ascii_lower_other)

lemma last_nat_str: "is_digit (last (nat_str n))"
  using nat_str_digits [of n] by (simp add: list_all_iff)

lemma int_str_literal: "trim (int_str i) = int_str i" "\<not> eq_ignore_case (int_str i) ''NULL''"
proof -
  have ne: "int_str i \<noteq> []"
    by (simp add: int_str_def)
  have hd: "hd (int_str i) = CHR ''-'' \<or> is_digit (hd (int_str i))"
    using hd_nat_str by (simp add: int_str_def)
  have last: "is_digit (last (int_str i))"
    using last_nat_str by (simp add: int_str_def)
  show "trim (int_str i) = int_str i"
    using ne hd last is_digit_not by (intro trim_plain) (auto simp: white_space_def)
  obtain c t where "int_str i = c # t"
    using ne by (cases "int_str i") auto
  then show "\<not> eq_ignore_case (int_str i) ''NULL''"
    using hd is_digit_not(2,3) [of c] by (auto simp: eq_ignore_case_def)
qed

lemma parse_i32_int_str [simp]: "parse_i32 (int_str (sint v)) = Some v"
  using sint_greater_eq [of v] sint_less [of v] by (simp add: parse_i32_def parse_signed_int_str)

lemma parse_i64_int_str [simp]: "parse_i64 (int_str (sint v)) = Some v"
  using sint_greater_eq [of v] sint_less [of v] by (simp add: parse_i64_def parse_signed_int_str)

text \<open>Text that \<open>parse_str\<close> keeps as it is: nothing to trim, not quoted, not the word NULL.\<close>

definition plain_text :: "string \<Rightarrow> bool" where
  "plain_text s \<longleftrightarrow> trim s = s \<and> \<not> eq_ignore_case s ''NULL'' \<and> take 1 s \<notin> {[CHR 39], [CHR 34]}"

text \<open>
  A literal is stored at the column's type: whatever the text, \<open>Value::parse_str\<close> either
  fails or gives a value of the requested type, and the null value exactly for the word NULL.
\<close>

theorem parse_str_typed:
  "case parse_str raw dt of
     Inl e \<Rightarrow> \<not> eq_ignore_case (trim raw) ''NULL''
   | Inr v \<Rightarrow> (if eq_ignore_case (trim raw) ''NULL'' then v = VNull else type_of v = Some dt)"
  by (cases dt) (auto simp: parse_str_def Let_def rbind_def split: option.splits sum.splits)



text \<open>
  A literal made of one quote character makes \<open>parse_str\<close> panic at type TEXT: it starts
  and ends with a quote, and the slice between the quotes has its end before its start.
\<close>

theorem parse_str_lone_quote:
  assumes "lone_quote raw"
  shows "parse_str raw TText = Inl Panic"
  using assms
  by (auto simp: lone_quote_def parse_str_def Let_def str_slice_def ends_with_def eq_ignore_case_def)

theorem parse_str_lone_quote_witness: "parse_str ''   \"'' TText = Inl Panic"
proof -
  have "lone_quote ''   \"''"
    by (simp add: lone_quote_def trim_by_def trim_start_by_def trim_end_by_def white_space_def)
  then show ?thesis
    by (rule parse_str_lone_quote)
qed

text \<open>
  Within one column the order of values is a linear order that agrees with equality: for
  values that are null or of one type (and not the float NaN), \<open>cmp\<close> is \<open>Equal\<close> exactly when
  \<open>eq\<close> holds, swapping the arguments reverses it, and \<open>Less\<close> is transitive.
\<close>

theorem value_cmp_linear:
  assumes "type_of a \<in> {None, Some dt}" and "type_of b \<in> {None, Some dt}" and "type_of c \<in> {None, Some dt}"
    and "VFloat NaN \<notin> {a, b, c}"
  shows "(value_cmp a b = Equal \<longleftrightarrow> value_eq a b) \<and> value_cmp b a = reverse_ord (value_cmp a b) \<and>
    (value_cmp a b = Less \<longrightarrow> value_cmp b c = Less \<longrightarrow> value_cmp a c = Less)"
proof (intro conjI impI)
  show "value_cmp a b = Equal \<longleftrightarrow> value_eq a b"
    using assms(1,2,4)
    by (cases a; cases b) (auto simp: value_cmp_def f64_partial_cmp_def f64_eq_def str_cmp_def dest: signed_word_eqI)
  show "value_cmp b a = reverse_ord (value_cmp a b)"
    using assms(1,2,4)
    by (cases a; cases b) (auto simp: value_cmp_def f64_partial_cmp_def str_cmp_def intro: cmp_sym)
  show "value_cmp a c = Less" if "value_cmp a b = Less" "value_cmp b c = Less"
    using assms that
    by (cases a; cases b; cases c) (auto simp: value_cmp_def f64_partial_cmp_def str_cmp_def)
qed

theorem value_cmp_linear_witness:
  "value_cmp (VText ''a'') (VText ''b'') = Less \<and> value_cmp (VText ''b'') (VText ''a'') = Greater"
proof -
  have "value_cmp (VText ''a'') (VText ''b'') = Less"
    by (simp add: value_cmp_def str_cmp_def byte_of_def cmp_def)
  then show ?thesis
    using value_cmp_linear [of "VText ''a''" TText "VText ''b''" "VText ''b''"] by simp
qed

text \<open>
  Across types the order is not transitive: a number and a text compare \<open>Equal\<close> although
  they are not equal, so two different numbers are both \<open>Equal\<close> to one text.
\<close>

theorem value_cmp_mixed:
  "value_cmp (VInt 1) (VText s) = Equal \<and> value_cmp (VText s) (VInt 2) = Equal \<and>
   value_cmp (VInt 1) (VInt 2) = Less \<and> \<not> value_eq (VInt 1) (VText s)"
  by (simp add: value_cmp_def)

end
