(* ===== verification/Volcano.thy ===== *)
theory Volcano
  imports SqlTypes
begin

text \<open>
  The query operators (\<open>src/sql/volcano.rs\<close>). A plan is a tree of operators behind the
  trait \<open>ExecutionPlan\<close>: \<open>open\<close> prepares the tree, \<open>next\<close> delivers one row at a time until it
  returns \<open>None\<close>, \<open>close\<close> ends the run. The implementors of the trait are the constructors of
  \<open>plan\<close>, their fields are the fields of the Rust structs; no operator ever builds an error,
  so \<open>next\<close> returns the plain \<open>Option\<close>.

  \<open>plan_rows p\<close> are the rows a plan still has to deliver and \<open>query_rows p\<close> is its meaning in
  terms of lists: selection, nested-loop join, grouping, stable sorting, slicing. The
  properties say that running a plan always ends and delivers exactly its meaning.
\<close>

section \<open>Model\<close>

type_synonym row = "string list"

datatype aggregate_func = Count | Sum nat | Avg nat

datatype join_type = Inner | LeftJoin

datatype plan =
    SeqScanExec "row list" nat
  | FilterExec plan nat string
  | AggregateExec plan aggregate_func bool
  | HashJoinExec plan plan nat nat join_type nat "row list" nat
  | HashGroupAggregateExec plan nat aggregate_func "(string \<times> string) option" "row list" nat
  | SortExec plan nat bool "row list" nat
  | LimitOffsetExec plan "nat option" nat "row list" nat

definition seq_scan_new :: "row list \<Rightarrow> plan" where
  "seq_scan_new rows = SeqScanExec rows 0"

definition filter_new :: "plan \<Rightarrow> nat \<Rightarrow> string \<Rightarrow> plan" where
  "filter_new child col_idx target_val = FilterExec child col_idx target_val"

definition aggregate_new :: "plan \<Rightarrow> aggregate_func \<Rightarrow> plan" where
  "aggregate_new child func = AggregateExec child func False"

definition hash_join_new :: "plan \<Rightarrow> plan \<Rightarrow> nat \<Rightarrow> nat \<Rightarrow> join_type \<Rightarrow> nat \<Rightarrow> plan" where
  "hash_join_new l r lk rk jt n = HashJoinExec l r lk rk jt n [] 0"

definition hash_group_new :: "plan \<Rightarrow> nat \<Rightarrow> aggregate_func \<Rightarrow> (string \<times> string) option \<Rightarrow> plan" where
  "hash_group_new child g func having = HashGroupAggregateExec child g func having [] 0"

definition sort_new :: "plan \<Rightarrow> nat \<Rightarrow> bool \<Rightarrow> plan" where
  "sort_new child idx is_desc = SortExec child idx is_desc [] 0"

definition limit_offset_new :: "plan \<Rightarrow> nat option \<Rightarrow> nat \<Rightarrow> plan" where
  "limit_offset_new child limit offset = LimitOffsetExec child limit offset [] 0"

definition filter_matches :: "nat \<Rightarrow> string \<Rightarrow> row \<Rightarrow> bool" where
  "filter_matches col_idx target_val row \<longleftrightarrow> col_idx < length row \<and> row ! col_idx = target_val"

text \<open>What one row adds to the running sum: nothing if the cell is missing or not a number.\<close>

definition add_cell :: "nat \<Rightarrow> row \<Rightarrow> f64 \<Rightarrow> f64" where
  "add_cell i row acc =
     (if i < length row
      then (case parse_f64 (row ! i) of Some v \<Rightarrow> f64_add acc v | None \<Rightarrow> acc)
      else acc)"

fun agg_add :: "aggregate_func \<Rightarrow> row \<Rightarrow> f64 \<Rightarrow> f64" where
  "agg_add Count row acc = acc"
| "agg_add (Sum i) row acc = add_cell i row acc"
| "agg_add (Avg i) row acc = add_cell i row acc"

fun agg_result :: "aggregate_func \<Rightarrow> u64 \<Rightarrow> f64 \<Rightarrow> string" where
  "agg_result Count n acc = nat_str (unat n)"
| "agg_result (Sum _) n acc = f64_str acc"
| "agg_result (Avg _) n acc =
     (if 0 < n then f64_str (f64_div acc (f64_of_int (uint n))) else ''0'')"

text \<open>The cursor over a buffer of rows that five of the operators share.\<close>

definition cursor_next :: "(nat \<Rightarrow> plan) \<Rightarrow> row list \<Rightarrow> nat \<Rightarrow> row option \<times> plan" where
  "cursor_next mk rows cursor =
     (if cursor < length rows then (Some (rows ! cursor), mk (Suc cursor)) else (None, mk cursor))"

text \<open>
  \<open>next\<close>. The filter pulls rows from its child until one matches, the aggregate until there
  are none left; \<open>remaining\<close> bounds how often a child can still deliver.
\<close>

function (domintros) plan_next :: "plan \<Rightarrow> row option \<times> plan"
  and agg_loop :: "aggregate_func \<Rightarrow> plan \<Rightarrow> u64 \<Rightarrow> f64 \<Rightarrow> (u64 \<times> f64) \<times> plan"
where
  "plan_next (SeqScanExec rows cursor) = cursor_next (SeqScanExec rows) rows cursor"
| "plan_next (FilterExec child col_idx target_val) =
     (case plan_next child of
        (None, child') \<Rightarrow> (None, FilterExec child' col_idx target_val)
      | (Some row, child') \<Rightarrow>
          if filter_matches col_idx target_val row then (Some row, FilterExec child' col_idx target_val)
          else plan_next (FilterExec child' col_idx target_val))"
| "plan_next (AggregateExec child func executed) =
     (if executed then (None, AggregateExec child func True)
      else (case agg_loop func child 0 f64_zero of
        ((n, acc), child') \<Rightarrow> (Some [agg_result func n acc], AggregateExec child' func True)))"
| "plan_next (HashJoinExec l r lk rk jt n rows cursor) =
     cursor_next (HashJoinExec l r lk rk jt n rows) rows cursor"
| "plan_next (HashGroupAggregateExec child g func having rows cursor) =
     cursor_next (HashGroupAggregateExec child g func having rows) rows cursor"
| "plan_next (SortExec child idx is_desc rows cursor) =
     cursor_next (SortExec child idx is_desc rows) rows cursor"
| "plan_next (LimitOffsetExec child limit offset rows cursor) =
     cursor_next (LimitOffsetExec child limit offset rows) rows cursor"
| "agg_loop func child n acc =
     (case plan_next child of
        (None, child') \<Rightarrow> ((n, acc), child')
      | (Some row, child') \<Rightarrow> agg_loop func child' (n + 1) (agg_add func row acc))"
  by pat_completeness auto

section \<open>Termination of next\<close>

fun remaining :: "plan \<Rightarrow> nat" where
  "remaining (SeqScanExec rows cursor) = length rows - cursor"
| "remaining (FilterExec child col_idx target_val) = remaining child"
| "remaining (AggregateExec child func executed) = (if executed then 0 else 1)"
| "remaining (HashJoinExec l r lk rk jt n rows cursor) = length rows - cursor"
| "remaining (HashGroupAggregateExec child g func having rows cursor) = length rows - cursor"
| "remaining (SortExec child idx is_desc rows cursor) = length rows - cursor"
| "remaining (LimitOffsetExec child limit offset rows cursor) = length rows - cursor"

fun depth :: "plan \<Rightarrow> nat" where
  "depth (FilterExec child col_idx target_val) = Suc (depth child)"
| "depth (AggregateExec child func executed) = Suc (depth child)"
| "depth _ = 0"

definition progress :: "plan \<Rightarrow> row option \<times> plan \<Rightarrow> bool" where
  "progress p res \<longleftrightarrow> depth (snd res) = depth p \<and> remaining (snd res) \<le> remaining p \<and>
     (fst res \<noteq> None \<longrightarrow> remaining (snd res) < remaining p)"

lemma cursor_next_progress:
  assumes "\<And>c. depth (mk c) = d" "\<And>c. remaining (mk c) = length rows - c"
  shows "progress (mk cursor) (cursor_next mk rows cursor)"
  using assms by (auto simp: progress_def cursor_next_def)

lemma next_progress:
  "plan_next_agg_loop_dom (Inl p) \<Longrightarrow> progress p (plan_next p)"
  "plan_next_agg_loop_dom (Inr (func, c, n, acc)) \<Longrightarrow> depth (snd (agg_loop func c n acc)) = depth c"
proof (induction p and func c n acc rule: plan_next_agg_loop.pinduct)
  case (1 rows cursor)
  then show ?case by (simp add: plan_next.psimps cursor_next_progress)
next
  case (2 child col_idx target_val)
  then show ?case
    by (auto simp: plan_next.psimps progress_def split: prod.splits option.splits)
next
  case (3 child func executed)
  then show ?case
    by (auto simp: plan_next.psimps progress_def split: prod.splits)
next
  case (4 l r lk rk jt n rows cursor)
  then show ?case by (simp add: plan_next.psimps cursor_next_progress)
next
  case (5 child g func having rows cursor)
  then show ?case by (simp add: plan_next.psimps cursor_next_progress)
next
  case (6 child idx is_desc rows cursor)
  then show ?case by (simp add: plan_next.psimps cursor_next_progress)
next
  case (7 child limit offset rows cursor)
  then show ?case by (simp add: plan_next.psimps cursor_next_progress)
next
  case (8 func child n acc)
  then show ?case
    by (auto simp: agg_loop.psimps progress_def split: prod.splits option.splits)
qed

lemma next_progress_Some:
  "plan_next_agg_loop_dom (Inl p) \<Longrightarrow> (Some row, p') = plan_next p \<Longrightarrow> depth p' = depth p \<and> remaining p' < remaining p"
  by (drule next_progress(1)) (cases "plan_next p"; simp add: progress_def)

lemma next_dom: "All plan_next_agg_loop_dom"
proof (relation "inv_image (less_than <*lex*> less_than <*lex*> less_than)
    (\<lambda>x. case x of Inl p \<Rightarrow> (depth p, remaining p, 0 :: nat) | Inr (func, c, n, acc) \<Rightarrow> (depth c, remaining c, 1))")
qed (auto dest: next_progress_Some)

termination plan_next
  by (rule next_dom)

lemma next_remaining: "(Some row, p') = plan_next p \<Longrightarrow> remaining p' < remaining p"
  using next_progress_Some [OF spec [OF next_dom]] by simp

section \<open>Model: open and close\<close>

text \<open>\<open>while let Some(row) = child.next()? { body }\<close>\<close>

function while_next :: "(row \<Rightarrow> 's \<Rightarrow> 's) \<Rightarrow> plan \<Rightarrow> 's \<Rightarrow> 's \<times> plan" where
  "while_next body p s =
     (case plan_next p of
        (None, p') \<Rightarrow> (s, p')
      | (Some row, p') \<Rightarrow> while_next body p' (body row s))"
  by auto
termination while_next
  by (relation "measure (\<lambda>(body, p, s). remaining p)") (auto dest: next_remaining)

definition build_row :: "nat \<Rightarrow> row \<Rightarrow> (string \<rightharpoonup> row list) \<Rightarrow> (string \<rightharpoonup> row list)" where
  "build_row rk row table =
     (if rk < length row
      then table(row ! rk \<mapsto> (case table (row ! rk) of None \<Rightarrow> [] | Some rs \<Rightarrow> rs) @ [row])
      else table)"

definition probe_row :: "(string \<rightharpoonup> row list) \<Rightarrow> nat \<Rightarrow> join_type \<Rightarrow> nat \<Rightarrow> row \<Rightarrow> row list \<Rightarrow> row list" where
  "probe_row table lk jt n row acc =
     (if lk < length row
      then (case table (row ! lk) of
              Some rs \<Rightarrow> acc @ map (\<lambda>r. row @ r) rs
            | None \<Rightarrow> if jt = LeftJoin then acc @ [row @ replicate n ''NULL''] else acc)
      else acc)"

definition group_row :: "nat \<Rightarrow> aggregate_func \<Rightarrow> row \<Rightarrow> (string \<rightharpoonup> u64 \<times> f64) \<times> string list \<Rightarrow>
    (string \<rightharpoonup> u64 \<times> f64) \<times> string list" where
  "group_row g func row st =
     (case st of (groups, group_keys) \<Rightarrow>
        if g < length row then
          let key = row ! g;
              (group_keys', n, acc) = (case groups key of
                  None \<Rightarrow> (group_keys @ [key], 0, f64_zero)
                | Some (n, acc) \<Rightarrow> (group_keys, n, acc))
          in (groups(key \<mapsto> (n + 1, agg_add func row acc)), group_keys')
        else st)"

definition f64_1e_9 :: f64 where
  "f64_1e_9 = round_decimal False 1 (- 9)"

definition passes_having :: "(string \<times> string) option \<Rightarrow> string \<Rightarrow> bool" where
  "passes_having having agg_val =
     (case having of
        None \<Rightarrow> True
      | Some (op, target_str) \<Rightarrow>
          (case (parse_f64 target_str, parse_f64 agg_val) of
             (Some target_num, Some agg_num) \<Rightarrow>
               if op = ''>='' then f64_le target_num agg_num
               else if op = ''<='' then f64_le agg_num target_num
               else if op = ''>'' then f64_less target_num agg_num
               else if op = ''<'' then f64_less agg_num target_num
               else if op = ''='' then f64_less (f64_abs (f64_sub agg_num target_num)) f64_1e_9
               else True
           | _ \<Rightarrow> True))"

definition group_result :: "aggregate_func \<Rightarrow> (string \<times> string) option \<Rightarrow> string \<Rightarrow> u64 \<times> f64 \<Rightarrow> row list" where
  "group_result func having key e =
     (let agg_val = agg_result func (fst e) (snd e)
      in if passes_having having agg_val then [[key, agg_val]] else [])"

definition group_output :: "aggregate_func \<Rightarrow> (string \<times> string) option \<Rightarrow> (string \<rightharpoonup> u64 \<times> f64) \<Rightarrow> string list \<Rightarrow> row list" where
  "group_output func having groups group_keys =
     concat (map (\<lambda>key. case groups key of None \<Rightarrow> [] | Some e \<Rightarrow> group_result func having key e) group_keys)"

text \<open>
  \<open>slice::sort_by\<close>: a stable sort. Every stable sort gives this list when the comparison is a
  total preorder; the standard library leaves the result open otherwise.
\<close>

fun insert_by :: "('a \<Rightarrow> 'a \<Rightarrow> ordering) \<Rightarrow> 'a \<Rightarrow> 'a list \<Rightarrow> 'a list" where
  "insert_by f x [] = [x]"
| "insert_by f x (y # ys) = (if f x y = Greater then y # insert_by f x ys else x # y # ys)"

definition sort_by :: "('a \<Rightarrow> 'a \<Rightarrow> ordering) \<Rightarrow> 'a list \<Rightarrow> 'a list" where
  "sort_by f xs = foldr (insert_by f) xs []"

definition cell :: "nat \<Rightarrow> row \<Rightarrow> string" where
  "cell i row = (if i < length row then row ! i else [])"

text \<open>Two cells compare as numbers if both are numbers, else as text.\<close>

definition cell_cmp :: "string \<Rightarrow> string \<Rightarrow> ordering" where
  "cell_cmp a b =
     (case (parse_f64 a, parse_f64 b) of
        (Some x, Some y) \<Rightarrow> (case f64_partial_cmp x y of Some r \<Rightarrow> r | None \<Rightarrow> Equal)
      | _ \<Rightarrow> str_cmp a b)"

definition row_cmp :: "nat \<Rightarrow> bool \<Rightarrow> row \<Rightarrow> row \<Rightarrow> ordering" where
  "row_cmp idx is_desc a b =
     (let ord = cell_cmp (cell idx a) (cell idx b) in if is_desc then reverse_ord ord else ord)"

text \<open>The loop of \<open>LimitOffsetExec::open\<close>, which stops reading its child when the limit is reached.\<close>

function limit_loop :: "nat option \<Rightarrow> nat \<Rightarrow> plan \<Rightarrow> nat \<Rightarrow> nat \<Rightarrow> row list \<Rightarrow> row list \<times> plan" where
  "limit_loop limit offset p skipped n acc =
     (case plan_next p of
        (None, p') \<Rightarrow> (acc, p')
      | (Some row, p') \<Rightarrow>
          if skipped < offset then limit_loop limit offset p' (Suc skipped) n acc
          else if (case limit of Some l \<Rightarrow> l \<le> n | None \<Rightarrow> False) then (acc, p')
          else limit_loop limit offset p' skipped (Suc n) (acc @ [row]))"
  by auto
termination limit_loop
  by (relation "measure (\<lambda>(limit, offset, p, _). remaining p)") (auto dest: next_remaining)

declare while_next.simps [simp del] limit_loop.simps [simp del] plan_next.simps(2) [simp del] agg_loop.simps [simp del]

text \<open>\<open>open\<close> of the operators that fill a buffer, once their children are open.\<close>

definition hash_join_open :: "plan \<Rightarrow> plan \<Rightarrow> nat \<Rightarrow> nat \<Rightarrow> join_type \<Rightarrow> nat \<Rightarrow> plan" where
  "hash_join_open l r lk rk jt n =
     (case while_next (build_row rk) r Map.empty of
        (table, r') \<Rightarrow> (case while_next (probe_row table lk jt n) l [] of
           (rows, l') \<Rightarrow> HashJoinExec l' r' lk rk jt n rows 0))"

definition hash_group_open :: "plan \<Rightarrow> nat \<Rightarrow> aggregate_func \<Rightarrow> (string \<times> string) option \<Rightarrow> plan" where
  "hash_group_open child g func having =
     (case while_next (group_row g func) child (Map.empty, []) of
        ((groups, group_keys), child') \<Rightarrow>
          HashGroupAggregateExec child' g func having (group_output func having groups group_keys) 0)"

definition sort_open :: "plan \<Rightarrow> nat \<Rightarrow> bool \<Rightarrow> plan" where
  "sort_open child idx is_desc =
     (case while_next (\<lambda>row acc. acc @ [row]) child [] of
        (rows, child') \<Rightarrow> SortExec child' idx is_desc (sort_by (row_cmp idx is_desc) rows) 0)"

definition limit_offset_open :: "plan \<Rightarrow> nat option \<Rightarrow> nat \<Rightarrow> plan" where
  "limit_offset_open child limit offset =
     (case limit_loop limit offset child 0 0 [] of
        (rows, child') \<Rightarrow> LimitOffsetExec child' limit offset rows 0)"

fun plan_open :: "plan \<Rightarrow> plan" where
  "plan_open (SeqScanExec rows cursor) = SeqScanExec rows 0"
| "plan_open (FilterExec child col_idx target_val) = FilterExec (plan_open child) col_idx target_val"
| "plan_open (AggregateExec child func executed) = AggregateExec (plan_open child) func False"
| "plan_open (HashJoinExec l r lk rk jt n rows cursor) = hash_join_open (plan_open l) (plan_open r) lk rk jt n"
| "plan_open (HashGroupAggregateExec child g func having rows cursor) = hash_group_open (plan_open child) g func having"
| "plan_open (SortExec child idx is_desc rows cursor) = sort_open (plan_open child) idx is_desc"
| "plan_open (LimitOffsetExec child limit offset rows cursor) = limit_offset_open (plan_open child) limit offset"

fun plan_close :: "plan \<Rightarrow> plan" where
  "plan_close (SeqScanExec rows cursor) = SeqScanExec rows (length rows)"
| "plan_close (FilterExec child col_idx target_val) = FilterExec (plan_close child) col_idx target_val"
| "plan_close (AggregateExec child func executed) = AggregateExec (plan_close child) func executed"
| "plan_close (HashJoinExec l r lk rk jt n rows cursor) =
     HashJoinExec (plan_close l) (plan_close r) lk rk jt n rows (length rows)"
| "plan_close (HashGroupAggregateExec child g func having rows cursor) =
     HashGroupAggregateExec (plan_close child) g func having rows (length rows)"
| "plan_close (SortExec child idx is_desc rows cursor) = SortExec (plan_close child) idx is_desc rows (length rows)"
| "plan_close (LimitOffsetExec child limit offset rows cursor) =
     LimitOffsetExec (plan_close child) limit offset rows (length rows)"

text \<open>How the executor runs a plan: open it, take rows until there are none, close it.\<close>

definition plan_run :: "plan \<Rightarrow> row list \<times> plan" where
  "plan_run p =
     (case while_next (\<lambda>row acc. acc @ [row]) (plan_open p) [] of (rows, p') \<Rightarrow> (rows, plan_close p'))"

section \<open>Meaning\<close>

definition agg_value :: "aggregate_func \<Rightarrow> row list \<Rightarrow> string" where
  "agg_value func rows = agg_result func (of_nat (length rows)) (fold (agg_add func) rows f64_zero)"

text \<open>The rows a plan has still to deliver.\<close>

fun plan_rows :: "plan \<Rightarrow> row list" where
  "plan_rows (SeqScanExec rows cursor) = drop cursor rows"
| "plan_rows (FilterExec child col_idx target_val) = filter (filter_matches col_idx target_val) (plan_rows child)"
| "plan_rows (AggregateExec child func executed) = (if executed then [] else [[agg_value func (plan_rows child)]])"
| "plan_rows (HashJoinExec l r lk rk jt n rows cursor) = drop cursor rows"
| "plan_rows (HashGroupAggregateExec child g func having rows cursor) = drop cursor rows"
| "plan_rows (SortExec child idx is_desc rows cursor) = drop cursor rows"
| "plan_rows (LimitOffsetExec child limit offset rows cursor) = drop cursor rows"

text \<open>The nested-loop join, grouping by the distinct keys in the order of their first row, and slicing.\<close>

definition join_row :: "join_type \<Rightarrow> nat \<Rightarrow> nat \<Rightarrow> nat \<Rightarrow> row list \<Rightarrow> row \<Rightarrow> row list" where
  "join_row jt lk rk n right l =
     (if lk < length l then
        let ms = filter (\<lambda>r. rk < length r \<and> r ! rk = l ! lk) right
        in if ms \<noteq> [] then map (\<lambda>r. l @ r) ms
           else if jt = LeftJoin then [l @ replicate n ''NULL''] else []
      else [])"

definition join_rows :: "join_type \<Rightarrow> nat \<Rightarrow> nat \<Rightarrow> nat \<Rightarrow> row list \<Rightarrow> row list \<Rightarrow> row list" where
  "join_rows jt lk rk n left right = concat (map (join_row jt lk rk n right) left)"

definition group_of :: "nat \<Rightarrow> string \<Rightarrow> row list \<Rightarrow> row list" where
  "group_of g key rows = filter (\<lambda>r. g < length r \<and> r ! g = key) rows"

definition group_keys_of :: "nat \<Rightarrow> row list \<Rightarrow> string list" where
  "group_keys_of g rows = rev (remdups (rev (map (\<lambda>r. r ! g) (filter (\<lambda>r. g < length r) rows))))"

definition group_rows :: "nat \<Rightarrow> aggregate_func \<Rightarrow> (string \<times> string) option \<Rightarrow> row list \<Rightarrow> row list" where
  "group_rows g func having rows =
     filter (\<lambda>r. passes_having having (r ! 1))
       (map (\<lambda>key. [key, agg_value func (group_of g key rows)]) (group_keys_of g rows))"

definition limit_rows :: "nat option \<Rightarrow> nat \<Rightarrow> row list \<Rightarrow> row list" where
  "limit_rows limit offset rows =
     (case limit of None \<Rightarrow> drop offset rows | Some l \<Rightarrow> take l (drop offset rows))"

fun query_rows :: "plan \<Rightarrow> row list" where
  "query_rows (SeqScanExec rows cursor) = rows"
| "query_rows (FilterExec child col_idx target_val) = filter (filter_matches col_idx target_val) (query_rows child)"
| "query_rows (AggregateExec child func executed) = [[agg_value func (query_rows child)]]"
| "query_rows (HashJoinExec l r lk rk jt n rows cursor) = join_rows jt lk rk n (query_rows l) (query_rows r)"
| "query_rows (HashGroupAggregateExec child g func having rows cursor) = group_rows g func having (query_rows child)"
| "query_rows (SortExec child idx is_desc rows cursor) = sort_by (row_cmp idx is_desc) (query_rows child)"
| "query_rows (LimitOffsetExec child limit offset rows cursor) = limit_rows limit offset (query_rows child)"

section \<open>Rows delivered\<close>

text \<open>
  The contract of the trait: \<open>rows\<close> is what is still to come, \<open>next\<close> takes its first row off,
  and a loop over \<open>next\<close> folds over it.
\<close>

locale row_source =
  fixes "next" :: "'p \<Rightarrow> 'r option \<times> 'p"
    and rows :: "'p \<Rightarrow> 'r list"
    and loop :: "('r \<Rightarrow> 's \<Rightarrow> 's) \<Rightarrow> 'p \<Rightarrow> 's \<Rightarrow> 's \<times> 'p"
  assumes next_Nil: "rows p = [] \<Longrightarrow> fst (next p) = None \<and> rows (snd (next p)) = []"
    and next_Cons: "rows p = r # rs \<Longrightarrow> fst (next p) = Some r \<and> rows (snd (next p)) = rs"
    and loop_eq: "loop body p s =
      (case next p of (None, p') \<Rightarrow> (s, p') | (Some row, p') \<Rightarrow> loop body p' (body row s))"
begin

lemma next_tl: "rows (snd (next p)) = tl (rows p)"
  using next_Nil [of p] next_Cons [of p] by (cases "rows p") auto

lemma loop_fold: "fst (loop body p s) = fold body (rows p) s \<and> rows (snd (loop body p s)) = []"
proof (induction "rows p" arbitrary: p s)
  case Nil
  then show ?case
    using next_Nil [of p] by (cases "next p") (auto simp: loop_eq [of body p])
next
  case (Cons r rs)
  then show ?case
    using next_Cons [of p r rs] Cons(2) [symmetric] by (cases "next p") (auto simp: loop_eq [of body p])
qed

lemma after_calls: "rows (((snd \<circ> next) ^^ n) p) = drop n (rows p)"
  by (induction n) (simp_all add: next_tl drop_Suc tl_drop)

lemma nth_call: "fst (next (((snd \<circ> next) ^^ n) p)) = (if n < length (rows p) then Some (rows p ! n) else None)"
proof (cases "rows (((snd \<circ> next) ^^ n) p)")
  case Nil
  then show ?thesis
    using next_Nil after_calls [of n p] by auto
next
  case (Cons r rs)
  then have "drop n (rows p) = r # rs"
    using after_calls [of n p] by simp
  then have "n < length (rows p) \<and> rows p ! n = r"
    by (metis drop_eq_Nil hd_drop_conv_nth list.distinct(1) list.sel(1) not_le)
  then show ?thesis
    using next_Cons [OF Cons] by simp
qed

end

definition delivers :: "plan \<Rightarrow> row option \<times> plan \<Rightarrow> bool" where
  "delivers p res \<longleftrightarrow> query_rows (snd res) = query_rows p \<and>
     (case plan_rows p of
        [] \<Rightarrow> fst res = None \<and> plan_rows (snd res) = []
      | r # rs \<Rightarrow> fst res = Some r \<and> plan_rows (snd res) = rs)"

lemma delivers_cursor:
  assumes "\<And>c. plan_rows (mk c) = drop c rows" "\<And>c. query_rows (mk c) = q"
  shows "delivers (mk cursor) (cursor_next mk rows cursor)"
proof (cases "cursor < length rows")
  case True
  then show ?thesis
    using assms Cons_nth_drop_Suc [of cursor rows, symmetric] by (simp add: delivers_def cursor_next_def)
qed (use assms in \<open>simp add: delivers_def cursor_next_def\<close>)

lemma next_delivers:
  "delivers p (plan_next p)"
  "fst (agg_loop func c n acc) = (n + of_nat (length (plan_rows c)), fold (agg_add func) (plan_rows c) acc) \<and>
     query_rows (snd (agg_loop func c n acc)) = query_rows c"
proof (induction p and func c n acc rule: plan_next_agg_loop.induct)
  case (2 child col_idx target_val)
  obtain r child' where *: "plan_next child = (r, child')"
    by (cases "plan_next child")
  show ?case
  proof (cases r)
    case None
    then show ?thesis
      using 2(1) * by (simp add: plan_next.simps(2) [of child] delivers_def split: list.splits)
  next
    case (Some row)
    then show ?thesis
      using 2 * by (auto simp: plan_next.simps(2) [of child] delivers_def split: list.splits)
  qed
next
  case (3 child func executed)
  then show ?case
    by (cases "agg_loop func child 0 f64_zero") (auto simp: delivers_def agg_value_def)
next
  case (8 func child n acc)
  obtain r child' where *: "plan_next child = (r, child')"
    by (cases "plan_next child")
  show ?case
  proof (cases r)
    case None
    then show ?thesis
      using 8(1) * by (simp add: agg_loop.simps [of func child] delivers_def split: list.splits)
  next
    case (Some row)
    then show ?thesis
      using 8(1,2) * by (auto simp: agg_loop.simps [of func child] delivers_def algebra_simps split: list.splits)
  qed
qed (simp_all add: delivers_cursor)

interpretation plan_source: row_source plan_next plan_rows while_next
proof
  show "fst (plan_next p) = None \<and> plan_rows (snd (plan_next p)) = []" if "plan_rows p = []" for p
    using next_delivers(1) [of p] that by (simp add: delivers_def)
  show "fst (plan_next p) = Some r \<and> plan_rows (snd (plan_next p)) = rs" if "plan_rows p = r # rs" for p r rs
    using next_delivers(1) [of p] that by (simp add: delivers_def)
qed (rule while_next.simps)

lemma while_query: "query_rows (snd (while_next body p s)) = query_rows p"
proof (induction body p s rule: while_next.induct)
  case (1 body p s)
  obtain r p' where *: "plan_next p = (r, p')"
    by (cases "plan_next p")
  have "query_rows p' = query_rows p"
    using next_delivers(1) [of p] * by (simp add: delivers_def)
  then show ?case
    using 1 * by (cases r) (auto simp: while_next.simps [of body p])
qed

section \<open>The loops of open\<close>

lemma fold_build:
  "fold (build_row rk) rows table k =
     (let ms = filter (\<lambda>r. rk < length r \<and> r ! rk = k) rows
      in case table k of None \<Rightarrow> if ms = [] then None else Some ms | Some rs \<Rightarrow> Some (rs @ ms))"
  by (induction rows arbitrary: table) (auto simp: build_row_def Let_def split: option.splits)

lemma probe_row_acc: "probe_row table lk jt n l acc = acc @ probe_row table lk jt n l []"
  by (simp add: probe_row_def split: option.splits)

lemma fold_probe: "fold (probe_row table lk jt n) ls acc = acc @ concat (map (\<lambda>l. probe_row table lk jt n l []) ls)"
proof (induction ls arbitrary: acc)
  case (Cons l ls)
  show ?case
    using Cons [of "probe_row table lk jt n l acc"] by (simp add: probe_row_acc [of table lk jt n l acc])
qed simp

lemma hash_join_rows:
  "fold (probe_row (fold (build_row rk) right Map.empty) lk jt n) left [] = join_rows jt lk rk n left right"
proof -
  have "probe_row (fold (build_row rk) right Map.empty) lk jt n l [] = join_row jt lk rk n right l" for l
    by (auto simp: probe_row_def join_row_def fold_build Let_def)
  then show ?thesis
    by (simp add: fold_probe join_rows_def)
qed

lemma group_of_snoc:
  "group_of g key (rows @ [r]) = group_of g key rows @ (if g < length r \<and> r ! g = key then [r] else [])"
  by (simp add: group_of_def)

lemma set_group_keys: "key \<in> set (group_keys_of g rows) \<longleftrightarrow> group_of g key rows \<noteq> []"
  by (auto simp: group_keys_of_def group_of_def filter_empty_conv)

lemma group_keys_snoc:
  "group_keys_of g (rows @ [r]) =
     (if g < length r \<and> group_of g (r ! g) rows = [] then group_keys_of g rows @ [r ! g] else group_keys_of g rows)"
  using set_group_keys [of "r ! g" g rows] by (auto simp: group_keys_of_def)

lemma fold_group:
  "fold (group_row g func) rows (Map.empty, []) =
     ((\<lambda>key. if group_of g key rows = [] then None
             else Some (of_nat (length (group_of g key rows)), fold (agg_add func) (group_of g key rows) f64_zero)),
      group_keys_of g rows)"
proof (induction rows rule: rev_induct)
  case Nil
  then show ?case by (simp add: group_of_def group_keys_of_def fun_eq_iff)
next
  case (snoc r rows)
  then show ?case
    by (auto simp: group_row_def group_of_snoc group_keys_snoc Let_def fun_eq_iff)
qed

lemma group_output_rows:
  "(case fold (group_row g func) rows (Map.empty, []) of (groups, keys) \<Rightarrow> group_output func having groups keys) =
     group_rows g func having rows"
proof -
  have *: "concat (map (\<lambda>k. if group_of g k rows = [] then [] else if P k then [f k] else []) ks) = filter Q (map f ks)"
    if "set ks \<subseteq> set (group_keys_of g rows)" "\<And>k. Q (f k) = P k" for ks and f :: "string \<Rightarrow> row" and P Q
    using that by (induction ks) (auto simp: set_group_keys)
  show ?thesis
    unfolding fold_group group_output_def group_rows_def group_result_def
    by (simp add: Let_def agg_value_def if_distrib [of "case_option _ _"] cong: if_cong)
      (rule *, simp_all add: agg_value_def)
qed

lemma limit_loop_rows:
  "fst (limit_loop limit offset p skipped n acc) = acc @
     limit_rows (map_option (\<lambda>l. l - n) limit) (offset - skipped) (plan_rows p) \<and>
   query_rows (snd (limit_loop limit offset p skipped n acc)) = query_rows p"
proof (induction limit offset p skipped n acc rule: limit_loop.induct)
  case (1 limit offset p skipped n acc)
  obtain r p' where *: "plan_next p = (r, p')"
    by (cases "plan_next p")
  have d: "delivers p (r, p')"
    using next_delivers(1) [of p] * by simp
  note unfold = limit_loop.simps [of limit offset p skipped n acc]
  show ?case
  proof (cases r)
    case None
    then show ?thesis
      using d * by (auto simp: unfold delivers_def limit_rows_def split: list.splits option.splits)
  next
    case (Some row)
    then have rows: "plan_rows p = row # plan_rows p'" and q: "query_rows p' = query_rows p"
      using d by (auto simp: delivers_def split: list.splits)
    consider "skipped < offset" | "offset \<le> skipped" "\<exists>l. limit = Some l \<and> l \<le> n"
      | "offset \<le> skipped" "\<forall>l. limit = Some l \<longrightarrow> n < l"
      by fastforce
    then show ?thesis
    proof cases
      case 1
      then have "limit_rows m (offset - skipped) (plan_rows p) = limit_rows m (offset - Suc skipped) (plan_rows p')" for m
        using Suc_diff_Suc [of skipped offset, symmetric] by (auto simp: limit_rows_def rows split: option.splits)
      then show ?thesis
        using "1.IH"(1) [OF * [symmetric] Some] 1 q by (simp add: unfold * Some)
    next
      case 2
      then show ?thesis
        using q by (auto simp: unfold * Some limit_rows_def)
    next
      case 3
      then have step: "limit_loop limit offset p skipped n acc = limit_loop limit offset p' skipped (Suc n) (acc @ [row])"
        by (auto simp: unfold * Some split: option.splits)
      show ?thesis
        using "1.IH"(2) [OF * [symmetric] Some] 3 q unfolding step
        by (cases limit) (auto simp: limit_rows_def rows Suc_diff_Suc [symmetric])
    qed
  qed
qed

lemma close_query: "query_rows (plan_close p) = query_rows p"
  by (induction p) simp_all

lemma collect_rows: "fold (\<lambda>row acc. acc @ [row]) rows acc = acc @ rows"
  by (induction rows arbitrary: acc) simp_all

lemma open_rows: "plan_rows (plan_open p) = query_rows p \<and> query_rows (plan_open p) = query_rows p"
proof (induction p)
  case (HashJoinExec l r lk rk jt n rows cursor)
  obtain table r' where 1: "while_next (build_row rk) (plan_open r) Map.empty = (table, r')"
    by fastforce
  obtain rows' l' where 2: "while_next (probe_row table lk jt n) (plan_open l) [] = (rows', l')"
    by fastforce
  have "table = fold (build_row rk) (query_rows r) Map.empty" "query_rows r' = query_rows r"
    using plan_source.loop_fold [of "build_row rk" "plan_open r" Map.empty] while_query [of "build_row rk" "plan_open r" Map.empty]
      1 HashJoinExec by simp_all
  moreover have "rows' = fold (probe_row table lk jt n) (query_rows l) []" "query_rows l' = query_rows l"
    using plan_source.loop_fold [of "probe_row table lk jt n" "plan_open l" "[]"]
      while_query [of "probe_row table lk jt n" "plan_open l" "[]"] 2 HashJoinExec by simp_all
  ultimately have "rows' = join_rows jt lk rk n (query_rows l) (query_rows r)"
    "query_rows r' = query_rows r" "query_rows l' = query_rows l"
    by (simp_all add: hash_join_rows)
  then show ?case
    by (simp add: hash_join_open_def 1 2)
next
  case (HashGroupAggregateExec child g func having rows cursor)
  obtain groups keys child' where 1: "while_next (group_row g func) (plan_open child) (Map.empty, []) = ((groups, keys), child')"
    by (metis prod.exhaust)
  have "(groups, keys) = fold (group_row g func) (query_rows child) (Map.empty, [])" "query_rows child' = query_rows child"
    using plan_source.loop_fold [of "group_row g func" "plan_open child" "(Map.empty, [])"]
      while_query [of "group_row g func" "plan_open child" "(Map.empty, [])"] 1 HashGroupAggregateExec by simp_all
  then show ?case
    using group_output_rows [where g = g and func = func and rows = "query_rows child" and having = having] by (simp add: hash_group_open_def 1 flip: \<open>(groups, keys) = _\<close>)
next
  case (SortExec child idx is_desc rows cursor)
  obtain rows' child' where 1: "while_next (\<lambda>row acc. acc @ [row]) (plan_open child) [] = (rows', child')"
    by fastforce
  then show ?case
    using plan_source.loop_fold [of "\<lambda>row acc. acc @ [row]" "plan_open child" "[]"]
      while_query [of "\<lambda>row acc. acc @ [row]" "plan_open child" "[]"] SortExec by (simp add: sort_open_def collect_rows)
next
  case (LimitOffsetExec child limit offset rows cursor)
  obtain rows' child' where 1: "limit_loop limit offset (plan_open child) 0 0 [] = (rows', child')"
    by fastforce
  then show ?case
    using limit_loop_rows [of limit offset "plan_open child" 0 0 "[]"] LimitOffsetExec by (cases limit) (simp_all add: limit_offset_open_def)
qed simp_all

lemma run_rows: "fst (plan_run p) = query_rows p" "query_rows (snd (plan_run p)) = query_rows p"
proof -
  obtain rows p' where 1: "while_next (\<lambda>row acc. acc @ [row]) (plan_open p) [] = (rows, p')"
    by fastforce
  then show "fst (plan_run p) = query_rows p" "query_rows (snd (plan_run p)) = query_rows p"
    using plan_source.loop_fold [of "\<lambda>row acc. acc @ [row]" "plan_open p" "[]"]
      while_query [of "\<lambda>row acc. acc @ [row]" "plan_open p" "[]"] open_rows [of p]
    by (simp_all add: plan_run_def collect_rows close_query)
qed

section \<open>Sorting\<close>

text \<open>A comparison that agrees with a key on the list sorts like the library's stable sort by that key.\<close>

lemma insert_by_key:
  "(\<And>y. y \<in> set ys \<Longrightarrow> (f x y = Greater) = (key y < key x)) \<Longrightarrow> insert_by f x ys = insort_key key x ys"
  by (induction ys) (auto simp: not_le)

lemma sort_by_key:
  assumes "\<And>x y. x \<in> set xs \<Longrightarrow> y \<in> set xs \<Longrightarrow> (f x y = Greater) = (key y < key x)"
  shows "sort_by f xs = sort_key key xs"
  using assms
proof (induction xs)
  case (Cons x xs)
  have "sort_by f (x # xs) = insert_by f x (sort_key key xs)"
    using Cons by (simp add: sort_by_def)
  also have "\<dots> = insort_key key x (sort_key key xs)"
    by (rule insert_by_key) (use Cons.prems in auto)
  finally show ?case by simp
qed (simp add: sort_by_def)

text \<open>The number in a cell, as a key; the sign turns the order around.\<close>

definition number_key :: "nat \<Rightarrow> bool \<Rightarrow> row \<Rightarrow> int" where
  "number_key idx is_desc r =
     (let k = f64_key (the (parse_f64 (cell idx r))) in if is_desc then - k else k)"

definition numeric_cell :: "nat \<Rightarrow> row \<Rightarrow> bool" where
  "numeric_cell idx r \<longleftrightarrow> parse_f64 (cell idx r) \<notin> {None, Some NaN}"

lemma reverse_ord_iff [simp]:
  "reverse_ord r = Greater \<longleftrightarrow> r = Less" "reverse_ord r = Less \<longleftrightarrow> r = Greater"
  by (cases r; simp)+

lemma row_cmp_numeric:
  "numeric_cell idx a \<Longrightarrow> numeric_cell idx b \<Longrightarrow>
     (row_cmp idx d a b = Greater) = (number_key idx d b < number_key idx d a)"
  by (auto simp: numeric_cell_def row_cmp_def cell_cmp_def f64_partial_cmp_def number_key_def Let_def)

lemma row_cmp_text:
  "parse_f64 (cell idx a) = None \<Longrightarrow>
     (row_cmp idx False a b = Greater) = (as_bytes (cell idx b) < as_bytes (cell idx a))"
  by (simp add: row_cmp_def cell_cmp_def str_cmp_def)

lemma while_count: "fst (while_next (\<lambda>_ n. Suc n) p k) \<le> k + remaining p"
proof (induction "\<lambda>(_ :: row) n. Suc n" p k rule: while_next.induct)
  case (1 p k)
  obtain r p' where *: "plan_next p = (r, p')"
    by (cases "plan_next p")
  show ?case
  proof (cases r)
    case (Some row)
    then have "remaining p' < remaining p"
      using next_remaining [of row p' p] * by simp
    then show ?thesis
      using 1 [OF * [symmetric] Some] Some * by (simp add: while_next.simps [of _ p k])
  qed (simp add: while_next.simps [of _ p k] *)
qed

lemmas f64_eval = parse_f64_def parse_number_def parse_exponent_def is_digit_def dec_val_def digit_val_def
  round_decimal_def round_f64_def exponent_for_def bit_length.simps scaled_def half_even_def Let_def

lemma parse_f64_samples:
  "parse_f64 ''9'' = Some (Fin False 5066549580791808 (- 49))"
  "parse_f64 ''10'' = Some (Fin False 5629499534213120 (- 49))"
  "parse_f64 ''1a'' = None"
  by (simp_all add: f64_eval)

section \<open>Properties\<close>

text \<open>
  (C21) The operators compute relational algebra: whatever the tree of operators and whatever
  state it is in, opening it, taking rows until there are none and closing it delivers
  exactly the rows of its meaning: selection, nested-loop inner and left join, grouping with
  \<open>HAVING\<close>, sorting, \<open>LIMIT\<close> and \<open>OFFSET\<close>, aggregation. Running the closed plan again
  delivers the same rows.
\<close>

theorem plan_run_query:
  "fst (plan_run p) = query_rows p \<and> fst (plan_run (snd (plan_run p))) = query_rows p"
  by (simp add: run_rows)

text \<open>
  A plan makes progress and ends: after \<open>open\<close>, the calls of \<open>next\<close> deliver the rows of
  the plan one by one, and every later call returns \<open>None\<close>.
\<close>

theorem plan_next_nth:
  "fst (plan_next (((snd \<circ> plan_next) ^^ n) (plan_open p))) =
     (if n < length (query_rows p) then Some (query_rows p ! n) else None)"
  using plan_source.nth_call [of n "plan_open p"] open_rows [of p] by simp

text \<open>
  The loops over \<open>next\<close> end: each row a plan delivers lowers the number of rows it can
  still deliver, so a loop runs its body at most \<open>remaining\<close> times. Here the body counts its
  runs.
\<close>

theorem plan_loop_terminates: "fst (while_next (\<lambda>_ n. Suc n) p 0) \<le> remaining p"
  using while_count [of p 0] by simp

text \<open>
  \<open>LIMIT l OFFSET o\<close> delivers the rows from position \<open>o\<close> on, at most \<open>l\<close> of them, and
  fewer only when there are no more.
\<close>

theorem limit_offset_bounds:
  "fst (plan_run (limit_offset_new c (Some l) off)) = take l (drop off (query_rows c)) \<and>
   length (fst (plan_run (limit_offset_new c (Some l) off))) = min l (length (query_rows c) - off)"
  by (simp add: run_rows limit_offset_new_def limit_rows_def min.commute)

text \<open>\<open>COUNT(*)\<close> is one row with the number of rows of its input, which wraps at 64 bits.\<close>

theorem count_rows:
  "fst (plan_run (aggregate_new c Count)) = [[nat_str (length (query_rows c) mod 2 ^ 64)]]"
  by (simp add: run_rows aggregate_new_def agg_value_def unat_of_nat)

text \<open>
  (C32) \<open>ORDER BY\<close> a column whose cells are all numbers is the stable sort by the numbers,
  ascending or descending: a permutation of the rows, in order, equal cells in input order.
\<close>

theorem sort_numeric:
  assumes "\<forall>r\<in>set (query_rows c). numeric_cell idx r"
  shows "fst (plan_run (sort_new c idx is_desc)) = sort_key (number_key idx is_desc) (query_rows c)"
  using assms by (simp add: run_rows sort_new_def sort_by_key row_cmp_numeric)

theorem sort_numeric_witness:
  "fst (plan_run (sort_new (seq_scan_new [[''a'', ''9''], [''b'', ''10''], [''c'', ''9'']]) 1 True)) =
     [[''b'', ''10''], [''a'', ''9''], [''c'', ''9'']]"
proof -
  let ?c = "seq_scan_new [[''a'', ''9''], [''b'', ''10''], [''c'', ''9'']]"
  have "\<forall>r\<in>set (query_rows ?c). numeric_cell 1 r"
    by (simp add: seq_scan_new_def numeric_cell_def cell_def parse_f64_samples)
  from sort_numeric [OF this, of True] show ?thesis
    by (simp add: seq_scan_new_def number_key_def cell_def parse_f64_samples signed_int_def)
qed

text \<open>
  \<open>ORDER BY\<close> a column none of whose cells is a number is the stable sort by the bytes
  of the text.
\<close>

theorem sort_text:
  assumes "\<forall>r\<in>set (query_rows c). parse_f64 (cell idx r) = None"
  shows "fst (plan_run (sort_new c idx False)) = sort_key (\<lambda>r. as_bytes (cell idx r)) (query_rows c)"
  using assms by (simp add: run_rows sort_new_def sort_by_key row_cmp_text)

text \<open>
  On a column that mixes numbers and text the comparison has a cycle, 10 below 1a below 9
  below 10: it is no order, and \<open>sort_by\<close> promises nothing for it.
\<close>

theorem sort_comparison_cycle:
  "row_cmp 0 False [''10''] [''1a''] = Less \<and> row_cmp 0 False [''1a''] [''9''] = Less \<and>
   row_cmp 0 False [''9''] [''10''] = Less"
  by (simp add: row_cmp_def cell_def cell_cmp_def parse_f64_samples f64_partial_cmp_def str_cmp_def cmp_def
      byte_of_def signed_int_def)

end
