(* ===== verification/Rows.thy ===== *)
theory Rows
  imports Volcano
begin

text \<open>
  The encoding of table rows (\<open>encode_values\<close>, \<open>encode_values_mvcc\<close>, \<open>decode_values\<close> of
  \<open>src/sql/executor.rs\<close>): a header of two transaction numbers, then each value with its
  length in front.
\<close>

section \<open>Model\<close>

definition encode_value :: "string \<Rightarrow> bytes" where
  "encode_value v = u32_to_le (of_nat (length v)) @ as_bytes v"

definition encode_values_mvcc :: "row \<Rightarrow> u64 \<Rightarrow> u64 \<Rightarrow> bytes" where
  "encode_values_mvcc vals xmin xmax = u64_to_le xmin @ u64_to_le xmax @ concat (map encode_value vals)"

definition encode_values :: "row \<Rightarrow> bytes" where
  "encode_values vals = encode_values_mvcc vals 1 0"

definition corrupted_row :: error where
  "corrupted_row = Message ''Corrupted row encoding''"

text \<open>The loop over the fields; \<open>short\<close> is the answer when fewer than four bytes are left.\<close>

function decode_loop :: "row res \<Rightarrow> bytes \<Rightarrow> nat \<Rightarrow> row \<Rightarrow> row res" where
  "decode_loop short dat offset acc =
     (if offset < length dat then
        if length dat < offset + 4 then short
        else let len = unat (u32_from_le (slice offset (offset + 4) dat)) in
          if length dat < offset + 4 + len then Inl corrupted_row
          else rbind (from_utf8 (slice (offset + 4) (offset + 4 + len) dat))
            (\<lambda>s. decode_loop short dat (offset + 4 + len) (acc @ [s]))
      else Inr acc)"
  by auto
termination decode_loop
  by (relation "measure (\<lambda>(short, dat, offset, acc). length dat - offset)") auto

declare decode_loop.simps [simp del]

text \<open>
  A buffer of 16 bytes or more starts with the header. If the fields behind it do not fit, the
  whole buffer is read again without a header.
\<close>

definition decode_values :: "bytes \<Rightarrow> row res" where
  "decode_values dat =
     decode_loop (decode_loop (Inl corrupted_row) dat 0 []) dat (if 16 \<le> length dat then 16 else 0) []"

section \<open>Round trip\<close>

definition row_ok :: "row \<Rightarrow> bool" where
  "row_ok vals \<longleftrightarrow> (\<forall>v\<in>set vals. valid_str v \<and> length v < 2 ^ 32)"

lemma row_ok_simps [simp]:
  "row_ok []" "row_ok (v # vals) \<longleftrightarrow> valid_str v \<and> length v < 2 ^ 32 \<and> row_ok vals"
  by (auto simp: row_ok_def)

lemma slice_append2: "slice (length xs) (length xs + length ys) (xs @ ys @ zs) = ys"
  by (simp add: slice_def)

lemma decode_step:
  assumes "valid_str v" "length v < 2 ^ 32"
  shows "decode_loop short (pre @ encode_value v @ rest) (length pre) acc =
    decode_loop short (pre @ encode_value v @ rest) (length pre + 4 + length v) (acc @ [v])"
proof -
  let ?dat = "pre @ encode_value v @ rest" and ?n = "u32_to_le (of_nat (length v))"
  have 1: "slice (length pre) (length pre + 4) ?dat = ?n"
    using slice_append2 [of pre ?n "as_bytes v @ rest"] by (simp add: encode_value_def)
  have len: "unat (of_nat (length v) :: u32) = length v"
    using assms(2) by (simp add: unat_of_nat)
  have 2: "slice (length pre + 4) (length pre + 4 + length v) ?dat = as_bytes v"
    using slice_append2 [of "pre @ ?n" "as_bytes v" rest] by (simp add: encode_value_def add.assoc)
  have "length pre < length ?dat" "\<not> length ?dat < length pre + 4" "\<not> length ?dat < length pre + 4 + length v"
    by (simp_all add: encode_value_def)
  then show ?thesis
    using assms(1) by (simp add: decode_loop.simps [of short ?dat "length pre"] 1 len 2 Let_def)
qed

lemma decode_fields:
  "row_ok vals \<Longrightarrow> decode_loop short (pre @ concat (map encode_value vals)) (length pre) acc = Inr (acc @ vals)"
proof (induction vals arbitrary: pre acc)
  case Nil
  then show ?case by (simp add: decode_loop.simps)
next
  case (Cons v vals)
  have "length (encode_value v) = 4 + length v"
    by (simp add: encode_value_def)
  then show ?case
    using Cons.IH [of "pre @ encode_value v" "acc @ [v]"] Cons.prems
      decode_step [of v short pre "concat (map encode_value vals)" acc] by (simp add: add.assoc)
qed

lemma decode_encode [simp]: "row_ok vals \<Longrightarrow> decode_values (encode_values_mvcc vals xmin xmax) = Inr vals"
  using decode_fields [of vals "decode_loop (Inl corrupted_row) (encode_values_mvcc vals xmin xmax) 0 []"
      "u64_to_le xmin @ u64_to_le xmax" "[]"]
  by (simp add: decode_values_def encode_values_mvcc_def)

text \<open>
  (C25) A stored row is read back: encoding a row of strings with any two transaction numbers
  and decoding the bytes gives the row, and the fallback for rows without a header is not taken.
\<close>

theorem row_round_trip:
  assumes "\<forall>v\<in>set vals. valid_str v \<and> length v < 2 ^ 32"
  shows "decode_values (encode_values_mvcc vals xmin xmax) = Inr vals"
  using assms unfolding row_ok_def [symmetric] by (rule decode_encode)

theorem row_round_trip_witness:
  "decode_values (encode_values_mvcc [''7'', '''', ''x y''] 3 0) = Inr [''7'', '''', ''x y'']"
proof -
  have "\<forall>v\<in>set [''7'', '''', ''x y'']. valid_str v \<and> length v < 2 ^ 32"
    by (simp add: ascii_valid)
  then show ?thesis
    by (rule row_round_trip)
qed

end
