(* ===== verification/Catalog.thy ===== *)
theory Catalog
  imports Store Rows
begin

text \<open>
  The catalog (\<open>src/sql/catalog.rs\<close>): schemas, tables and users as entries of the database
  under reserved keys. Encoding and decoding with \<open>serde_json\<close> is the argument \<open>J\<close>; what the
  catalog relies on is \<open>json_ok\<close>, that decoding undoes encoding.
\<close>

section \<open>Model\<close>

record user_info =
  password_hash :: "string option"
  is_superuser :: bool

record serde_json =
  user_to_vec :: "user_info \<Rightarrow> bytes res"
  user_from_slice :: "bytes \<Rightarrow> user_info res"
  schema_to_vec :: "table_schema \<Rightarrow> bytes res"
  schema_from_slice :: "bytes \<Rightarrow> table_schema res"

definition json_ok :: "serde_json \<Rightarrow> bool" where
  "json_ok J \<longleftrightarrow> (\<forall>u bs. user_to_vec J u = Inr bs \<longrightarrow> user_from_slice J bs = Inr u) \<and>
     (\<forall>ts bs. schema_to_vec J ts = Inr bs \<longrightarrow> schema_from_slice J bs = Inr ts)"

definition DEFAULT_SCHEMA :: string where
  "DEFAULT_SCHEMA = ''public''"

definition schema_key :: "string \<Rightarrow> string" where
  "schema_key s = ''__catalog__:schema:'' @ to_lowercase s"

definition table_key :: "string \<Rightarrow> string \<Rightarrow> string" where
  "table_key s t = ''__catalog__:table:'' @ to_lowercase s @ '':'' @ to_lowercase t"

definition user_key :: "string \<Rightarrow> string" where
  "user_key u = ''__catalog__:user:'' @ to_lowercase u"

definition legacy_key :: "string \<Rightarrow> string" where
  "legacy_key t = ''__schema__:'' @ t"

definition init_default_schema :: "'s store \<Rightarrow> serde_json \<Rightarrow> ('s, unit) M" where
  "init_default_schema D J =
     (let key = as_bytes (schema_key DEFAULT_SCHEMA); pg_user_key = as_bytes (user_key ''postgres'') in
      sbind (st_get D key) (\<lambda>found.
      sthen (if found = None then st_put D key (as_bytes ''registered'') else ret ())
      (sbind (st_get D pg_user_key) (\<lambda>found.
         if found = None
         then sbind (of_res (user_to_vec J \<lparr>password_hash = None, is_superuser = True\<rparr>)) (\<lambda>serialized.
              st_put D pg_user_key serialized)
         else ret ()))))"

definition create_schema :: "'s store \<Rightarrow> string \<Rightarrow> ('s, unit) M" where
  "create_schema D s =
     (let key = as_bytes (schema_key s) in
      sbind (st_get D key) (\<lambda>found.
        if found \<noteq> None then throw (Message (''Schema '' @ quoted s @ '' already exists''))
        else st_put D key (as_bytes ''registered'')))"

definition create_user :: "'s store \<Rightarrow> serde_json \<Rightarrow> string \<Rightarrow> string option \<Rightarrow> bool \<Rightarrow> ('s, unit) M" where
  "create_user D J username pwd superuser =
     (let key = as_bytes (user_key username) in
      sbind (st_get D key) (\<lambda>found.
        if found \<noteq> None then throw (Message (''Role '' @ quoted username @ '' already exists''))
        else sbind (of_res (user_to_vec J \<lparr>password_hash = pwd, is_superuser = superuser\<rparr>)) (\<lambda>serialized.
             st_put D key serialized)))"

definition get_user :: "'s store \<Rightarrow> serde_json \<Rightarrow> string \<Rightarrow> ('s, user_info option) M" where
  "get_user D J username =
     sbind (st_get D (as_bytes (user_key username))) (\<lambda>found.
       case found of
         None \<Rightarrow> ret None
       | Some bs \<Rightarrow> sbind (of_res (user_from_slice J bs)) (\<lambda>info. ret (Some info)))"

text \<open>The names behind a key prefix.\<close>

definition stripped :: "string \<Rightarrow> (bytes \<times> bytes) list \<Rightarrow> string list" where
  "stripped pfx records = List.map_filter (\<lambda>(k, _). strip_prefix pfx (from_utf8_lossy k)) records"

definition list_schemas :: "'s store \<Rightarrow> ('s, string list) M" where
  "list_schemas D =
     (let pfx = ''__catalog__:schema:'' in
      sbind (st_scan_prefix D (as_bytes pfx)) (\<lambda>records.
        ret (sort_key as_bytes (remdups (DEFAULT_SCHEMA # stripped pfx records)))))"

definition legacy_val :: "table_schema \<Rightarrow> string" where
  "legacy_val ts = join '','' (map (\<lambda>c. name c @ '' '' @ to_sql_string (data_type c)) (columns ts))"

definition save_table_schema :: "'s store \<Rightarrow> serde_json \<Rightarrow> table_schema \<Rightarrow> ('s, unit) M" where
  "save_table_schema D J ts =
     sbind (of_res (schema_to_vec J ts)) (\<lambda>serialized.
     sthen (st_put D (as_bytes (table_key (schema_name ts) (table_name ts))) serialized)
       (st_put D (as_bytes (legacy_key (table_name ts))) (as_bytes (legacy_val ts))))"

text \<open>A column of a schema in the old form, \<open>name type\<close>.\<close>

definition legacy_column :: "string \<Rightarrow> column_def" where
  "legacy_column part =
     (let tokens = split_whitespace (trim part);
          col_name = (case tokens of [] \<Rightarrow> ''col'' | t # _ \<Rightarrow> t);
          dtype = (if 1 < length tokens
                   then (case data_type_from_str (tokens ! 1) of Inl e \<Rightarrow> TText | Inr dt \<Rightarrow> dt) else TText)
      in column_new col_name dtype)"

definition get_table_schema :: "'s store \<Rightarrow> serde_json \<Rightarrow> string \<Rightarrow> string \<Rightarrow> ('s, table_schema option) M" where
  "get_table_schema D J s t =
     sbind (st_get D (as_bytes (table_key s t))) (\<lambda>found.
       case found of
         Some bs \<Rightarrow> sbind (of_res (schema_from_slice J bs)) (\<lambda>ts. ret (Some ts))
       | None \<Rightarrow>
           if eq_ignore_case s DEFAULT_SCHEMA
           then sbind (st_get D (as_bytes (legacy_key t))) (\<lambda>old.
             case old of
               None \<Rightarrow> ret None
             | Some bs \<Rightarrow> sbind (of_res (from_utf8 bs)) (\<lambda>raw_val.
                 ret (Some (schema_new DEFAULT_SCHEMA t (map legacy_column (split_char (CHR '','') raw_val))))))
           else ret None)"

text \<open>A name of the old form is added unless the list has it already in some case.\<close>

definition add_legacy_name :: "string \<Rightarrow> string list \<Rightarrow> string list" where
  "add_legacy_name t tables = (if \<exists>u\<in>set tables. eq_ignore_case u t then tables else tables @ [t])"

definition list_tables :: "'s store \<Rightarrow> string \<Rightarrow> ('s, string list) M" where
  "list_tables D s =
     (let pfx = ''__catalog__:table:'' @ to_lowercase s @ '':'' in
      sbind (st_scan_prefix D (as_bytes pfx)) (\<lambda>records.
        let tables = stripped pfx records in
        sbind (if eq_ignore_case s DEFAULT_SCHEMA
               then sbind (st_scan_prefix D (as_bytes ''__schema__:'')) (\<lambda>old.
                 ret (fold add_legacy_name (stripped ''__schema__:'' old) tables))
               else ret tables) (\<lambda>tables'.
        ret (sort_key as_bytes tables'))))"

text \<open>\<open>for x in xs { rows.extend(f(x)?) }\<close>\<close>

fun for_collect :: "('a \<Rightarrow> ('s, 'b list) M) \<Rightarrow> 'a list \<Rightarrow> ('s, 'b list) M" where
  "for_collect f [] = ret []"
| "for_collect f (x # xs) = sbind (f x) (\<lambda>ys. sbind (for_collect f xs) (\<lambda>zs. ret (ys @ zs)))"

definition query_information_schema_tables :: "'s store \<Rightarrow> ('s, row list) M" where
  "query_information_schema_tables D =
     sbind (list_schemas D) (\<lambda>schemas.
       for_collect (\<lambda>s. sbind (list_tables D s) (\<lambda>tables.
         ret (map (\<lambda>t. [''magnumdb'', s, t, ''BASE TABLE'']) tables))) schemas)"

definition column_row :: "string \<Rightarrow> string \<Rightarrow> nat \<times> column_def \<Rightarrow> row" where
  "column_row s t ic =
     (case ic of (idx, col) \<Rightarrow>
        [''magnumdb'', s, t, name col, nat_str (idx + 1), to_sql_string (data_type col),
         if is_nullable col then ''YES'' else ''NO'',
         case default_value col of Some v \<Rightarrow> v | None \<Rightarrow> ''NULL''])"

definition query_information_schema_columns ::
    "'s store \<Rightarrow> serde_json \<Rightarrow> string option \<Rightarrow> ('s, row list) M" where
  "query_information_schema_columns D J target_table =
     sbind (list_schemas D) (\<lambda>schemas.
       for_collect (\<lambda>s. sbind (list_tables D s) (\<lambda>tables.
         for_collect (\<lambda>t.
           if (case target_table of Some filter_t \<Rightarrow> \<not> eq_ignore_case t filter_t | None \<Rightarrow> False) then ret []
           else sbind (get_table_schema D J s t) (\<lambda>found.
             case found of
               None \<Rightarrow> ret []
             | Some ts \<Rightarrow> ret (map (column_row s t) (List.enumerate 0 (columns ts))))) tables)) schemas)"

section \<open>What the catalog finds\<close>

definition catalog_lookup :: "serde_json \<Rightarrow> (key \<times> bytes) list \<Rightarrow> string \<Rightarrow> string \<Rightarrow> table_schema option res" where
  "catalog_lookup J es s t =
     (case map_of es (as_bytes (table_key s t)) of
        Some bs \<Rightarrow> rbind (schema_from_slice J bs) (\<lambda>ts. Inr (Some ts))
      | None \<Rightarrow>
          if eq_ignore_case s DEFAULT_SCHEMA
          then (case map_of es (as_bytes (legacy_key t)) of
              None \<Rightarrow> Inr None
            | Some bs \<Rightarrow> rbind (from_utf8 bs) (\<lambda>raw_val.
                Inr (Some (schema_new DEFAULT_SCHEMA t (map legacy_column (split_char (CHR '','') raw_val))))))
          else Inr None)"

lemma keys_differ [simp]:
  "table_key s t \<noteq> legacy_key u" "legacy_key u \<noteq> table_key s t" "schema_key s \<noteq> legacy_key u" "user_key s \<noteq> legacy_key u"
  by (simp_all add: table_key_def legacy_key_def schema_key_def user_key_def)

context key_reader
begin

lemma get_table_schemaE:
  assumes "holds s es"
  obtains s' where "get_table_schema D J sc t s = (catalog_lookup J es sc t, s')" "holds s' es"
proof -
  obtain s1 where 1: "st_get D (as_bytes (table_key sc t)) s = (Inr (map_of es (as_bytes (table_key sc t))), s1)" "holds s1 es"
    using assms by (rule getE)
  obtain s2 where 2: "st_get D (as_bytes (legacy_key t)) s1 = (Inr (map_of es (as_bytes (legacy_key t))), s2)" "holds s2 es"
    using 1(2) by (rule getE)
  show thesis
    using that [of s1] that [of s2] 1 2
    by (cases "map_of es (as_bytes (table_key sc t))"; cases "map_of es (as_bytes (legacy_key t))"; cases "eq_ignore_case sc DEFAULT_SCHEMA")
      (auto simp: get_table_schema_def catalog_lookup_def sbind_def rbind_def split: sum.splits)
qed

end

context key_store
begin

lemma save_table_schema_spec:
  assumes "schema_to_vec J ts = Inr bs"
    and "room s es ((as_bytes (table_key (schema_name ts) (table_name ts)), bs) #
      (as_bytes (legacy_key (table_name ts)), as_bytes (legacy_val ts)) # ws)"
  shows "runs (save_table_schema D J ts) s (\<lambda>_ s'. room s' (ins_entry (as_bytes (legacy_key (table_name ts))) (as_bytes (legacy_val ts))
    (ins_entry (as_bytes (table_key (schema_name ts) (table_name ts))) bs es)) ws)"
proof -
  obtain s1 where 1: "st_put D (as_bytes (table_key (schema_name ts) (table_name ts))) bs s = (Inr (), s1)"
    "room s1 (ins_entry (as_bytes (table_key (schema_name ts) (table_name ts))) bs es)
      ((as_bytes (legacy_key (table_name ts)), as_bytes (legacy_val ts)) # ws)"
    using assms(2) by (rule putE)
  from 1(2) obtain s2 where "st_put D (as_bytes (legacy_key (table_name ts))) (as_bytes (legacy_val ts)) s1 = (Inr (), s2)"
    "room s2 (ins_entry (as_bytes (legacy_key (table_name ts))) (as_bytes (legacy_val ts))
      (ins_entry (as_bytes (table_key (schema_name ts) (table_name ts))) bs es)) ws"
    by (rule putE)
  then show ?thesis
    using assms(1) 1(1) by (simp add: save_table_schema_def runs_def)
qed

lemma save_get_spec:
  assumes "json_ok J" "schema_to_vec J ts = Inr bs" "eq_ignore_case sc (schema_name ts)" "eq_ignore_case t (table_name ts)"
    and "room s es ((as_bytes (table_key (schema_name ts) (table_name ts)), bs) #
      (as_bytes (legacy_key (table_name ts)), as_bytes (legacy_val ts)) # ws)"
  shows "\<exists>s1 s2. save_table_schema D J ts s = (Inr (), s1) \<and> get_table_schema D J sc t s1 = (Inr (Some ts), s2)"
proof -
  let ?tk = "as_bytes (table_key (schema_name ts) (table_name ts))"
  let ?es = "ins_entry (as_bytes (legacy_key (table_name ts))) (as_bytes (legacy_val ts)) (ins_entry ?tk bs es)"
  obtain s1 where 1: "save_table_schema D J ts s = (Inr (), s1)" "room s1 ?es ws"
    using save_table_schema_spec [OF assms(2,5)] by (auto simp: runs_def)
  have "sorted_keys es"
    using reads.sorted [OF assms(5)] .
  then have "map_of ?es ?tk = Some bs"
    by (simp add: map_of_ins_entry sorted_ins_entry)
  moreover have "table_key sc t = table_key (schema_name ts) (table_name ts)"
    using assms(3,4) by (simp add: table_key_def eq_ignore_case_def)
  ultimately have "catalog_lookup J ?es sc t = Inr (Some ts)"
    using assms(1,2) by (simp add: catalog_lookup_def json_ok_def)
  moreover obtain s2 where "get_table_schema D J sc t s1 = (catalog_lookup J ?es sc t, s2)"
    using 1(2) by (rule reads.get_table_schemaE)
  ultimately show ?thesis
    using 1(1) by simp
qed

lemma create_schema_spec:
  assumes "room s es ((as_bytes (schema_key sc), as_bytes ''registered'') # ws)" "eq_ignore_case sc' sc"
    "map_of es (as_bytes (schema_key sc)) = None"
  shows "\<exists>s1 s2. create_schema D sc s = (Inr (), s1) \<and>
    create_schema D sc' s1 = (Inl (Message (''Schema '' @ quoted sc' @ '' already exists'')), s2) \<and>
    room s2 (ins_entry (as_bytes (schema_key sc)) (as_bytes ''registered'') es) ws"
proof -
  let ?k = "as_bytes (schema_key sc)" and ?v = "as_bytes ''registered''"
  have sorted: "sorted_keys es"
    using reads.sorted [OF assms(1)] .
  obtain s1 where 1: "st_get D ?k s = (Inr None, s1)" "room s1 es ((?k, ?v) # ws)"
    using assms(1,3) by (metis reads.getE)
  obtain s2 where 2: "st_put D ?k ?v s1 = (Inr (), s2)" "room s2 (ins_entry ?k ?v es) ws"
    using 1(2) by (rule putE)
  obtain s3 where 3: "st_get D ?k s2 = (Inr (Some ?v), s3)" "room s3 (ins_entry ?k ?v es) ws"
    using 2(2) sorted by (metis reads.getE map_of_ins_entry fun_upd_same)
  have key: "schema_key sc' = schema_key sc"
    using assms(2) by (simp add: schema_key_def eq_ignore_case_def)
  show ?thesis
    using 1(1) 2(1) 3 by (simp add: create_schema_def Let_def key)
qed

end

section \<open>Properties\<close>

text \<open>
  An encoder for the witnesses: user records in full, and one table schema. It decodes what it
  encodes.
\<close>

definition sample_schema :: table_schema where
  "sample_schema = schema_new DEFAULT_SCHEMA ''Orders''
     [with_unique True (with_primary_key True (with_nullable False (column_new ''id'' TInt))), column_new ''item'' TText]"

definition sample_json :: serde_json where
  "sample_json =
     \<lparr>user_to_vec = (\<lambda>u. Inr ((if is_superuser u then 1 else 0) #
        (case password_hash u of None \<Rightarrow> [] | Some p \<Rightarrow> 1 # as_bytes p))),
      user_from_slice = (\<lambda>bs. case bs of
          [] \<Rightarrow> Inl (Message ''EOF'')
        | b # ps \<Rightarrow> Inr \<lparr>password_hash = (case ps of [] \<Rightarrow> None | _ # p \<Rightarrow> Some (of_bytes p)), is_superuser = (b = 1)\<rparr>),
      schema_to_vec = (\<lambda>ts. if ts = sample_schema then Inr [42] else Inl (Message ''unsupported'')),
      schema_from_slice = (\<lambda>bs. if bs = [42] then Inr sample_schema else Inl (Message ''unsupported''))\<rparr>"

lemma sample_small:
  "list_all small_put (put_entries [(as_bytes (table_key (schema_name sample_schema) (table_name sample_schema)), [42]),
     (as_bytes (legacy_key (table_name sample_schema)), as_bytes (legacy_val sample_schema))])"
  by (simp add: sample_schema_def schema_new_def column_new_def with_primary_key_def with_unique_def with_nullable_def Let_def
    legacy_key_def legacy_val_def table_key_def DEFAULT_SCHEMA_def)

lemma sample_json_ok: "json_ok sample_json"
  by (auto simp: json_ok_def sample_json_def split: if_splits option.splits)

text \<open>
  (C26) The catalog returns what was saved: after \<open>save_table_schema\<close>, looking the table up
  under any spelling of its names in upper or lower case gives the schema with all its
  columns, types and constraints. \<open>serde_json\<close> is assumed to decode what it encodes.
\<close>

theorem catalog_save_get:
  assumes "lru_cache L ok" and "json_ok J" and "schema_to_vec J ts = Inr bs"
    and "eq_ignore_case s (schema_name ts)" and "eq_ignore_case t (table_name ts)"
    and "db_holds L ok crc lsn db es [(as_bytes (table_key (schema_name ts) (table_name ts)), bs),
      (as_bytes (legacy_key (table_name ts)), as_bytes (legacy_val ts))]"
  shows "\<exists>db1 db2. save_table_schema (database_ops L crc) J ts db = (Inr (), db1) \<and>
    get_table_schema (database_ops L crc) J s t db1 = (Inr (Some ts), db2)"
proof -
  from key_store.save_get_spec [OF lru_store(1) [OF assms(1)], OF assms(2-6)] show ?thesis .
qed

theorem catalog_save_get_witness:
  "\<exists>db db1 db2. db_open lru_list sum_crc config_default empty_file empty_file = Inr db \<and>
     save_table_schema (database_ops lru_list sum_crc) sample_json sample_schema db = (Inr (), db1) \<and>
     get_table_schema (database_ops lru_list sum_crc) sample_json ''PUBLIC'' ''orders'' db1 = (Inr (Some sample_schema), db2)"
proof -
  let ?ws = "[(as_bytes (table_key (schema_name sample_schema) (table_name sample_schema)), [42]),
      (as_bytes (legacy_key (table_name sample_schema)), as_bytes (legacy_val sample_schema))]"
  have on: "enabled (wal_cfg config_default)"
    by (simp add: config_default_def)
  have "replay_fit 2 0 [] (put_entries ?ws)"
    by (rule small_puts_fit [OF sample_small]) simp_all
  with on obtain db where db: "db_open lru_list sum_crc config_default empty_file empty_file = Inr db"
    "db_holds lru_list lru_list_ok sum_crc 0 db [] ?ws"
    by (rule list_db_room)
  have "schema_to_vec sample_json sample_schema = Inr [42]" "eq_ignore_case ''PUBLIC'' (schema_name sample_schema)"
    "eq_ignore_case ''orders'' (table_name sample_schema)"
    by (simp add: sample_json_def, simp_all add: sample_schema_def schema_new_def eq_ignore_case_def DEFAULT_SCHEMA_def)
  from catalog_save_get [OF lru_list.lru_cache_axioms sample_json_ok this db(2)]
  obtain db1 db2 where "save_table_schema (database_ops lru_list sum_crc) sample_json sample_schema db = (Inr (), db1)"
    "get_table_schema (database_ops lru_list sum_crc) sample_json ''PUBLIC'' ''orders'' db1 = (Inr (Some sample_schema), db2)"
    by (elim exE conjE)
  with db(1) show ?thesis
    by (intro exI conjI)
qed

text \<open>
  A schema is created once: the first \<open>CREATE SCHEMA\<close> of a name succeeds, the second one of
  the same name in any spelling fails with the message that the schema exists and changes no entry.
\<close>

theorem create_schema_once:
  assumes "lru_cache L ok" and "db_holds L ok crc lsn db es ((as_bytes (schema_key s), as_bytes ''registered'') # ws)"
    and "eq_ignore_case s' s" and "map_of es (as_bytes (schema_key s)) = None"
  shows "\<exists>db1 db2. create_schema (database_ops L crc) s db = (Inr (), db1) \<and>
    create_schema (database_ops L crc) s' db1 = (Inl (Message (''Schema '' @ quoted s' @ '' already exists'')), db2) \<and>
    db_holds L ok crc lsn db2 (ins_entry (as_bytes (schema_key s)) (as_bytes ''registered'') es) ws"
  using key_store.create_schema_spec [OF lru_store(1) [OF assms(1)], OF assms(2-4)] .

theorem create_schema_once_witness:
  "\<exists>db db1 db2. db_open lru_list sum_crc config_default empty_file empty_file = Inr db \<and>
     create_schema (database_ops lru_list sum_crc) ''sales'' db = (Inr (), db1) \<and>
     create_schema (database_ops lru_list sum_crc) ''SALES'' db1 = (Inl (Message (''Schema '' @ quoted ''SALES'' @ '' already exists'')), db2)"
proof -
  let ?ws = "[(as_bytes (schema_key ''sales''), as_bytes ''registered'')]"
  have on: "enabled (wal_cfg config_default)"
    by (simp add: config_default_def)
  have "replay_fit 2 0 [] (put_entries ?ws)"
    by (rule small_puts_fit) (simp_all add: schema_key_def)
  with on obtain db where db: "db_open lru_list sum_crc config_default empty_file empty_file = Inr db"
    "db_holds lru_list lru_list_ok sum_crc 0 db [] ?ws"
    by (rule list_db_room)
  have "eq_ignore_case ''SALES'' ''sales''" "map_of [] (as_bytes (schema_key ''sales'')) = None"
    by (simp_all add: eq_ignore_case_def)
  from create_schema_once [OF lru_list.lru_cache_axioms db(2) this] db(1) show ?thesis
    by (elim exE conjE) (intro exI conjI)
qed

end
