(* ===== verification/Parser.thy ===== *)
theory Parser
  imports Volcano
begin

text \<open>
  The SQL parser (\<open>src/sql/parser.rs\<close>). It looks for keywords in the upper-cased text and
  cuts the statement apart at the positions found; a cut whose ends are in the wrong order
  panics. \<open>Self::parse\<close> calls itself on parts of its input: \<open>parse_upto\<close> takes the depth of
  these calls as fuel, and \<open>parse\<close> gives it more than enough, one call per character.
\<close>

section \<open>Model\<close>

definition RESERVED_PREFIX :: string where
  "RESERVED_PREFIX = ''__''"

datatype statement =
    CreateUser string "string option"
  | CreateSchema string
  | CreateTable string "string list"
  | CreateIndex string string "string list"
  | Union statement statement bool
  | With string statement statement
  | Insert string "row list"
  | Select string "(string \<times> string) option" "(string \<times> bool) option" "(nat \<times> nat) option"
  | SelectInSubquery string string statement
  | SelectWindow string string string
  | SelectRange string string string string
  | SelectAggregate string string string "(string \<times> string) option"
  | SelectGroupAggregate string string string string "(string \<times> string) option" "(string \<times> string) option"
  | SelectJoin string string string string bool
  | Update string string string "(string \<times> string) option"
  | Delete string "(string \<times> string) option"
  | DropTable string
  | AlterTableAddColumn string string
  | ShowTables
  | ShowSchemas
  | Begin
  | Commit
  | Rollback

definition ok_or :: "'a option \<Rightarrow> string \<Rightarrow> 'a res" where
  "ok_or r msg = (case r of None \<Rightarrow> Inl (Message msg) | Some x \<Rightarrow> Inr x)"

definition unwrap :: "'a option \<Rightarrow> 'a res" where
  "unwrap r = (case r of None \<Rightarrow> Inl Panic | Some x \<Rightarrow> Inr x)"

definition find_char :: "char \<Rightarrow> string \<Rightarrow> nat option" where
  "find_char c s = position (\<lambda>d. d = c) s"

definition quote :: char where
  "quote = CHR 39"

definition validate_identifier :: "string \<Rightarrow> unit res" where
  "validate_identifier n =
     (let clean = trim n in
      if starts_with RESERVED_PREFIX clean
      then Inl (Message (''Identifier '' @ quoted clean @ '' uses reserved prefix '' @ quoted RESERVED_PREFIX @
        ''. Choose a different name.''))
      else if clean = [] then Inl (Message ''Identifier cannot be empty'')
      else Inr ())"

fun validate_all :: "string list \<Rightarrow> unit res" where
  "validate_all [] = Inr ()"
| "validate_all (n # ns) = rbind (validate_identifier n) (\<lambda>_. validate_all ns)"

definition first_word :: "string \<Rightarrow> string" where
  "first_word s = (case split_whitespace s of [] \<Rightarrow> [] | w # _ \<Rightarrow> w)"

definition parse_alter_table :: "string \<Rightarrow> statement res" where
  "parse_alter_table sql =
     (if \<not> starts_with ''ALTER TABLE '' (to_uppercase sql)
      then Inl (Message ''Syntax Error: Expected ALTER TABLE'')
      else rbind (str_from sql 12) (\<lambda>tail.
        let tokens = splitn 2 (CHR '' '') (trim tail);
            t = (case tokens of [] \<Rightarrow> [] | w # _ \<Rightarrow> w);
            remaining = (case tokens of _ # w # _ \<Rightarrow> trim w | _ \<Rightarrow> []);
            upper_remaining = to_uppercase remaining
        in if starts_with ''ADD COLUMN '' upper_remaining
           then rbind (str_from remaining 11) (\<lambda>d. Inr (AlterTableAddColumn t (trim d)))
           else if starts_with ''ADD '' upper_remaining
           then rbind (str_from remaining 4) (\<lambda>d. Inr (AlterTableAddColumn t (trim d)))
           else Inl (Message ''Syntax Error: Unsupported ALTER TABLE operation'')))"

definition parse_create_user :: "string \<Rightarrow> statement res" where
  "parse_create_user sql =
     (let tokens = split_whitespace sql in
      if length tokens < 3 then Inl (Message ''Syntax error in CREATE USER'')
      else let username = tokens ! 2 in
        rbind (validate_identifier username) (\<lambda>_.
          let password =
            (if 6 \<le> length tokens \<and> to_uppercase (tokens ! 3) = ''WITH'' \<and> to_uppercase (tokens ! 4) = ''PASSWORD''
             then Some (trim_char quote (tokens ! 5)) else None)
          in Inr (CreateUser username password)))"

definition parse_create_schema :: "string \<Rightarrow> statement res" where
  "parse_create_schema sql =
     rbind (str_from sql 13) (\<lambda>tail.
     rbind (validate_identifier (trim tail)) (\<lambda>_. Inr (CreateSchema (trim tail))))"

definition parse_create_table :: "string \<Rightarrow> statement res" where
  "parse_create_table sql =
     (let parts = splitn 3 (CHR '' '') sql in
      if length parts < 3 then Inl (Message ''Syntax Error: Invalid CREATE TABLE syntax'')
      else let table_and_cols = parts ! 2 in
        case find_char (CHR ''('') table_and_cols of
          None \<Rightarrow> Inl (Message ''Syntax Error: Missing column definitions'')
        | Some paren_idx \<Rightarrow>
            rbind (str_to table_and_cols paren_idx) (\<lambda>t.
            let end_paren = (case rfind_char (CHR '')'') table_and_cols of Some i \<Rightarrow> i | None \<Rightarrow> length table_and_cols) in
            rbind (str_slice table_and_cols (paren_idx + 1) end_paren) (\<lambda>cols_str.
            rbind (validate_identifier (trim t)) (\<lambda>_.
              let cols = map trim (split_char (CHR '','') cols_str) in
              rbind (validate_all (map first_word cols)) (\<lambda>_. Inr (CreateTable (trim t) cols))))))"

definition parse_create_index :: "string \<Rightarrow> statement res" where
  "parse_create_index sql =
     rbind (ok_or (find_str '' ON '' (to_uppercase sql)) ''Syntax Error: Missing ON keyword in CREATE INDEX'') (\<lambda>on_idx.
     rbind (str_slice sql 12 on_idx) (\<lambda>index_name.
     rbind (str_from sql (on_idx + 4)) (\<lambda>tail.
       let rest = trim tail in
       rbind (ok_or (find_char (CHR ''('') rest) (''Syntax Error: Missing '' @ quoted ''('' @ '' in CREATE INDEX'')) (\<lambda>paren_idx.
       rbind (ok_or (rfind_char (CHR '')'') rest) (''Syntax Error: Missing '' @ quoted '')'' @ '' in CREATE INDEX'')) (\<lambda>end_paren.
       rbind (str_to rest paren_idx) (\<lambda>t.
       rbind (str_slice rest (paren_idx + 1) end_paren) (\<lambda>cols_raw.
         let cols = map trim (split_char (CHR '','') (trim cols_raw)) in
         rbind (validate_identifier (trim t)) (\<lambda>_.
         rbind (validate_all cols) (\<lambda>_. Inr (CreateIndex (trim index_name) (trim t) cols))))))))))"

text \<open>
  \<open>split_values_respecting_quotes\<close>: commas inside single quotes do not separate, two quotes
  inside a quoted part stand for one.
\<close>

fun split_values_loop :: "string \<Rightarrow> bool \<Rightarrow> string \<Rightarrow> string list \<Rightarrow> string list res" where
  "split_values_loop [] in_quotes current vals =
     (if in_quotes then Inl (Message ''Syntax Error: Unterminated string literal'')
      else Inr (vals @ [trim current]))"
| "split_values_loop (ch # cs) in_quotes current vals =
     (if in_quotes then
        if ch = quote then
          (case cs of
             d # ds \<Rightarrow> if d = quote then split_values_loop ds True (current @ [quote]) vals
                       else split_values_loop cs False current vals
           | [] \<Rightarrow> split_values_loop cs False current vals)
        else split_values_loop cs True (current @ [ch]) vals
      else if ch = quote then split_values_loop cs True current vals
      else if ch = CHR '','' then split_values_loop cs False [] (vals @ [trim current])
      else split_values_loop cs False (current @ [ch]) vals)"

definition split_values_respecting_quotes :: "string \<Rightarrow> string list res" where
  "split_values_respecting_quotes input = split_values_loop input False [] []"

text \<open>The tuples of an INSERT: what stands between an opening and the next closing parenthesis.\<close>

fun tuples_loop :: "string \<Rightarrow> bool \<Rightarrow> string \<Rightarrow> row list \<Rightarrow> row list res" where
  "tuples_loop [] in_parens current_vals values_list = Inr values_list"
| "tuples_loop (c # cs) in_parens current_vals values_list =
     (if c = CHR ''('' then tuples_loop cs True [] values_list
      else if c = CHR '')'' \<and> in_parens
      then rbind (split_values_respecting_quotes current_vals) (\<lambda>parsed_vals.
        tuples_loop cs False current_vals (values_list @ [parsed_vals]))
      else if in_parens then tuples_loop cs True (current_vals @ [c]) values_list
      else tuples_loop cs False current_vals values_list)"

definition parse_insert :: "string \<Rightarrow> statement res" where
  "parse_insert sql =
     rbind (ok_or (find_str ''VALUES'' (to_uppercase sql)) ''Syntax Error: Missing VALUES keyword'') (\<lambda>values_idx.
     rbind (str_slice sql 11 values_idx) (\<lambda>table_name_part.
     rbind (str_from sql (values_idx + 6)) (\<lambda>values_part.
     rbind (tuples_loop (trim values_part) False [] []) (\<lambda>values_list.
       if values_list = []
       then Inl (Message ''Syntax Error: VALUES must contain at least one tuple enclosed in parentheses'')
       else Inr (Insert (trim table_name_part) values_list)))))"

definition parse_assignment :: "string \<Rightarrow> (string \<times> string) res" where
  "parse_assignment expr =
     rbind (ok_or (find_char (CHR ''='') expr) (''Syntax Error: Expected '' @ quoted ''='' @ '' in expression '' @ quoted expr)) (\<lambda>eq_idx.
     rbind (str_to expr eq_idx) (\<lambda>col.
     rbind (str_from expr (eq_idx + 1)) (\<lambda>v. Inr (trim col, trim_char quote (trim v)))))"

definition parse_where_equality :: "string \<Rightarrow> (string \<times> string) res" where
  "parse_where_equality cond =
     (case find_str '' IN '' (to_uppercase cond) of
        Some in_idx \<Rightarrow> rbind (str_to cond in_idx) (\<lambda>col. rbind (str_from cond in_idx) (\<lambda>v. Inr (trim col, trim v)))
      | None \<Rightarrow> parse_assignment cond)"

definition extract_column_name :: "string \<Rightarrow> string res" where
  "extract_column_name full =
     (case find_char (CHR ''.'') full of
        Some dot_idx \<Rightarrow> rbind (str_from full (dot_idx + 1)) (\<lambda>s. Inr (trim s))
      | None \<Rightarrow> Inr (trim full))"

definition parse_join_condition :: "string \<Rightarrow> (string \<times> string) res" where
  "parse_join_condition cond =
     (let parts = split_char (CHR ''='') cond in
      if length parts \<noteq> 2 then Inl (Message ''Syntax Error: Invalid ON condition in JOIN'')
      else rbind (extract_column_name (trim (parts ! 0))) (\<lambda>left_col.
           rbind (extract_column_name (trim (parts ! 1))) (\<lambda>right_col. Inr (left_col, right_col))))"

text \<open>The first of the operators that occurs, with its position.\<close>

fun find_op :: "string list \<Rightarrow> string \<Rightarrow> (string \<times> nat) option" where
  "find_op [] cond = None"
| "find_op (op # ops) cond =
     (case find_str op cond of Some i \<Rightarrow> Some (op, i) | None \<Rightarrow> find_op ops cond)"

definition parse_having_condition :: "string \<Rightarrow> (string \<times> string) res" where
  "parse_having_condition cond =
     (case find_op [''>='', ''<='', ''>'', ''<'', ''=''] cond of
        Some (op, op_idx) \<Rightarrow> rbind (str_from cond (op_idx + length op)) (\<lambda>v. Inr (op, trim v))
      | None \<Rightarrow> Inl (Message (''Syntax Error: Invalid HAVING condition '' @ quoted cond)))"

definition parse_usize :: "string \<Rightarrow> nat option" where
  "parse_usize s = parse_unsigned (2 ^ 64) s"

definition parse_order_by :: "string \<Rightarrow> nat option \<Rightarrow> nat option \<Rightarrow> (string \<times> bool) option res" where
  "parse_order_by rest order_idx limit_idx =
     (case order_idx of
        None \<Rightarrow> Inr None
      | Some o_idx \<Rightarrow>
          let end_idx = (case limit_idx of Some l \<Rightarrow> if o_idx < l then l else length rest | None \<Rightarrow> length rest) in
          rbind (str_slice rest (o_idx + 8) end_idx) (\<lambda>order_str.
            case split_whitespace (trim order_str) of
              [] \<Rightarrow> Inr None
            | col # dirs \<Rightarrow> Inr (Some (col, case dirs of dir # _ \<Rightarrow> eq_ignore_case dir ''DESC'' | [] \<Rightarrow> False))))"

definition parse_limit :: "string \<Rightarrow> nat option \<Rightarrow> (nat \<times> nat) option res" where
  "parse_limit rest limit_idx =
     (case limit_idx of
        None \<Rightarrow> Inr None
      | Some l_idx \<Rightarrow>
          rbind (str_from rest (l_idx + 5)) (\<lambda>tail.
            let limit_str = trim tail in
            rbind (case find_str ''OFFSET'' (to_uppercase limit_str) of
                Some off_idx \<Rightarrow> rbind (str_to limit_str off_idx) (\<lambda>l_part.
                  rbind (str_from limit_str (off_idx + 6)) (\<lambda>o_part. Inr (trim l_part, Some (trim o_part))))
              | None \<Rightarrow> Inr (limit_str, None)) (\<lambda>(limit_val_str, offset_val_str).
            case parse_usize limit_val_str of
              None \<Rightarrow> Inr None
            | Some limit_num \<Rightarrow>
                Inr (Some (limit_num, case Option.bind offset_val_str parse_usize of Some n \<Rightarrow> n | None \<Rightarrow> 0)))))"

definition parse_order_by_and_limit ::
    "string \<Rightarrow> (string \<times> (string \<times> bool) option \<times> (nat \<times> nat) option) res" where
  "parse_order_by_and_limit rest =
     (let upper = to_uppercase rest;
          limit_idx = find_str ''LIMIT'' upper;
          order_idx = find_str ''ORDER BY'' upper;
          first_clause_idx = (case (order_idx, limit_idx) of
              (Some o', Some l) \<Rightarrow> Some (min o' l) | (Some o', None) \<Rightarrow> Some o'
            | (None, Some l) \<Rightarrow> Some l | (None, None) \<Rightarrow> None)
      in rbind (case first_clause_idx of Some idx \<Rightarrow> rbind (str_to rest idx) (\<lambda>s. Inr (trim s)) | None \<Rightarrow> Inr rest) (\<lambda>main_part.
         rbind (parse_order_by rest order_idx limit_idx) (\<lambda>order_by.
         rbind (parse_limit rest limit_idx) (\<lambda>limit_offset. Inr (main_part, order_by, limit_offset)))))"

text \<open>The parts of \<open>parse_select\<close>, one per form of query.\<close>

definition parse_select_join :: "string \<Rightarrow> statement res" where
  "parse_select_join rest =
     (let upper_rest = to_uppercase rest;
          is_left_join = contains_str ''LEFT JOIN'' upper_rest;
          join_kw = (if is_left_join then ''LEFT JOIN'' else ''JOIN'')
      in rbind (unwrap (find_str join_kw upper_rest)) (\<lambda>join_idx.
         rbind (str_to rest join_idx) (\<lambda>left_table.
         rbind (ok_or (find_str '' ON '' upper_rest) ''Syntax Error: Missing ON in JOIN clause'') (\<lambda>on_idx.
         rbind (str_slice rest (join_idx + length join_kw) on_idx) (\<lambda>right_table.
         rbind (str_from rest (on_idx + 4)) (\<lambda>on_cond.
         rbind (parse_join_condition (trim on_cond)) (\<lambda>(left_col, right_col).
           Inr (SelectJoin (trim left_table) (trim right_table) left_col right_col is_left_join))))))))"

text \<open>A table name and an optional WHERE behind it.\<close>

definition parse_table_where :: "string \<Rightarrow> (string \<times> (string \<times> string) option) res" where
  "parse_table_where s =
     (case find_str ''WHERE'' (to_uppercase s) of
        Some w_idx \<Rightarrow>
          rbind (str_to s w_idx) (\<lambda>tname.
          rbind (str_from s (w_idx + 5)) (\<lambda>cond.
          rbind (parse_where_equality (trim cond)) (\<lambda>wc. Inr (trim tname, Some wc))))
      | None \<Rightarrow> Inr (s, None))"

definition parse_select_group :: "string \<Rightarrow> string \<Rightarrow> statement res" where
  "parse_select_group target rest =
     rbind (unwrap (find_str ''GROUP BY'' (to_uppercase rest))) (\<lambda>gb_idx.
     rbind (str_to rest gb_idx) (\<lambda>before_gb.
     rbind (str_from rest (gb_idx + 8)) (\<lambda>after.
       let after_gb = trim after in
       rbind (case find_str ''HAVING'' (to_uppercase after_gb) of
           Some having_idx \<Rightarrow>
             rbind (str_to after_gb having_idx) (\<lambda>gcol.
             rbind (str_from after_gb (having_idx + 6)) (\<lambda>having_cond.
             rbind (parse_having_condition (trim having_cond)) (\<lambda>h_parsed. Inr (trim gcol, Some h_parsed))))
         | None \<Rightarrow> Inr (after_gb, None)) (\<lambda>(group_col, having_clause).
       let target_parts = map trim (split_char (CHR '','') target) in
       if length target_parts \<noteq> 2
       then Inl (Message (''Syntax Error: GROUP BY query expects '' @ quoted ''group_col, FUNC(col)''))
       else let agg_part = to_uppercase (target_parts ! 1) in
         rbind (ok_or (find_char (CHR ''('') agg_part) ''Invalid agg func in GROUP BY'') (\<lambda>func_end.
         rbind (str_to agg_part func_end) (\<lambda>func.
         let col_end = (case rfind_char (CHR '')'') agg_part of Some i \<Rightarrow> i | None \<Rightarrow> length agg_part) in
         rbind (str_slice (target_parts ! 1) (func_end + 1) col_end) (\<lambda>agg_col.
         rbind (parse_table_where (trim before_gb)) (\<lambda>(tname, where_clause).
           Inr (SelectGroupAggregate group_col func (trim agg_col) tname where_clause having_clause)))))))))"

definition parse_over_clause :: "string \<Rightarrow> (string \<times> string) res" where
  "parse_over_clause over_clause =
     (case (find_str ''PARTITION BY '' over_clause, find_str ''ORDER BY '' over_clause) of
        (Some part_idx, Some ord_idx) \<Rightarrow>
          rbind (str_slice over_clause (part_idx + 13) ord_idx) (\<lambda>p.
          rbind (str_from over_clause (ord_idx + 9)) (\<lambda>ord. Inr (trim p, trim ord)))
      | (Some part_idx, None) \<Rightarrow> rbind (str_from over_clause (part_idx + 13)) (\<lambda>p. Inr (trim p, []))
      | (None, Some ord_idx) \<Rightarrow> rbind (str_from over_clause (ord_idx + 9)) (\<lambda>ord. Inr ([], trim ord))
      | (None, None) \<Rightarrow> Inr ([], []))"

definition parse_select_window :: "string \<Rightarrow> string \<Rightarrow> statement res" where
  "parse_select_window upper_target rest =
     rbind (unwrap (find_str ''OVER'' upper_target)) (\<lambda>over_idx.
     rbind (str_from upper_target over_idx) (\<lambda>over.
     rbind (unwrap (find_char (CHR ''('') over)) (\<lambda>p.
       let paren_start = p + over_idx in
       rbind (str_from upper_target paren_start) (\<lambda>inner.
       rbind (unwrap (rfind_char (CHR '')'') inner)) (\<lambda>q.
         let paren_end = q + paren_start in
         rbind (str_slice upper_target (paren_start + 1) paren_end) (\<lambda>over_clause.
         rbind (parse_over_clause (trim over_clause)) (\<lambda>(part_by, ord_by).
           Inr (SelectWindow (trim rest) part_by ord_by))))))))"

definition parse_select_aggregate :: "string \<Rightarrow> string \<Rightarrow> statement res" where
  "parse_select_aggregate target rest =
     rbind (unwrap (find_char (CHR ''('') target)) (\<lambda>func_end.
     rbind (str_to target func_end) (\<lambda>func.
     let col_end = (case rfind_char (CHR '')'') target of Some i \<Rightarrow> i | None \<Rightarrow> length target) in
     rbind (str_slice target (func_end + 1) col_end) (\<lambda>col.
     rbind (parse_table_where rest) (\<lambda>(tname, where_clause).
       Inr (SelectAggregate (to_uppercase func) (trim col) tname where_clause)))))"

definition parse_select_plain :: "(string \<Rightarrow> statement res) \<Rightarrow> string \<Rightarrow> statement res" where
  "parse_select_plain parse_rec rest =
     rbind (parse_order_by_and_limit rest) (\<lambda>(table_and_where, order_by, limit_offset).
     case find_str ''WHERE'' (to_uppercase table_and_where) of
       None \<Rightarrow> Inr (Select table_and_where None order_by limit_offset)
     | Some where_idx \<Rightarrow>
         rbind (str_to table_and_where where_idx) (\<lambda>tname.
         rbind (str_from table_and_where (where_idx + 5)) (\<lambda>c.
           let cond = trim c in
           case find_op [''>='', ''<='', ''>'', ''<''] cond of
             Some (op, op_idx) \<Rightarrow>
               rbind (str_to cond op_idx) (\<lambda>col.
               rbind (str_from cond (op_idx + length op)) (\<lambda>v.
                 Inr (SelectRange (trim tname) (trim col) op (trim_char quote (trim v)))))
           | None \<Rightarrow>
               rbind (parse_where_equality cond) (\<lambda>wc.
                 let upper_val = to_uppercase (snd wc) in
                 if starts_with ''IN (SELECT'' upper_val \<and> ends_with '')'' upper_val
                 then rbind (str_slice (snd wc) 4 (length (snd wc) - 1)) (\<lambda>inner.
                      rbind (parse_rec (trim inner)) (\<lambda>sub. Inr (SelectInSubquery (trim tname) (fst wc) sub)))
                 else Inr (Select (trim tname) (Some wc) order_by limit_offset)))))"

definition parse_select :: "(string \<Rightarrow> statement res) \<Rightarrow> string \<Rightarrow> statement res" where
  "parse_select parse_rec sql =
     rbind (ok_or (find_str ''FROM'' (to_uppercase sql)) ''Syntax Error: Missing FROM keyword'') (\<lambda>from_idx.
     rbind (str_slice sql 6 from_idx) (\<lambda>t.
     rbind (str_from sql (from_idx + 4)) (\<lambda>r.
       let target = trim t; rest = trim r; upper_rest = to_uppercase rest; upper_target = to_uppercase target in
       if contains_str '' JOIN '' upper_rest then parse_select_join rest
       else if contains_str ''GROUP BY'' upper_rest then parse_select_group target rest
       else if starts_with ''ROW_NUMBER() OVER'' upper_target then parse_select_window upper_target rest
       else if starts_with ''COUNT('' upper_target \<or> starts_with ''SUM('' upper_target \<or> starts_with ''AVG('' upper_target
       then parse_select_aggregate target rest
       else parse_select_plain parse_rec rest)))"

definition parse_update :: "string \<Rightarrow> statement res" where
  "parse_update sql =
     (let upper_sql = to_uppercase sql in
      rbind (ok_or (find_str ''SET'' upper_sql) ''Syntax Error: Missing SET keyword'') (\<lambda>set_idx.
      rbind (case find_str ''WHERE'' upper_sql of
          Some where_idx \<Rightarrow>
            rbind (str_slice sql 6 set_idx) (\<lambda>tname.
            rbind (str_slice sql (set_idx + 3) where_idx) (\<lambda>sexpr.
            rbind (str_from sql (where_idx + 5)) (\<lambda>cond.
            rbind (parse_where_equality (trim cond)) (\<lambda>wc. Inr (trim tname, trim sexpr, Some wc)))))
        | None \<Rightarrow>
            rbind (str_slice sql 6 set_idx) (\<lambda>tname.
            rbind (str_from sql (set_idx + 3)) (\<lambda>sexpr. Inr (trim tname, trim sexpr, None)))) (\<lambda>(tname, set_expr, where_clause).
      rbind (parse_assignment set_expr) (\<lambda>(col, v). Inr (Update tname col v where_clause)))))"

definition parse_delete :: "string \<Rightarrow> statement res" where
  "parse_delete sql =
     (case find_str ''WHERE'' (to_uppercase sql) of
        Some where_idx \<Rightarrow>
          rbind (str_slice sql 11 where_idx) (\<lambda>tname.
          rbind (str_from sql (where_idx + 5)) (\<lambda>cond.
          rbind (parse_where_equality (trim cond)) (\<lambda>wc. Inr (Delete (trim tname) (Some wc)))))
      | None \<Rightarrow> rbind (str_from sql 11) (\<lambda>tname. Inr (Delete (trim tname) None)))"

definition parse_drop_table :: "string \<Rightarrow> statement res" where
  "parse_drop_table sql =
     rbind (str_from sql 10) (\<lambda>t.
     rbind (validate_identifier (trim t)) (\<lambda>_. Inr (DropTable (trim t))))"

text \<open>The closing parenthesis that matches the first character; position 0 if there is none.\<close>

fun matching_paren :: "string \<Rightarrow> nat \<Rightarrow> int \<Rightarrow> nat option" where
  "matching_paren [] i parens = None"
| "matching_paren (c # cs) i parens =
     (let parens' = (if c = CHR ''('' then parens + 1 else if c = CHR '')'' then parens - 1 else parens)
      in if parens' = 0 then Some i else matching_paren cs (Suc i) parens')"

definition parse_with :: "(string \<Rightarrow> statement res) \<Rightarrow> string \<Rightarrow> statement res" where
  "parse_with parse_rec sql =
     (let upper_sql = to_uppercase sql in
      rbind (ok_or (find_str '' AS '' upper_sql) ''Syntax Error: Missing AS in WITH'') (\<lambda>as_idx.
      rbind (str_slice sql 5 as_idx) (\<lambda>cte_name.
      rbind (str_from upper_sql as_idx) (\<lambda>tail.
      rbind (ok_or (find_char (CHR ''('') tail) ''Syntax Error: Missing ( in WITH'') (\<lambda>paren_open.
        let paren_open_idx = as_idx + paren_open in
        rbind (str_from sql paren_open_idx) (\<lambda>body.
        let paren_close_idx = (case matching_paren body 0 0 of Some i \<Rightarrow> paren_open_idx + i | None \<Rightarrow> 0) in
        rbind (str_slice sql (paren_open_idx + 1) paren_close_idx) (\<lambda>cte_query.
        rbind (str_from sql (paren_close_idx + 1)) (\<lambda>main_query.
        rbind (parse_rec (trim cte_query)) (\<lambda>cte.
        rbind (parse_rec (trim main_query)) (\<lambda>main. Inr (With (trim cte_name) cte main)))))))))))"

definition parse_union :: "(string \<Rightarrow> statement res) \<Rightarrow> string \<Rightarrow> nat \<Rightarrow> statement res" where
  "parse_union parse_rec sql union_idx =
     rbind (str_to sql union_idx) (\<lambda>left_sql.
     rbind (str_from sql (union_idx + 7)) (\<lambda>r.
       let right_sql = trim r; all = starts_with ''ALL '' (to_uppercase right_sql) in
       rbind (if all then rbind (str_from right_sql 4) (\<lambda>s. Inr (trim s)) else Inr right_sql) (\<lambda>right_sql'.
       rbind (parse_rec (trim left_sql)) (\<lambda>left.
       rbind (parse_rec right_sql') (\<lambda>right. Inr (Union left right all))))))"

definition parse_body :: "(string \<Rightarrow> statement res) \<Rightarrow> string \<Rightarrow> statement res" where
  "parse_body parse_rec raw =
     (let sql = trim_end_by (\<lambda>c. c = CHR '';'') (trim raw); upper_sql = to_uppercase sql in
      if starts_with ''WITH '' upper_sql then parse_with parse_rec sql
      else case find_str '' UNION '' upper_sql of
        Some union_idx \<Rightarrow> parse_union parse_rec sql union_idx
      | None \<Rightarrow>
          if starts_with ''CREATE USER'' upper_sql then parse_create_user sql
          else if starts_with ''CREATE SCHEMA'' upper_sql then parse_create_schema sql
          else if starts_with ''CREATE INDEX'' upper_sql then parse_create_index sql
          else if starts_with ''CREATE TABLE'' upper_sql then parse_create_table sql
          else if starts_with ''INSERT INTO'' upper_sql then parse_insert sql
          else if starts_with ''SELECT'' upper_sql then parse_select parse_rec sql
          else if starts_with ''UPDATE'' upper_sql then parse_update sql
          else if starts_with ''DELETE FROM'' upper_sql then parse_delete sql
          else if starts_with ''ALTER TABLE'' upper_sql then parse_alter_table sql
          else if starts_with ''DROP TABLE'' upper_sql then parse_drop_table sql
          else if upper_sql = ''SHOW TABLES'' then Inr ShowTables
          else if upper_sql = ''SHOW SCHEMAS'' then Inr ShowSchemas
          else if upper_sql = ''BEGIN'' then Inr Begin
          else if upper_sql = ''COMMIT'' then Inr Commit
          else if upper_sql = ''ROLLBACK'' then Inr Rollback
          else Inl (Message ''Syntax Error: Unrecognized statement''))"

primrec parse_upto :: "nat \<Rightarrow> string \<Rightarrow> statement res" where
  "parse_upto 0 sql = Inl Diverges"
| "parse_upto (Suc n) sql = parse_body (parse_upto n) sql"

definition parse :: "string \<Rightarrow> statement res" where
  "parse sql = parse_upto (Suc (length sql)) sql"

section \<open>The recursion ends\<close>

text \<open>
  Every recursive call is on a strictly shorter text, so the fuel of \<open>parse_upto\<close> never runs out.
\<close>

lemma rbind_cong: "r = r' \<Longrightarrow> (\<And>x. r' = Inr x \<Longrightarrow> f x = g x) \<Longrightarrow> rbind r f = rbind r' g"
  by (cases r') simp_all

lemma option_cong: "(x = None \<Longrightarrow> a = a') \<Longrightarrow> (\<And>y. x = Some y \<Longrightarrow> b y = b' y) \<Longrightarrow> case_option a b x = case_option a' b' x"
  by (cases x) simp_all

lemma if_both_cong: "(P \<Longrightarrow> a = a') \<Longrightarrow> (\<not> P \<Longrightarrow> b = b') \<Longrightarrow> (if P then a else b) = (if P then a' else b')"
  by simp

lemma prod_cong: "(\<And>a b. x = (a, b) \<Longrightarrow> f a b = g a b) \<Longrightarrow> case_prod f x = case_prod g x"
  by (cases x) simp

lemmas parser_congs = rbind_cong option_cong if_both_cong prod_cong

lemma boundary_le: "char_boundary s i \<Longrightarrow> i \<le> length s"
  by (auto simp: char_boundary_def)

lemma length_str_slice: "str_slice s a b = Inr t \<Longrightarrow> a \<le> b \<and> b \<le> length s \<and> length t = b - a"
  using boundary_le [of s b] by (auto simp: str_slice_def slice_def split: if_splits)

lemma trim_shorter: "length s < n \<Longrightarrow> length (trim s) < n"
  using length_trim_by [of white_space s] by simp

lemma parse_assignment_length: "parse_assignment cond = Inr wc \<Longrightarrow> length (snd wc) \<le> length cond"
proof -
  assume "parse_assignment cond = Inr wc"
  then obtain i v where "str_from cond (i + 1) = Inr v" "snd wc = trim_char quote (trim v)"
    by (auto simp: parse_assignment_def rbind_eq_Inr)
  then show ?thesis
    using length_str_slice [of cond "i + 1" "length cond" v] length_trim_by [of white_space v]
      length_trim_by [of "\<lambda>d. d = quote" "trim v"] by simp
qed

lemma parse_where_length: "parse_where_equality cond = Inr wc \<Longrightarrow> length (snd wc) \<le> length cond"
proof (cases "find_str '' IN '' (to_uppercase cond)")
  case (Some i)
  assume "parse_where_equality cond = Inr wc"
  then obtain v where "str_from cond i = Inr v" "snd wc = trim v"
    using Some by (auto simp: parse_where_equality_def rbind_eq_Inr)
  then show ?thesis
    using length_str_slice [of cond i "length cond" v] length_trim_by [of white_space v] by simp
qed (simp add: parse_where_equality_def parse_assignment_length)

lemma parse_order_length: "parse_order_by_and_limit rest = Inr (main_part, ord, lim) \<Longrightarrow> length main_part \<le> length rest"
  by (auto simp: parse_order_by_and_limit_def Let_def rbind_eq_Inr split: option.splits
      dest!: length_str_slice intro: order_trans [OF length_trim_by])

lemma subquery_shorter:
  assumes "parse_order_by_and_limit rest = Inr mp" "mp = (tw, p)" "str_from tw (i + 5) = Inr c"
    "parse_where_equality (trim c) = Inr wc" "str_slice (snd wc) 4 (length (snd wc) - 1) = Inr inner"
  shows "length (trim inner) < length rest"
proof (rule trim_shorter)
  have "length tw \<le> length rest"
    using parse_order_length [of rest tw "fst p" "snd p"] assms(1,2) by simp
  then show "length inner < length rest"
    using length_str_slice [OF assms(3)] parse_where_length [OF assms(4)] length_str_slice [OF assms(5)]
      length_trim_by [of white_space c] by linarith
qed

lemma parse_plain_cong:
  assumes "\<And>s. length s < length rest \<Longrightarrow> f s = g s"
  shows "parse_select_plain f rest = parse_select_plain g rest"
  unfolding parse_select_plain_def Let_def
  by (intro parser_congs refl assms) (rule subquery_shorter)

lemma parse_select_cong:
  assumes "\<And>s. length s < length sql \<Longrightarrow> f s = g s"
  shows "parse_select f sql = parse_select g sql"
  unfolding parse_select_def Let_def
proof (intro parser_congs refl parse_plain_cong assms)
  fix i t r s
  assume "str_from sql (i + 4) = Inr r" "length s < length (trim r)"
  then show "length s < length sql"
    using length_str_slice [of sql "i + 4" "length sql" r] length_trim_by [of white_space r] by simp
qed

lemma slice_shorter:
  assumes "str_slice sql a b = Inr t" "0 < a \<or> b < length sql"
  shows "length t < length sql"
  using length_str_slice [OF assms(1)] assms(2) by linarith

lemma parse_with_cong:
  assumes "\<And>s. length s < length sql \<Longrightarrow> f s = g s"
  shows "parse_with f sql = parse_with g sql"
  unfolding parse_with_def Let_def
  by (intro parser_congs refl assms) (rule trim_shorter, erule slice_shorter, simp)+

text \<open>The two sides of a \<open>UNION\<close> are shorter than the text.\<close>

lemma union_sides:
  assumes "i < length sql"
  shows "str_to sql i = Inr l \<Longrightarrow> length (trim l) < length sql"
    and "str_from sql (i + 7) = Inr r \<Longrightarrow> length (trim r) < length sql"
    and "str_from sql (i + 7) = Inr r \<Longrightarrow> str_from (trim r) 4 = Inr s \<Longrightarrow> length (trim s) < length sql"
proof -
  show "length (trim l) < length sql" if "str_to sql i = Inr l"
    using that assms by (intro trim_shorter) (rule slice_shorter, auto)
  show r: "length (trim r) < length sql" if "str_from sql (i + 7) = Inr r"
    using that by (intro trim_shorter) (rule slice_shorter, auto)
  show "length (trim s) < length sql" if "str_from sql (i + 7) = Inr r" "str_from (trim r) 4 = Inr s"
    using length_str_slice [OF that(2)] r [OF that(1)] by (intro trim_shorter) simp
qed

lemma parse_union_cong:
  assumes "\<And>s. length s < length sql \<Longrightarrow> f s = g s" "i < length sql"
  shows "parse_union f sql i = parse_union g sql i"
  unfolding parse_union_def Let_def
  by (intro parser_congs refl assms(1))
    (auto simp: rbind_eq_Inr union_sides [OF assms(2)] split: if_splits)

lemma union_shorter: "find_str '' UNION '' (to_uppercase s) = Some i \<Longrightarrow> i < length s"
  by (drule find_str_Some) simp

lemma parse_body_cong:
  assumes "\<And>s. length s < length raw \<Longrightarrow> f s = g s"
  shows "parse_body f raw = parse_body g raw"
proof -
  let ?sql = "trim_end_by (\<lambda>c. c = CHR '';'') (trim raw)"
  have "length ?sql \<le> length raw"
    using length_trim_end_by [of "\<lambda>c. c = CHR '';''" "trim raw"] length_trim_by [of white_space raw] by simp
  then have "\<And>s. length s < length ?sql \<Longrightarrow> f s = g s"
    using assms by simp
  note congs = parse_with_cong [OF this] parse_select_cong [OF this] parse_union_cong [OF this]
  show ?thesis
    unfolding parse_body_def Let_def
    by (intro if_both_cong option_cong refl congs) (assumption | erule union_shorter)+
qed

lemma parse_fuel: "length sql < n \<Longrightarrow> parse_upto n sql = parse sql"
proof -
  have "parse_upto m sql = parse_upto n sql" if "length sql < n" "length sql < m" for m
    using that
  proof (induction n arbitrary: m sql)
    case (Suc n)
    then obtain m' where m: "m = Suc m'"
      by (cases m) simp_all
    show ?case
      unfolding m parse_upto.simps
    proof (rule parse_body_cong)
      fix s :: string
      assume "length s < length sql"
      then show "parse_upto m' s = parse_upto n s"
        using Suc.prems unfolding m by (intro Suc.IH) linarith+
    qed
  qed simp
  then show "length sql < n \<Longrightarrow> parse_upto n sql = parse sql"
    by (metis lessI parse_def)
qed

lemma parse_unfold: "parse sql = parse_body parse sql"
proof -
  have "parse sql = parse_body (parse_upto (length sql)) sql"
    by (simp add: parse_def)
  also have "\<dots> = parse_body parse sql"
    by (rule parse_body_cong) (rule parse_fuel)
  finally show ?thesis .
qed

section \<open>Every parser settles\<close>

definition settles :: "'a res \<Rightarrow> bool" where
  "settles r \<longleftrightarrow> r \<noteq> Inl Diverges"

named_theorems settle_intros "results that are not an endless run"

lemma settles_basic [settle_intros]:
  "settles (Inr x)" "settles (Inl (Message s))" "settles (Inl Panic)" "settles (ok_or q s)" "settles (unwrap q)"
  "settles (str_slice s a b)"
  by (auto simp: settles_def ok_or_def unwrap_def str_slice_def split: option.splits)

lemma settles_rbind [settle_intros]: "settles r \<Longrightarrow> (\<And>x. r = Inr x \<Longrightarrow> settles (f x)) \<Longrightarrow> settles (rbind r f)"
  by (cases r) (auto simp: settles_def)

lemma settles_if [settle_intros]: "(P \<Longrightarrow> settles a) \<Longrightarrow> (\<not> P \<Longrightarrow> settles b) \<Longrightarrow> settles (if P then a else b)"
  by simp

lemma settles_cases [settle_intros]:
  "(x = None \<Longrightarrow> settles a) \<Longrightarrow> (\<And>y. x = Some y \<Longrightarrow> settles (b y)) \<Longrightarrow> settles (case_option a b x)"
  "(\<And>u v. z = (u, v) \<Longrightarrow> settles (p u v)) \<Longrightarrow> settles (case_prod p z)"
  "(xs = [] \<Longrightarrow> settles c) \<Longrightarrow> (\<And>y ys. xs = y # ys \<Longrightarrow> settles (d y ys)) \<Longrightarrow> settles (case_list c d xs)"
  by (cases x, simp_all) (cases z, simp, cases xs, simp_all)

lemma settles_validate [settle_intros]: "settles (validate_identifier n)" "settles (validate_all ns)"
proof -
  show 1: "settles (validate_identifier n)" for n
    unfolding validate_identifier_def Let_def by (intro settle_intros)
  show "settles (validate_all ns)"
    by (induction ns) (auto intro!: settle_intros 1)
qed

lemma settles_values: "settles (split_values_loop cs q cur vals)"
proof (induction cs q cur vals rule: split_values_loop.induct)
  case (2 ch cs in_quotes current vals)
  show ?case
    by (subst split_values_loop.simps) (intro settle_intros 2; assumption)
qed (simp add: settles_def)

lemma settles_tuples [settle_intros]: "settles (tuples_loop cs b cv vl)"
proof (induction cs b cv vl rule: tuples_loop.induct)
  case (2 c cs in_parens current_vals values_list)
  show ?case
    unfolding tuples_loop.simps split_values_respecting_quotes_def
    by (intro settle_intros settles_values 2) assumption+
qed (simp add: settle_intros)

lemma settles_clauses [settle_intros]:
  "settles (parse_assignment s)" "settles (parse_where_equality s)" "settles (extract_column_name s)"
  "settles (parse_having_condition s)" "settles (parse_order_by s oi li)" "settles (parse_limit s li)"
  "settles (parse_over_clause s)" "settles (parse_table_where s)"
proof -
  show 1: "settles (parse_assignment s)" for s
    unfolding parse_assignment_def by (intro settle_intros)
  show 2: "settles (parse_where_equality s)" for s
    unfolding parse_where_equality_def by (intro settle_intros 1)
  show "settles (parse_table_where s)"
    unfolding parse_table_where_def by (intro settle_intros 2)
  show "settles (extract_column_name s)" "settles (parse_having_condition s)" "settles (parse_order_by s oi li)"
      "settles (parse_limit s li)" "settles (parse_over_clause s)"
    unfolding extract_column_name_def parse_having_condition_def parse_order_by_def parse_limit_def
      parse_over_clause_def Let_def by (intro settle_intros)+
qed

lemma settles_statements [settle_intros]:
  "settles (parse_create_user s)" "settles (parse_create_schema s)" "settles (parse_create_index s)" "settles (parse_create_table s)"
  "settles (parse_insert s)" "settles (parse_update s)" "settles (parse_delete s)" "settles (parse_alter_table s)" "settles (parse_drop_table s)"
  "settles (parse_join_condition s)" "settles (parse_order_by_and_limit s)"
  unfolding parse_create_user_def parse_create_schema_def parse_create_index_def parse_create_table_def parse_insert_def
    parse_update_def parse_delete_def parse_alter_table_def parse_drop_table_def parse_join_condition_def parse_order_by_and_limit_def Let_def
  by (intro settle_intros)+

lemma settles_selects [settle_intros]:
  "settles (parse_select_join s)" "settles (parse_select_group t s)" "settles (parse_select_window t s)" "settles (parse_select_aggregate t s)"
  unfolding parse_select_join_def parse_select_group_def parse_select_window_def parse_select_aggregate_def Let_def
  by (intro settle_intros)+

lemma settles_plain:
  assumes "\<And>s. length s < length rest \<Longrightarrow> settles (f s)"
  shows "settles (parse_select_plain f rest)"
  unfolding parse_select_plain_def Let_def
  by (intro settle_intros assms) (rule subquery_shorter)

lemma settles_select:
  assumes "\<And>s. length s < length sql \<Longrightarrow> settles (f s)"
  shows "settles (parse_select f sql)"
  unfolding parse_select_def Let_def
proof (intro settle_intros settles_plain assms)
  fix i t r s
  assume "str_from sql (i + 4) = Inr r" "length s < length (trim r)"
  then show "length s < length sql"
    using length_str_slice [of sql "i + 4" "length sql" r] length_trim_by [of white_space r] by simp
qed

lemma settles_with:
  assumes "\<And>s. length s < length sql \<Longrightarrow> settles (f s)"
  shows "settles (parse_with f sql)"
  unfolding parse_with_def Let_def
  by (intro settle_intros assms) (rule trim_shorter, erule slice_shorter, simp)+

lemma settles_union:
  assumes "\<And>s. length s < length sql \<Longrightarrow> settles (f s)" "i < length sql"
  shows "settles (parse_union f sql i)"
  unfolding parse_union_def Let_def
  by (intro settle_intros assms(1))
    (auto simp: rbind_eq_Inr union_sides [OF assms(2)] split: if_splits)

lemma settles_body:
  assumes "\<And>s. length s < length raw \<Longrightarrow> settles (f s)"
  shows "settles (parse_body f raw)"
proof -
  let ?sql = "trim_end_by (\<lambda>c. c = CHR '';'') (trim raw)"
  have "length ?sql \<le> length raw"
    using length_trim_end_by [of "\<lambda>c. c = CHR '';''" "trim raw"] length_trim_by [of white_space raw] by simp
  then have shorter: "\<And>s. length s < length ?sql \<Longrightarrow> settles (f s)"
    using assms by simp
  show ?thesis
    unfolding parse_body_def Let_def
    by (intro settle_intros settles_with settles_union settles_select shorter) (assumption | erule union_shorter)+
qed

lemma parse_settles: "settles (parse sql)"
proof (induction "length sql" arbitrary: sql rule: less_induct)
  case less
  then show ?case
    by (subst parse_unfold) (rule settles_body)
qed

text \<open>
  (C12) Parsing ends on every text: the parser satisfies the recursion of the source without any
  bound (its nested calls, for \<open>WITH\<close>, \<open>UNION\<close> and subqueries, are on shorter texts), and every text
  gives a statement, an error message or a panic, never an endless run.
\<close>

theorem parse_terminates: "parse sql = parse_body parse sql \<and> parse sql \<noteq> Inl Diverges"
  using parse_unfold [of sql] parse_settles [of sql] by (simp add: settles_def)

section \<open>INSERT, printed and parsed\<close>

definition quote_value :: "string \<Rightarrow> string" where
  "quote_value v = quote # concat (map (\<lambda>c. if c = quote then [quote, quote] else [c]) v) @ [quote]"

definition print_tuple :: "row \<Rightarrow> string" where
  "print_tuple r = ''('' @ join '', '' (map quote_value r) @ '')''"

definition print_insert :: "string \<Rightarrow> row list \<Rightarrow> string" where
  "print_insert t rows = ''INSERT INTO '' @ t @ '' VALUES '' @ join '', '' (map print_tuple rows)"

lemma quoted_loop:
  assumes "rest = [] \<or> hd rest \<noteq> quote"
  shows "split_values_loop (concat (map (\<lambda>c. if c = quote then [quote, quote] else [c]) v) @ quote # rest) True cur vals =
    split_values_loop rest False (cur @ v) vals"
proof (induction v arbitrary: cur)
  case Nil
  then show ?case
    using assms by (cases rest) simp_all
next
  case (Cons c v)
  then show ?case by simp
qed

lemma split_quoted:
  assumes "r \<noteq> []" "\<forall>v\<in>set r. trim v = v" "cur = [] \<or> cur = '' ''"
  shows "split_values_loop (join '', '' (map quote_value r)) False cur vals = Inr (vals @ r)"
  using assms
proof (induction r arbitrary: cur vals rule: induct_list012)
  case (2 v)
  have "split_values_loop (quote_value v) False cur vals = split_values_loop [] False (cur @ v) vals"
    using quoted_loop [of "[]" v cur vals] by (simp add: quote_value_def)
  moreover have "trim (cur @ v) = v"
    using 2 by (auto simp: trim_by_Cons)
  ultimately show ?case
    by simp
next
  case (3 v w r)
  let ?rest = "join '', '' (map quote_value (w # r))"
  have "split_values_loop (quote_value v @ '', '' @ ?rest) False cur vals = split_values_loop ('', '' @ ?rest) False (cur @ v) vals"
    using quoted_loop [of "'', '' @ ?rest" v cur vals] by (simp add: quote_value_def quote_def)
  also have "\<dots> = split_values_loop ?rest False '' '' (vals @ [trim (cur @ v)])"
    by (simp add: quote_def)
  also have "trim (cur @ v) = v"
    using 3 by (auto simp: trim_by_Cons)
  also have "split_values_loop ?rest False '' '' (vals @ [v]) = Inr ((vals @ [v]) @ w # r)"
    using 3 by (intro 3) simp_all
  finally show ?case
    by simp
qed simp

definition plain_value :: "string \<Rightarrow> bool" where
  "plain_value v \<longleftrightarrow> trim v = v \<and> CHR ''('' \<notin> set v \<and> CHR '')'' \<notin> set v"

lemma tuple_chars:
  assumes "CHR ''('' \<notin> set s" "CHR '')'' \<notin> set s"
  shows "tuples_loop (s @ '')'' @ rest) True cv vl =
    rbind (split_values_respecting_quotes (cv @ s)) (\<lambda>r. tuples_loop rest False (cv @ s) (vl @ [r]))"
  using assms by (induction s arbitrary: cv) auto

lemma quote_chars: "c \<in> set (quote_value v) \<Longrightarrow> c = quote \<or> c \<in> set v"
  by (auto simp: quote_value_def split: if_splits)

lemma tuple_loop:
  assumes "r \<noteq> []" "\<forall>v\<in>set r. plain_value v"
  shows "\<exists>cv'. tuples_loop (print_tuple r @ rest) False cv vl = tuples_loop rest False cv' (vl @ [r])"
proof -
  let ?s = "join '', '' (map quote_value r)"
  have "c \<notin> set ?s" if c: "c = CHR ''('' \<or> c = CHR '')''" for c
  proof
    assume "c \<in> set ?s"
    then obtain v where "v \<in> set r" "c \<in> set (quote_value v)"
      using c join_chars [of c "'', ''" "map quote_value r"] by auto
    then show False
      using c assms(2) quote_chars [of c v] by (auto simp: plain_value_def quote_def)
  qed
  then have "tuples_loop (?s @ '')'' @ rest) True [] vl =
      rbind (split_values_respecting_quotes ?s) (\<lambda>r. tuples_loop rest False ?s (vl @ [r]))"
    using tuple_chars [of ?s rest "[]" vl] by simp
  moreover have "split_values_respecting_quotes ?s = Inr r"
    using assms split_quoted [of r "[]" "[]"] by (simp add: split_values_respecting_quotes_def plain_value_def)
  ultimately show ?thesis
    by (auto simp: print_tuple_def)
qed

lemma tuples_loop_rows:
  assumes "\<forall>r\<in>set rows. r \<noteq> [] \<and> (\<forall>v\<in>set r. plain_value v)"
  shows "tuples_loop (join '', '' (map print_tuple rows)) False cv vl = Inr (vl @ rows)"
  using assms
proof (induction rows arbitrary: cv vl rule: induct_list012)
  case (2 r)
  then show ?case
    using tuple_loop [of r "[]" cv vl] by auto
next
  case (3 r q rows)
  obtain cv' where "tuples_loop (print_tuple r @ '', '' @ join '', '' (map print_tuple (q # rows))) False cv vl =
      tuples_loop ('', '' @ join '', '' (map print_tuple (q # rows))) False cv' (vl @ [r])"
    using tuple_loop [of r "'', '' @ join '', '' (map print_tuple (q # rows))" cv vl] 3 by auto
  then show ?case
    using 3 by simp
qed simp

lemma upper_print: "to_uppercase (print_insert t rows) =
    ''INSERT'' @ CHR '' '' # ''INTO'' @ CHR '' '' # to_uppercase t @ CHR '' '' # ''VALUES'' @ CHR '' '' # to_uppercase (join '', '' (map print_tuple rows))"
  by (simp add: print_insert_def)

lemma find_values:
  assumes "find_str ''VALUES'' (to_uppercase t) = None"
  shows "find_str ''VALUES'' (to_uppercase (print_insert t rows)) = Some (13 + length t)"
proof -
  have "find_str ''VALUES'' (''VALUES'' @ s) = Some 0" for s
    by simp
  moreover have sep: "find_str ''VALUES'' (a @ CHR '' '' # b) =
      (case find_str ''VALUES'' a of Some i \<Rightarrow> Some i | None \<Rightarrow> map_option (\<lambda>j. j + length a + 1) (find_str ''VALUES'' b))" for a b
    by (rule find_str_sep) simp_all
  ultimately show ?thesis
    unfolding upper_print sep using assms by simp
qed

lemma print_tuple_ends: "print_tuple r \<noteq> []" "hd (print_tuple r) = CHR ''(''" "last (print_tuple r) = CHR '')''"
  by (simp_all add: print_tuple_def)

lemma join_ends:
  assumes "rs \<noteq> []"
  shows "join '', '' (map print_tuple rs) \<noteq> [] \<and> hd (join '', '' (map print_tuple rs)) = CHR ''('' \<and> last (join '', '' (map print_tuple rs)) = CHR '')''"
  using assms by (induction rs rule: induct_list012) (simp_all add: print_tuple_ends)

lemma trim_insert:
  assumes "rows \<noteq> []"
  shows "trim_end_by (\<lambda>c. c = CHR '';'') (trim (print_insert t rows)) = print_insert t rows"
proof -
  have ends: "hd (print_insert t rows) = CHR ''I''" "last (print_insert t rows) = CHR '')''" "print_insert t rows \<noteq> []"
    using join_ends [OF assms] by (simp_all add: print_insert_def)
  have "trim (print_insert t rows) = print_insert t rows"
    by (rule trim_id) (simp add: ends white_space_def)
  moreover have "trim_end_by (\<lambda>c. c = CHR '';'') s = s" if "s \<noteq> []" "last s \<noteq> CHR '';''" for s
    using that by (cases s rule: rev_cases) (simp_all add: trim_end_by_def)
  ultimately show ?thesis
    using ends by simp
qed

lemma insert_parses:
  assumes "trim t = t" and "find_str ''VALUES'' (to_uppercase t) = None"
    and "rows \<noteq> []" and "\<forall>r\<in>set rows. r \<noteq> [] \<and> (\<forall>v\<in>set r. plain_value v)"
    and "find_str '' UNION '' (to_uppercase (print_insert t rows)) = None"
  shows "parse (print_insert t rows) = Inr (Insert t rows)"
proof -
  let ?sql = "print_insert t rows" and ?vals = "join '', '' (map print_tuple rows)"
  have len: "length ?sql = 20 + length t + length ?vals"
    by (simp add: print_insert_def)
  have bounds: "char_boundary ?sql 11" "char_boundary ?sql (13 + length t)" "char_boundary ?sql (13 + length t + 6)" "char_boundary ?sql (length ?sql)"
    unfolding char_boundary_def by (simp_all add: len) (simp_all add: print_insert_def nth_append cont_byte_def)
  have slices: "slice i j s = b" if "s = a @ b @ c" "length a = i" "length a + length b = j" for a b c s :: string and i j
    using that by (auto simp: slice_def)
  have "slice 11 (13 + length t) ?sql = '' '' @ t @ '' ''"
    by (rule slices [of _ "''INSERT INTO''" _ "''VALUES '' @ ?vals"]) (simp_all add: print_insert_def)
  then have name: "str_slice ?sql 11 (13 + length t) = Inr ('' '' @ t @ '' '')"
    using bounds by (simp add: str_slice_def)
  have "slice (13 + length t + 6) (length ?sql) ?sql = '' '' @ ?vals"
    by (rule slices [of _ "''INSERT INTO '' @ t @ '' VALUES''" _ "[]"]) (simp_all add: print_insert_def)
  then have vals: "str_from ?sql (13 + length t + 6) = Inr ('' '' @ ?vals)"
    using bounds len by (simp add: str_slice_def)
  have "trim ('' '' @ t @ '' '') = t"
    using assms(1) trim_by_snoc [of white_space "CHR '' ''" t] by (simp add: trim_by_Cons)
  moreover have "trim ('' '' @ ?vals) = ?vals"
    using join_ends [OF assms(3)] trim_id [of ?vals white_space] by (simp add: trim_by_Cons white_space_def)
  ultimately have "parse_insert ?sql = Inr (Insert t rows)"
    using name vals tuples_loop_rows [OF assms(4), of "[]" "[]"] assms(3)
    by (simp add: parse_insert_def find_values [OF assms(2)] ok_or_def)
  moreover have "starts_with ''INSERT INTO'' (to_uppercase ?sql)" "\<not> starts_with ''WITH '' (to_uppercase ?sql)"
      "\<not> starts_with ''CREATE USER'' (to_uppercase ?sql)" "\<not> starts_with ''CREATE SCHEMA'' (to_uppercase ?sql)"
      "\<not> starts_with ''CREATE INDEX'' (to_uppercase ?sql)" "\<not> starts_with ''CREATE TABLE'' (to_uppercase ?sql)"
    unfolding upper_print by simp_all
  ultimately show ?thesis
    unfolding parse_unfold [of ?sql] parse_body_def trim_insert [OF assms(3)] Let_def assms(5) by (simp only: simp_thms if_True if_False option.case)
qed

text \<open>
  (C11) INSERT statements survive the parser: printing a table name and rows with every value in
  single quotes (quotes inside it doubled) and parsing the text gives the same table and the same
  rows. The values must be trimmed and hold no parenthesis, the table name must not hold the word
  \<open>VALUES\<close>, and the text must not hold the word \<open>UNION\<close> between blanks, which the parser looks for
  before it looks at quotes.
\<close>

theorem insert_round_trip:
  assumes "trim t = t" and "find_str ''VALUES'' (to_uppercase t) = None"
    and "rows \<noteq> []" and "\<forall>r\<in>set rows. r \<noteq> [] \<and> (\<forall>v\<in>set r. plain_value v)"
    and "find_str '' UNION '' (to_uppercase (print_insert t rows)) = None"
  shows "parse (print_insert t rows) = Inr (Insert t rows)"
  using assms by (rule insert_parses)

lemma plain_samples:
  "plain_value ''1''" "plain_value ''it''" "plain_value (''it'' @ [quote] @ ''s'')"
  by (simp_all add: plain_value_def trim_by_def trim_start_by_def trim_end_by_def white_space_def quote_def)

theorem insert_round_trip_witness:
  "parse (print_insert ''pets'' [[''1'', ''it'' @ [quote] @ ''s'']]) = Inr (Insert ''pets'' [[''1'', ''it'' @ [quote] @ ''s'']])"
proof (rule insert_round_trip)
  show "trim ''pets'' = ''pets''"
    by (simp add: trim_by_def trim_start_by_def trim_end_by_def white_space_def)
  show "find_str ''VALUES'' (to_uppercase ''pets'') = None"
    by simp
  show "find_str '' UNION '' (to_uppercase (print_insert ''pets'' [[''1'', ''it'' @ [quote] @ ''s'']])) = None"
    by (simp add: print_insert_def print_tuple_def quote_value_def quote_def)
qed (use plain_samples in auto)

section \<open>An unclosed WITH\<close>

lemma matching_paren_open: "CHR '')'' \<notin> set s \<Longrightarrow> 0 < n \<Longrightarrow> matching_paren s i n = None"
  by (induction s arbitrary: i n) auto

text \<open>
  An unclosed parenthesis after \<open>WITH\<close> is a panic, not a syntax error: when no closing one
  follows, its position stays 0 and the slice of the inner query runs backwards.
\<close>

theorem with_unclosed_panics:
  assumes "CHR '')'' \<notin> set q"
  shows "parse (''WITH c AS ('' @ q) = Inl Panic"
proof -
  define p where "p = ''WITH c AS (''"
  obtain q' where q': "trim_end_by (\<lambda>c. c = CHR '';'') (trim (p @ q)) = p @ q'" "set q' \<subseteq> set q"
  proof
    have "trim (p @ q) = trim_end_by white_space (p @ q)"
      by (simp add: trim_by_def trim_start_by_def p_def white_space_def)
    also have "\<dots> = p @ trim_end_by white_space q"
      by (rule trim_end_append) (simp_all add: p_def white_space_def)
    finally show "trim_end_by (\<lambda>c. c = CHR '';'') (trim (p @ q)) = p @ trim_end_by (\<lambda>c. c = CHR '';'') (trim_end_by white_space q)"
      using trim_end_append [of p "\<lambda>c. c = CHR '';''"] by (simp add: p_def)
    show "set (trim_end_by (\<lambda>c. c = CHR '';'') (trim_end_by white_space q)) \<subseteq> set q"
      by (auto simp: trim_end_by_def dest!: set_dropWhileD)
  qed
  let ?sql = "p @ q'"
  have close: "matching_paren (CHR ''('' # q') 0 0 = None"
    using assms q'(2) matching_paren_open [of q' 1 1] by auto
  have "find_str '' AS '' (to_uppercase ?sql) = Some 6"
    by (simp add: p_def)
  moreover have "char_boundary ?sql 5" "char_boundary ?sql 6" "char_boundary (to_uppercase ?sql) 6" "char_boundary ?sql 10"
    "char_boundary ?sql (length ?sql)" "char_boundary (to_uppercase ?sql) (length ?sql)"
    by (simp_all add: char_boundary_def p_def cont_byte_def)
  ultimately have "parse_with parse ?sql = Inl Panic"
    using close by (simp add: parse_with_def str_slice_def ok_or_def Let_def) (simp add: p_def slice_def find_char_def)
  moreover have "starts_with ''WITH '' (to_uppercase ?sql)"
    by (simp add: p_def)
  ultimately have "parse (p @ q) = Inl Panic"
    unfolding parse_unfold [of "p @ q"] parse_body_def Let_def q'(1) by (simp only: simp_thms if_True)
  then show ?thesis
    by (simp only: p_def)
qed

theorem with_unclosed_panics_witness: "parse (''WITH c AS ('' @ ''SELECT * FROM pets'') = Inl Panic"
  by (rule with_unclosed_panics) simp

section \<open>A simple SELECT\<close>

text \<open>A table name without blanks and without the words the parser looks for.\<close>

definition query_name :: "string \<Rightarrow> bool" where
  "query_name t \<longleftrightarrow> t \<noteq> [] \<and> (\<forall>c\<in>set t. \<not> white_space c) \<and> last t \<noteq> CHR '';'' \<and>
     list_all (\<lambda>w. find_str w (to_uppercase t) = None) [''WHERE'', ''LIMIT'', ''VALUES'']"

lemma upper_blank: "\<forall>c\<in>set t. \<not> white_space c \<Longrightarrow> CHR '' '' \<notin> set (to_uppercase t)"
proof
  assume t: "\<forall>c\<in>set t. \<not> white_space c" and "CHR '' '' \<in> set (to_uppercase t)"
  then obtain c where "c \<in> set t" "ascii_upper c = CHR '' ''"
    by auto
  moreover from this(2) have "c = CHR '' ''"
    by (cases c) (simp split: if_splits)
  ultimately show False
    using t by auto
qed

lemma query_name_trim: "query_name t \<Longrightarrow> trim t = t"
  by (rule trim_id) (simp add: query_name_def)

lemma parse_select_star:
  assumes "query_name t"
  shows "parse (''SELECT * FROM '' @ t) = Inr (Select t None None None)"
proof -
  let ?sql = "''SELECT * FROM '' @ t" and ?u = "to_uppercase t"
  have t: "t \<noteq> []" "\<not> white_space (last t)" "last t \<noteq> CHR '';''" "trim t = t" "CHR '' '' \<notin> set ?u"
    using assms query_name_trim upper_blank [of t] by (auto simp: query_name_def)
  have words: "find_str ''WHERE'' ?u = None" "find_str ''LIMIT'' ?u = None" "find_str ''ORDER BY'' ?u = None"
      "find_str '' JOIN '' ?u = None" "find_str ''GROUP BY'' ?u = None" "find_str '' UNION '' ?u = None"
    using assms find_str_absent [of "CHR '' ''" _ ?u] t(5) by (simp_all add: query_name_def)
  have sql: "trim_end_by (\<lambda>c. c = CHR '';'') (trim ?sql) = ?sql"
  proof -
    have "trim ?sql = ?sql"
      by (rule trim_id) (simp add: t, simp add: white_space_def)
    moreover have "trim_end_by (\<lambda>c. c = CHR '';'') ?sql = ?sql"
      using t by (cases t rule: rev_cases) (simp_all add: trim_end_by_def)
    ultimately show ?thesis
      by simp
  qed
  have union: "find_str '' UNION '' (to_uppercase ?sql) = None"
  proof -
    have "take n ?u \<noteq> ''UNION ''" for n
    proof
      assume *: "take n ?u = ''UNION ''"
      have "CHR '' '' \<in> set (take n ?u)"
        unfolding * by simp
      with t(5) show False
        by (auto dest: in_set_takeD)
    qed
    with words(6) show ?thesis
      by simp
  qed
  have "char_boundary ?sql 6" "char_boundary ?sql 9" "char_boundary ?sql 13" "char_boundary ?sql (length ?sql)"
    by (simp_all add: char_boundary_def cont_byte_def)
  then have slices: "str_slice ?sql 6 9 = Inr '' * ''" "str_from ?sql (9 + 4) = Inr ('' '' @ t)"
    by (simp_all add: str_slice_def) (simp_all add: slice_def)
  have trims: "trim '' * '' = ''*''" "trim ('' '' @ t) = t"
    using t(4) by (simp add: text_eval, simp add: trim_by_Cons)
  have plain: "parse_select_plain parse t = Inr (Select t None None None)"
    by (simp add: parse_select_plain_def parse_order_by_and_limit_def parse_order_by_def parse_limit_def words)
  have "find_str ''FROM'' (to_uppercase ?sql) = Some 9"
    by simp
  then have "parse_select parse ?sql = Inr (Select t None None None)"
    unfolding parse_select_def
    by (simp only: ok_or_def option.case rbind_simps slices Let_def trims contains_str_def words simp_thms if_False)
      (simp add: plain)
  then show ?thesis
    unfolding parse_unfold [of ?sql] parse_body_def sql Let_def union by simp
qed

end
