(* ===== verification/Executor.thy ===== *)
theory Executor
  imports Catalog Parser
begin

text \<open>
  The executor (\<open>src/sql/executor.rs\<close>): one definition per statement, over a store \<open>D\<close> (the
  methods of \<open>Database\<close>), \<open>serde_json\<close> and MD5, which \<open>sql_env\<close> collects. Outside a transaction a
  statement writes to the store at once. Inside one, rows, index entries and the old form of
  a schema go to the write buffer, a sorted map from keys to new values or \<open>None\<close> for a
  removal, and \<open>COMMIT\<close> plays the buffer into the store.

  Key formats: \<open>table:pk\<close> for rows, \<open>__schema__:table\<close>, \<open>__index__:table:index\<close>,
  \<open>__secidx__:table:columns:values\<close>.
\<close>

section \<open>State\<close>

record 's sql_env =
  env_store :: "'s store"
  env_json :: serde_json
  env_md5 :: "string \<Rightarrow> string"

record 's executor =
  ex_db :: 's
  in_transaction :: bool
  current_tx_id :: u64
  write_buffer :: "(bytes \<times> bytes option) list"
  tx_id_counter :: u64

definition on_db :: "('s, 'a) M \<Rightarrow> ('s executor, 'a) M" where
  "on_db m = (\<lambda>ex. case m (ex_db ex) of (r, db) \<Rightarrow> (r, ex\<lparr>ex_db := db\<rparr>))"

abbreviation ex_get :: "'s sql_env \<Rightarrow> string \<Rightarrow> ('s executor, bytes option) M" where
  "ex_get E key \<equiv> on_db (st_get (env_store E) (as_bytes key))"

abbreviation ex_scan :: "'s sql_env \<Rightarrow> string \<Rightarrow> ('s executor, (bytes \<times> bytes) list) M" where
  "ex_scan E pfx \<equiv> on_db (st_scan_prefix (env_store E) (as_bytes pfx))"

definition executor_new :: "'s sql_env \<Rightarrow> u64 \<Rightarrow> 's \<Rightarrow> 's executor" where
  "executor_new E counter db =
     \<lparr>ex_db = snd (init_default_schema (env_store E) (env_json E) db), in_transaction = False, current_tx_id = 0,
      write_buffer = [], tx_id_counter = counter\<rparr>"

text \<open>\<open>if self.in_transaction { self.write_buffer.insert(..) } else { self.db.put(..)? }\<close>, and for a removal.\<close>

definition write_entry :: "'s sql_env \<Rightarrow> bytes \<Rightarrow> bytes \<Rightarrow> ('s executor, unit) M" where
  "write_entry E key v = (\<lambda>ex.
     if in_transaction ex then (Inr (), ex\<lparr>write_buffer := ins_entry key (Some v) (write_buffer ex)\<rparr>)
     else on_db (st_put (env_store E) key v) ex)"

definition remove_entry :: "'s sql_env \<Rightarrow> bytes \<Rightarrow> ('s executor, unit) M" where
  "remove_entry E key = (\<lambda>ex.
     if in_transaction ex then (Inr (), ex\<lparr>write_buffer := ins_entry key None (write_buffer ex)\<rparr>)
     else on_db (st_delete (env_store E) key) ex)"

definition throw_msg :: "string \<Rightarrow> ('s, 'a) M" where
  "throw_msg msg = throw (Message msg)"

definition ok_or_else :: "'a option \<Rightarrow> string \<Rightarrow> ('s, 'a) M" where
  "ok_or_else r msg = of_res (ok_or r msg)"

section \<open>Texts\<close>

definition SEC_IDX_PK_SEP :: char where
  "SEC_IDX_PK_SEP = CHR 31"

definition rule :: string where
  "rule = ''+-----------------+'' @ [newline]"

definition bar :: string where
  "bar = '' | ''"

definition framed :: "string \<Rightarrow> string" where
  "framed s = ''| '' @ s @ '' |''"

text \<open>A result: header line, row lines, footer.\<close>

definition render :: "string \<Rightarrow> string list \<Rightarrow> string \<Rightarrow> string" where
  "render header lns footer =
     rule @ header @ [newline] @ rule @ concat (map (\<lambda>l. l @ [newline]) lns) @ rule @ footer"

definition count_footer :: "string \<Rightarrow> 'a list \<Rightarrow> string" where
  "count_footer what xs = nat_str (length xs) @ '' '' @ what @ '' in set.''"

definition format_table_output :: "string list \<Rightarrow> row list \<Rightarrow> string" where
  "format_table_output headers rows =
     render (framed (join bar headers)) (map (\<lambda>r. framed (join bar r)) rows) (count_footer ''row(s)'' rows)"

definition parse_formatted_table :: "string \<Rightarrow> string \<times> string list" where
  "parse_formatted_table table =
     (let ls = lines table in
      if length ls < 5 then ([], []) else (ls ! 1, take (length ls - 5) (drop 3 ls)))"

definition cells_of :: "string \<Rightarrow> row" where
  "cells_of line = map trim (split_char (CHR ''|'') (trim_char (CHR ''|'') line))"

definition parse_qualified_table_name :: "string \<Rightarrow> string \<times> string" where
  "parse_qualified_table_name raw =
     (case find_char (CHR ''.'') raw of
        Some dot_idx \<Rightarrow> (trim (take dot_idx raw), trim (drop (dot_idx + 1) raw))
      | None \<Rightarrow> (DEFAULT_SCHEMA, trim raw))"

definition parse_default :: "string \<Rightarrow> string \<Rightarrow> string option res" where
  "parse_default raw upper_raw =
     (case find_str ''DEFAULT'' upper_raw of
        None \<Rightarrow> Inr None
      | Some def_idx \<Rightarrow>
          rbind (str_from raw (def_idx + 7)) (\<lambda>r.
            let rest = trim r in
            if starts_with [quote] rest
            then rbind (str_from rest 1) (\<lambda>tail.
              case find_char quote tail of
                Some end_quote \<Rightarrow> rbind (str_slice rest 1 (end_quote + 1)) (\<lambda>d. Inr (Some d))
              | None \<Rightarrow> Inr None)
            else let def_token = first_word rest in Inr (if def_token \<noteq> [] then Some def_token else None)))"

definition parse_column_def :: "string \<Rightarrow> column_def res" where
  "parse_column_def raw =
     (let tokens = split_whitespace raw;
          col_name = (case tokens of [] \<Rightarrow> ''col'' | t # _ \<Rightarrow> t);
          upper_raw = to_uppercase raw;
          is_pk = contains_str ''PRIMARY KEY'' upper_raw;
          unique = (is_pk \<or> contains_str ''UNIQUE'' upper_raw);
          nullable = (\<not> is_pk \<and> \<not> contains_str ''NOT NULL'' upper_raw)
      in rbind (parse_default raw upper_raw) (\<lambda>default_val.
         let dtype =
           (if 1 < length tokens
            then (case data_type_from_str (trim_by (\<lambda>c. c \<in> {CHR '','', CHR ''('', CHR '')''}) (tokens ! 1)) of
                    Inr dt \<Rightarrow> dt | Inl e \<Rightarrow> TText)
            else TText)
         in Inr ((with_unique unique (with_primary_key is_pk (with_nullable nullable (column_new col_name dtype))))
                  \<lparr>default_value := default_val\<rparr>)))"

fun parse_column_defs :: "string list \<Rightarrow> column_def list res" where
  "parse_column_defs [] = Inr []"
| "parse_column_defs (c # cs) = rbind (parse_column_def c) (\<lambda>d. rbind (parse_column_defs cs) (\<lambda>ds. Inr (d # ds)))"

definition extract_col_names :: "string \<Rightarrow> string list" where
  "extract_col_names schema_val =
     map (\<lambda>c. case split_whitespace c of w # _ \<Rightarrow> w | [] \<Rightarrow> trim c) (split_char (CHR '','') schema_val)"

definition column_index :: "string list \<Rightarrow> string \<Rightarrow> nat option" where
  "column_index cols c = position (\<lambda>n. n = c) cols"

definition row_key :: "string \<Rightarrow> string \<Rightarrow> bytes" where
  "row_key t pk = as_bytes (t @ '':'' @ pk)"

definition index_prefix :: "string \<Rightarrow> string" where
  "index_prefix t = ''__index__:'' @ t @ '':''"

definition sec_key :: "string \<Rightarrow> string \<Rightarrow> string \<Rightarrow> string" where
  "sec_key t col v = ''__secidx__:'' @ t @ '':'' @ col @ '':'' @ v"

section \<open>Helper methods\<close>

definition get_schema_bytes :: "'s sql_env \<Rightarrow> string \<Rightarrow> ('s executor, bytes option) M" where
  "get_schema_bytes E t = (\<lambda>ex.
     let key = as_bytes (legacy_key t) in
     case (if in_transaction ex then map_of (write_buffer ex) key else None) of
       Some v \<Rightarrow> (Inr v, ex)
     | None \<Rightarrow> ex_get E (legacy_key t) ex)"

text \<open>Missing columns at the end get their default.\<close>

definition pad_row :: "table_schema option \<Rightarrow> row \<Rightarrow> row" where
  "pad_row catalog_schema r =
     (case catalog_schema of
        None \<Rightarrow> r
      | Some ts \<Rightarrow> r @ map (\<lambda>c. case default_value c of Some d \<Rightarrow> d | None \<Rightarrow> ''NULL'') (drop (length r) (columns ts)))"

text \<open>The write buffer over the entries of the store, for the keys with the prefix.\<close>

definition overlay_entry :: "bytes \<Rightarrow> bytes \<times> bytes option \<Rightarrow> (bytes \<times> bytes) list \<Rightarrow> (bytes \<times> bytes) list" where
  "overlay_entry pfx kv row_map =
     (case kv of (k, v_opt) \<Rightarrow>
        if prefix pfx k then (case v_opt of Some v \<Rightarrow> ins_entry k v row_map | None \<Rightarrow> del_entry k row_map)
        else row_map)"

fun decode_rows :: "table_schema option \<Rightarrow> (bytes \<times> bytes) list \<Rightarrow> row list res" where
  "decode_rows cat [] = Inr []"
| "decode_rows cat ((k, v) # kvs) =
     rbind (decode_values v) (\<lambda>r. rbind (decode_rows cat kvs) (\<lambda>rs. Inr (pad_row cat r # rs)))"

definition scan_table_rows :: "'s sql_env \<Rightarrow> string \<Rightarrow> ('s executor, row list) M" where
  "scan_table_rows E t =
     (let pfx = t @ '':'' in
      sbind (ex_scan E pfx) (\<lambda>records.
      sbind (gets (\<lambda>ex.
        let row_map = fold (\<lambda>(k, v). ins_entry k v) records [] in
        if in_transaction ex then fold (overlay_entry (as_bytes pfx)) (write_buffer ex) row_map else row_map)) (\<lambda>row_map.
      case parse_qualified_table_name t of (s, t_only) \<Rightarrow>
      sbind (on_db (get_table_schema (env_store E) (env_json E) s t_only)) (\<lambda>catalog_schema.
        of_res (decode_rows catalog_schema row_map)))))"

definition sec_idx_add :: "'s sql_env \<Rightarrow> string \<Rightarrow> string \<Rightarrow> string \<Rightarrow> string \<Rightarrow> bool \<Rightarrow> ('s executor, unit) M" where
  "sec_idx_add E t col col_val pk unique =
     (let key = sec_key t col col_val in
      sbind (ex_get E key) (\<lambda>existing.
        case existing of
          Some dat \<Rightarrow>
            let existing_str = from_utf8_lossy dat; pks = split_char SEC_IDX_PK_SEP existing_str in
            if pk \<in> set pks then ret ()
            else if unique \<and> pks \<noteq> []
            then throw_msg (''UNIQUE constraint violation: Duplicate value '' @ quoted col_val @ '' in column '' @ quoted col)
            else write_entry E (as_bytes key) (as_bytes (existing_str @ [SEC_IDX_PK_SEP] @ pk))
        | None \<Rightarrow> write_entry E (as_bytes key) (as_bytes pk)))"

definition sec_idx_remove :: "'s sql_env \<Rightarrow> string \<Rightarrow> string \<Rightarrow> string \<Rightarrow> string \<Rightarrow> ('s executor, unit) M" where
  "sec_idx_remove E t col col_val pk =
     (let key = sec_key t col col_val in
      sbind (ex_get E key) (\<lambda>existing.
        case existing of
          Some dat \<Rightarrow>
            let pks = filter (\<lambda>p. p \<noteq> pk) (split_char SEC_IDX_PK_SEP (from_utf8_lossy dat)) in
            if pks = [] then remove_entry E (as_bytes key)
            else write_entry E (as_bytes key) (as_bytes (join [SEC_IDX_PK_SEP] pks))
        | None \<Rightarrow> ret ()))"

text \<open>The values of the columns of an index that the row has.\<close>

definition index_values :: "string list \<Rightarrow> row \<Rightarrow> string list \<Rightarrow> string list" where
  "index_values col_names vals cols =
     List.map_filter (\<lambda>col. case column_index col_names col of
       Some i \<Rightarrow> if i < length vals then Some (vals ! i) else None
     | None \<Rightarrow> None) cols"

definition index_unique :: "table_schema option \<Rightarrow> string list \<Rightarrow> bool" where
  "index_unique cat cols =
     (case cat of
        None \<Rightarrow> False
      | Some ts \<Rightarrow> (\<exists>col\<in>set cols. (case find_column ts col of Some (_, c) \<Rightarrow> is_unique c | None \<Rightarrow> False)))"

definition sync_secondary_indexes_on_insert ::
    "'s sql_env \<Rightarrow> string \<Rightarrow> string list \<Rightarrow> row \<Rightarrow> string \<Rightarrow> table_schema option \<Rightarrow> ('s executor, unit) M" where
  "sync_secondary_indexes_on_insert E t col_names vals pk cat =
     sbind (ex_scan E (index_prefix t)) (\<lambda>indices.
       for_each (\<lambda>(_, spec).
         let cols = split_char (CHR '','') (from_utf8_lossy spec); col_vals = index_values col_names vals cols in
         if length col_vals = length cols
         then sec_idx_add E t (join ''+'' cols) (join ''+'' col_vals) pk (index_unique cat cols)
         else ret ()) indices)"

definition sec_idx_remove_for_column :: "'s sql_env \<Rightarrow> string \<Rightarrow> string \<Rightarrow> string \<Rightarrow> string \<Rightarrow> ('s executor, unit) M" where
  "sec_idx_remove_for_column E t col col_val pk =
     sbind (ex_scan E (index_prefix t)) (\<lambda>indices.
       for_each (\<lambda>(_, spec). if from_utf8_lossy spec = col then sec_idx_remove E t col col_val pk else ret ()) indices)"

definition sec_idx_add_for_column ::
    "'s sql_env \<Rightarrow> string \<Rightarrow> string \<Rightarrow> string \<Rightarrow> string \<Rightarrow> bool \<Rightarrow> ('s executor, unit) M" where
  "sec_idx_add_for_column E t col col_val pk unique =
     sbind (ex_scan E (index_prefix t)) (\<lambda>indices.
       for_each (\<lambda>(_, spec). if from_utf8_lossy spec = col then sec_idx_add E t col col_val pk unique else ret ()) indices)"

definition remove_all_secondary_indexes ::
    "'s sql_env \<Rightarrow> string \<Rightarrow> string list \<Rightarrow> row \<Rightarrow> string \<Rightarrow> ('s executor, unit) M" where
  "remove_all_secondary_indexes E t col_names vals pk =
     sbind (ex_scan E (index_prefix t)) (\<lambda>indices.
       for_each (\<lambda>(_, spec).
         let cols = split_char (CHR '','') (from_utf8_lossy spec); col_vals = index_values col_names vals cols in
         if length col_vals = length cols
         then sec_idx_remove E t (join ''+'' cols) (join ''+'' col_vals) pk
         else ret ()) indices)"

text \<open>The column names of a table, or the error that there is no such table.\<close>

definition table_columns :: "'s sql_env \<Rightarrow> string \<Rightarrow> string \<Rightarrow> ('s executor, string list) M" where
  "table_columns E t shown =
     sbind (get_schema_bytes E t) (\<lambda>found.
     sbind (ok_or_else found (''Table '' @ quoted shown @ '' does not exist'')) (\<lambda>schema_bytes.
     sbind (of_res (from_utf8 schema_bytes)) (\<lambda>schema_val. ret (extract_col_names schema_val))))"

definition column_of :: "string list \<Rightarrow> string \<Rightarrow> string \<Rightarrow> ('s executor, nat) M" where
  "column_of cols c after = ok_or_else (column_index cols c) (''Column '' @ quoted c @ '' not found'' @ after)"

section \<open>Statements\<close>

definition exec_create_user :: "'s sql_env \<Rightarrow> string \<Rightarrow> string option \<Rightarrow> ('s executor, string) M" where
  "exec_create_user E username password =
     (let pwd_hash = map_option (\<lambda>p. ''md5'' @ env_md5 E (p @ username)) password in
      sthen (on_db (create_user (env_store E) (env_json E) username pwd_hash False)) (ret ''CREATE ROLE''))"

definition exec_begin :: "'s sql_env \<Rightarrow> ('s executor, string) M" where
  "exec_begin E = (\<lambda>ex.
     if in_transaction ex then throw_msg ''Transaction already in progress'' ex
     else sthen (on_db (st_begin_tx (env_store E) (tx_id_counter ex))) (ret ''Query OK, transaction started.'')
       (ex\<lparr>in_transaction := True, current_tx_id := tx_id_counter ex, tx_id_counter := tx_id_counter ex + 1,
           write_buffer := []\<rparr>))"

definition play_entry :: "'s sql_env \<Rightarrow> u64 \<Rightarrow> bytes \<times> bytes option \<Rightarrow> ('s executor, unit) M" where
  "play_entry E tx kv =
     (case kv of
        (key, Some v) \<Rightarrow> on_db (st_put_with_tx (env_store E) tx key v)
      | (key, None) \<Rightarrow> on_db (st_delete_with_tx (env_store E) tx key))"

definition end_transaction :: "('s executor, unit) M" where
  "end_transaction = modify (\<lambda>ex. ex\<lparr>write_buffer := [], in_transaction := False, current_tx_id := 0\<rparr>)"

definition exec_commit :: "'s sql_env \<Rightarrow> ('s executor, string) M" where
  "exec_commit E = (\<lambda>ex.
     if \<not> in_transaction ex then throw_msg ''No transaction in progress'' ex
     else let tx = current_tx_id ex in
       sthen (for_each (play_entry E tx) (write_buffer ex))
       (sthen (on_db (st_commit_tx (env_store E) tx))
       (sthen end_transaction (ret ''Query OK, transaction committed.''))) ex)"

definition exec_rollback :: "'s sql_env \<Rightarrow> ('s executor, string) M" where
  "exec_rollback E = (\<lambda>ex.
     if \<not> in_transaction ex then throw_msg ''No transaction in progress'' ex
     else sthen (on_db (st_rollback_tx (env_store E) (current_tx_id ex)))
       (sthen end_transaction (ret ''Query OK, transaction rolled back.'')) ex)"

definition exec_create_schema :: "'s sql_env \<Rightarrow> string \<Rightarrow> ('s executor, string) M" where
  "exec_create_schema E s =
     sthen (on_db (create_schema (env_store E) s)) (ret (''Query OK, schema '' @ quoted s @ '' created.''))"

definition exec_show_schemas :: "'s sql_env \<Rightarrow> ('s executor, string) M" where
  "exec_show_schemas E =
     sbind (on_db (list_schemas (env_store E))) (\<lambda>schemas.
       ret (render (framed ''Schemas'') (map framed schemas) (count_footer ''schema(s)'' schemas)))"

definition exec_show_tables :: "'s sql_env \<Rightarrow> ('s executor, string) M" where
  "exec_show_tables E =
     sbind (on_db (list_tables (env_store E) DEFAULT_SCHEMA)) (\<lambda>tables.
       ret (render (framed ''Tables'') (map framed tables) (count_footer ''table(s)'' tables)))"

text \<open>The implicit index of a UNIQUE column.\<close>

definition unique_index :: "'s sql_env \<Rightarrow> string \<Rightarrow> column_def \<Rightarrow> ('s executor, unit) M" where
  "unique_index E t col =
     (if is_unique col
      then write_entry E (as_bytes (index_prefix t @ ''idx_'' @ t @ ''_'' @ name col)) (as_bytes (name col))
      else ret ())"

definition exec_create_table :: "'s sql_env \<Rightarrow> string \<Rightarrow> string list \<Rightarrow> ('s executor, string) M" where
  "exec_create_table E table cols =
     (case parse_qualified_table_name table of (s, t) \<Rightarrow>
      sbind (get_schema_bytes E t) (\<lambda>found.
      sbind (if found \<noteq> None then ret True
             else sbind (on_db (get_table_schema (env_store E) (env_json E) s t)) (\<lambda>ts. ret (ts \<noteq> None))) (\<lambda>exists.
      if exists then throw_msg (''Table '' @ quoted table @ '' already exists'')
      else sbind (of_res (parse_column_defs cols)) (\<lambda>col_defs.
        sthen (on_db (save_table_schema (env_store E) (env_json E) (schema_new s t col_defs)))
        (sthen (write_entry E (as_bytes (legacy_key t)) (as_bytes (join '','' cols)))
        (sthen (for_each (unique_index E t) col_defs)
          (ret (if s = DEFAULT_SCHEMA then ''Query OK, table '' @ quoted t @ '' created.''
                else ''Query OK, table '' @ quoted (s @ ''.'' @ t) @ '' created.''))))))))"

fun column_indices :: "string list \<Rightarrow> string list \<Rightarrow> string \<Rightarrow> ('s executor, nat list) M" where
  "column_indices col_names [] shown = ret []"
| "column_indices col_names (c # cs) shown =
     sbind (column_of col_names c ('' in table '' @ quoted shown)) (\<lambda>i.
     sbind (column_indices col_names cs shown) (\<lambda>is. ret (i # is)))"

definition index_row :: "'s sql_env \<Rightarrow> string \<Rightarrow> string list \<Rightarrow> nat list \<Rightarrow> bytes \<times> bytes \<Rightarrow> ('s executor, unit) M" where
  "index_row E t cols idxs kv =
     sbind (of_res (decode_values (snd kv))) (\<lambda>decoded.
       let col_vals = map (\<lambda>i. decoded ! i) (filter (\<lambda>i. i < length decoded) idxs) in
       if length col_vals = length cols
       then sec_idx_add E t (join ''+'' cols) (join ''+'' col_vals) (from_utf8_lossy (drop (length t + 1) (fst kv))) False
       else ret ())"

definition exec_create_index :: "'s sql_env \<Rightarrow> string \<Rightarrow> string \<Rightarrow> string list \<Rightarrow> ('s executor, string) M" where
  "exec_create_index E index_name table cols =
     (case parse_qualified_table_name table of (s, t) \<Rightarrow>
      sbind (get_schema_bytes E t) (\<lambda>found.
      sbind (ok_or_else found (''Table '' @ quoted table @ '' does not exist'')) (\<lambda>schema_bytes.
      let idx_meta_key = index_prefix t @ index_name; cols_joined = join '','' cols in
      sbind (ex_get E idx_meta_key) (\<lambda>old.
      if old \<noteq> None then throw_msg (''Index '' @ quoted index_name @ '' already exists'')
      else sthen (on_db (st_put (env_store E) (as_bytes idx_meta_key) (as_bytes cols_joined)))
        (sbind (of_res (from_utf8 schema_bytes)) (\<lambda>schema_val.
        sbind (column_indices (extract_col_names schema_val) cols table) (\<lambda>idxs.
        sbind (ex_scan E (t @ '':'')) (\<lambda>records.
        sthen (for_each (index_row E t cols idxs) records)
          (ret (''Query OK, index '' @ quoted index_name @ '' created on '' @
            quoted (s @ ''.'' @ t @ ''('' @ cols_joined @ '')'') @ ''.''))))))))))"

text \<open>Type and NOT NULL of each column.\<close>

fun validate_values :: "column_def list \<Rightarrow> row \<Rightarrow> unit res" where
  "validate_values (col # cols) (v # vals) =
     rbind (parse_str v (data_type col)) (\<lambda>parsed.
       if \<not> is_nullable col \<and> is_null parsed
       then Inl (Message (''Constraint Violation: Column '' @ quoted (name col) @ '' cannot be NULL''))
       else validate_values cols vals)"
| "validate_values _ _ = Inr ()"

definition count_mismatch :: "nat \<Rightarrow> nat \<Rightarrow> error" where
  "count_mismatch expected got =
     Message (''Column count mismatch: expected '' @ nat_str expected @ '', got '' @ nat_str got)"

definition check_values :: "table_schema option \<Rightarrow> string list \<Rightarrow> row \<Rightarrow> row res" where
  "check_values cat col_names vals =
     (let padded = pad_row cat vals in
      rbind (case cat of
          Some ts \<Rightarrow>
            if length padded \<noteq> length (columns ts) then Inl (count_mismatch (length (columns ts)) (length padded))
            else validate_values (columns ts) padded
        | None \<Rightarrow> if length vals \<noteq> length col_names then Inl (count_mismatch (length col_names) (length vals)) else Inr ()) (\<lambda>_.
      if padded = [] then Inl (Message ''No values provided for insertion'') else Inr padded))"

text \<open>Whether a key has a row, seen from inside the transaction.\<close>

definition key_exists :: "'s sql_env \<Rightarrow> bytes \<Rightarrow> ('s executor, bool) M" where
  "key_exists E key = (\<lambda>ex.
     case (if in_transaction ex then map_of (write_buffer ex) key else None) of
       Some v_opt \<Rightarrow> (Inr (v_opt \<noteq> None), ex)
     | None \<Rightarrow> sbind (on_db (st_get (env_store E) key)) (\<lambda>r. ret (r \<noteq> None)) ex)"

definition active_tx :: "'s executor \<Rightarrow> u64" where
  "active_tx ex = (if in_transaction ex then current_tx_id ex else 1)"

definition insert_row :: "'s sql_env \<Rightarrow> string \<Rightarrow> string list \<Rightarrow> table_schema option \<Rightarrow> row \<Rightarrow> ('s executor, unit) M" where
  "insert_row E t col_names cat vals =
     sbind (of_res (check_values cat col_names vals)) (\<lambda>padded.
     let pk = hd padded; key = row_key t pk in
     sbind (key_exists E key) (\<lambda>exists.
     if exists then throw_msg (''UNIQUE constraint violation: Primary key '' @ quoted pk @ '' already exists'')
     else sbind (gets active_tx) (\<lambda>tx.
       sthen (write_entry E key (encode_values_mvcc padded tx 0))
         (sync_secondary_indexes_on_insert E t col_names padded pk cat))))"

definition rows_message :: "nat \<Rightarrow> string \<Rightarrow> string" where
  "rows_message n what =
     (if n = 1 then ''Query OK, 1 row '' @ what @ ''.'' else ''Query OK, '' @ nat_str n @ '' rows '' @ what @ ''.'')"

definition exec_insert :: "'s sql_env \<Rightarrow> string \<Rightarrow> row list \<Rightarrow> ('s executor, string) M" where
  "exec_insert E table values_list =
     (case parse_qualified_table_name table of (s, t) \<Rightarrow>
      sbind (table_columns E t table) (\<lambda>col_names.
      sbind (on_db (get_table_schema (env_store E) (env_json E) s t)) (\<lambda>cat.
      sthen (for_each (insert_row E t col_names cat) values_list)
        (ret (rows_message (length values_list) ''inserted'')))))"

text \<open>The rows behind the primary keys of an index entry.\<close>

definition index_lookup :: "'s sql_env \<Rightarrow> string \<Rightarrow> string \<Rightarrow> ('s executor, row list) M" where
  "index_lookup E t pk = (\<lambda>ex.
     let k = row_key t pk in
     sbind (case (if in_transaction ex then map_of (write_buffer ex) k else None) of
         Some v_opt \<Rightarrow> ret v_opt
       | None \<Rightarrow> on_db (st_get (env_store E) k)) (\<lambda>v_opt.
     case v_opt of
       Some v \<Rightarrow> sbind (of_res (decode_values v)) (\<lambda>r. ret [r])
     | None \<Rightarrow> ret []) ex)"

definition index_scan :: "'s sql_env \<Rightarrow> string \<Rightarrow> (string \<times> string) option \<Rightarrow> ('s executor, row list option) M" where
  "index_scan E t where_clause =
     (case where_clause of
        None \<Rightarrow> ret None
      | Some (filter_col, filter_val) \<Rightarrow>
          sbind (ex_get E (sec_key t filter_col filter_val)) (\<lambda>found.
          case found of
            None \<Rightarrow> ret None
          | Some pks_bytes \<Rightarrow>
              sbind (for_collect (index_lookup E t) (split_char SEC_IDX_PK_SEP (from_utf8_lossy pks_bytes))) (\<lambda>rows.
                ret (Some rows))))"

definition filtered :: "string list \<Rightarrow> (string \<times> string) option \<Rightarrow> plan \<Rightarrow> ('s executor, plan) M" where
  "filtered col_names where_clause scan_op =
     (case where_clause of
        None \<Rightarrow> ret scan_op
      | Some (filter_col, filter_val) \<Rightarrow>
          sbind (column_of col_names filter_col []) (\<lambda>i. ret (filter_new scan_op i filter_val)))"

definition ordered :: "string list \<Rightarrow> (string \<times> bool) option \<Rightarrow> plan \<Rightarrow> ('s executor, plan) M" where
  "ordered col_names order_by filtered_op =
     (case order_by of
        None \<Rightarrow> ret filtered_op
      | Some (sort_col, is_desc) \<Rightarrow>
          sbind (column_of col_names sort_col '' for ORDER BY'') (\<lambda>i. ret (sort_new filtered_op i is_desc)))"

definition is_information_schema :: "string \<Rightarrow> string \<Rightarrow> string \<Rightarrow> bool" where
  "is_information_schema what s t \<longleftrightarrow> eq_ignore_case t (''information_schema.'' @ what) \<or>
     eq_ignore_case s ''information_schema'' \<and> eq_ignore_case t what"

definition exec_select :: "'s sql_env \<Rightarrow> string \<Rightarrow> (string \<times> string) option \<Rightarrow> (string \<times> bool) option \<Rightarrow>
    (nat \<times> nat) option \<Rightarrow> ('s executor, string) M" where
  "exec_select E table where_clause order_by limit_offset =
     (case parse_qualified_table_name table of (s, t) \<Rightarrow>
      if is_information_schema ''tables'' s t
      then sbind (on_db (query_information_schema_tables (env_store E))) (\<lambda>rows.
        ret (format_table_output [''table_catalog'', ''table_schema'', ''table_name'', ''table_type''] rows))
      else if is_information_schema ''columns'' s t
      then sbind (on_db (query_information_schema_columns (env_store E) (env_json E) None)) (\<lambda>rows.
        ret (format_table_output [''table_catalog'', ''table_schema'', ''table_name'', ''column_name'',
          ''ordinal_position'', ''data_type'', ''is_nullable'', ''column_default''] rows))
      else
        sbind (table_columns E t table) (\<lambda>col_names.
        sbind (index_scan E t where_clause) (\<lambda>indexed.
        sbind (case indexed of Some rows \<Rightarrow> ret rows | None \<Rightarrow> scan_table_rows E t) (\<lambda>rows.
        sbind (filtered col_names (if indexed = None then where_clause else None) (seq_scan_new rows)) (\<lambda>filtered_op.
        sbind (ordered col_names order_by filtered_op) (\<lambda>sorted_op.
        let p = (case limit_offset of None \<Rightarrow> sorted_op | Some (limit, offset) \<Rightarrow> limit_offset_new sorted_op (Some limit) offset)
        in ret (format_table_output col_names (fst (plan_run p)))))))))"

definition exec_select_join :: "'s sql_env \<Rightarrow> string \<Rightarrow> string \<Rightarrow> string \<Rightarrow> string \<Rightarrow> bool \<Rightarrow> ('s executor, string) M" where
  "exec_select_join E left_table right_table left_col right_col is_left_join =
     (let l_tname = snd (parse_qualified_table_name left_table); r_tname = snd (parse_qualified_table_name right_table);
          missing = (\<lambda>table. ''Table '' @ quoted table @ '' does not exist'') in
      sbind (get_schema_bytes E l_tname) (\<lambda>l.
      sbind (ok_or_else l (missing left_table)) (\<lambda>left_sb.
      sbind (get_schema_bytes E r_tname) (\<lambda>r.
      sbind (ok_or_else r (missing right_table)) (\<lambda>right_sb.
      sbind (of_res (from_utf8 left_sb)) (\<lambda>left_schema.
      sbind (of_res (from_utf8 right_sb)) (\<lambda>right_schema.
      let left_cols = extract_col_names left_schema; right_cols = extract_col_names right_schema in
      sbind (column_of left_cols left_col ('' in '' @ quoted left_table)) (\<lambda>left_key_idx.
      sbind (column_of right_cols right_col ('' in '' @ quoted right_table)) (\<lambda>right_key_idx.
      sbind (scan_table_rows E l_tname) (\<lambda>l_rows.
      sbind (scan_table_rows E r_tname) (\<lambda>r_rows.
      let p = hash_join_new (seq_scan_new l_rows) (seq_scan_new r_rows) left_key_idx right_key_idx
                (if is_left_join then LeftJoin else Inner) (length right_cols)
      in ret (format_table_output (left_cols @ right_cols) (fst (plan_run p))))))))))))))"

definition agg_func_of :: "string list \<Rightarrow> string \<Rightarrow> string \<Rightarrow> ('s executor, aggregate_func) M" where
  "agg_func_of col_names func col =
     (if func = ''COUNT'' then ret Count
      else if func = ''SUM'' then sbind (column_of col_names col []) (\<lambda>i. ret (Sum i))
      else if func = ''AVG'' then sbind (column_of col_names col []) (\<lambda>i. ret (Avg i))
      else throw_msg (''Unsupported aggregate function '' @ func))"

definition exec_select_group :: "'s sql_env \<Rightarrow> string \<Rightarrow> string \<Rightarrow> string \<Rightarrow> string \<Rightarrow> (string \<times> string) option \<Rightarrow>
    (string \<times> string) option \<Rightarrow> ('s executor, string) M" where
  "exec_select_group E group_col func agg_col table where_clause having_clause =
     (let t = snd (parse_qualified_table_name table) in
      sbind (table_columns E t table) (\<lambda>col_names.
      sbind (column_of col_names group_col []) (\<lambda>group_col_idx.
      sbind (scan_table_rows E t) (\<lambda>rows.
      sbind (filtered col_names where_clause (seq_scan_new rows)) (\<lambda>filtered_op.
      sbind (agg_func_of col_names func agg_col) (\<lambda>agg_func.
        let p = hash_group_new filtered_op group_col_idx agg_func having_clause
        in ret (format_table_output [group_col, func @ ''('' @ agg_col @ '')''] (fst (plan_run p)))))))))"

definition range_matches :: "string \<Rightarrow> string \<Rightarrow> string \<Rightarrow> bool" where
  "range_matches op row_v v =
     (case (parse_f64 row_v, parse_f64 v) of
        (Some r_num, Some t_num) \<Rightarrow>
          if op = ''>='' then f64_le t_num r_num else if op = ''<='' then f64_le r_num t_num
          else if op = ''>'' then f64_less t_num r_num else if op = ''<'' then f64_less r_num t_num else False
      | _ \<Rightarrow>
          if op = ''>='' then \<not> str_less row_v v else if op = ''<='' then \<not> str_less v row_v
          else if op = ''>'' then str_less v row_v else if op = ''<'' then str_less row_v v else False)"

definition exec_select_range :: "'s sql_env \<Rightarrow> string \<Rightarrow> string \<Rightarrow> string \<Rightarrow> string \<Rightarrow> ('s executor, string) M" where
  "exec_select_range E table col op v =
     (let t = snd (parse_qualified_table_name table) in
      sbind (table_columns E t table) (\<lambda>col_names.
      sbind (column_of col_names col []) (\<lambda>col_idx.
      sbind (scan_table_rows E t) (\<lambda>rows.
        ret (format_table_output col_names
          (filter (\<lambda>r. col_idx < length r \<and> range_matches op (r ! col_idx) v) rows))))))"

definition exec_select_aggregate :: "'s sql_env \<Rightarrow> string \<Rightarrow> string \<Rightarrow> string \<Rightarrow> (string \<times> string) option \<Rightarrow>
    ('s executor, string) M" where
  "exec_select_aggregate E func col table where_clause =
     (let t = snd (parse_qualified_table_name table) in
      sbind (table_columns E t table) (\<lambda>col_names.
      sbind (scan_table_rows E t) (\<lambda>rows.
      sbind (filtered col_names where_clause (seq_scan_new rows)) (\<lambda>filtered_op.
      sbind (agg_func_of col_names func col) (\<lambda>agg_func.
        let res_row = (case fst (plan_next (plan_open (aggregate_new filtered_op agg_func))) of
              Some r \<Rightarrow> r | None \<Rightarrow> [''0''])
        in ret (render (framed (func @ ''('' @ col @ '')'')) [framed (join bar res_row)] ''1 row in set.''))))))"

text \<open>\<open>row[i]\<close>, which panics when the row is too short.\<close>

definition row_at :: "row \<Rightarrow> nat \<Rightarrow> string res" where
  "row_at r i = (if i < length r then Inr (r ! i) else Inl Panic)"

fun matching_rows :: "nat \<Rightarrow> string \<Rightarrow> row list \<Rightarrow> row list res" where
  "matching_rows i v [] = Inr []"
| "matching_rows i v (r # rs) =
     rbind (row_at r i) (\<lambda>x. rbind (matching_rows i v rs) (\<lambda>ms. Inr (if x = v then r # ms else ms)))"

definition target_rows :: "string list \<Rightarrow> (string \<times> string) option \<Rightarrow> row list \<Rightarrow> ('s executor, row list) M" where
  "target_rows col_names where_clause rows =
     (case where_clause of
        None \<Rightarrow> ret rows
      | Some (filter_col, filter_val) \<Rightarrow>
          sbind (column_of col_names filter_col []) (\<lambda>i. of_res (matching_rows i filter_val rows)))"

definition update_row :: "'s sql_env \<Rightarrow> string \<Rightarrow> string \<Rightarrow> nat \<Rightarrow> string \<Rightarrow> bool \<Rightarrow> row \<Rightarrow> ('s executor, unit) M" where
  "update_row E t col col_idx v unique r =
     (if length r \<le> col_idx then throw_msg ''Corrupted row length''
      else let pk = r ! 0; r' = r[col_idx := v] in
        sthen (sec_idx_remove_for_column E t col (r ! col_idx) pk)
        (sthen (sec_idx_add_for_column E t col v pk unique)
        (sbind (gets active_tx) (\<lambda>tx. write_entry E (row_key t pk) (encode_values_mvcc r' tx 0)))))"

definition check_update :: "table_schema option \<Rightarrow> nat \<Rightarrow> string \<Rightarrow> bool res" where
  "check_update cat col_idx v =
     (case cat of
        None \<Rightarrow> Inr False
      | Some ts \<Rightarrow>
          if length (columns ts) \<le> col_idx then Inr False
          else let col = columns ts ! col_idx in
            rbind (parse_str v (data_type col)) (\<lambda>parsed.
              if \<not> is_nullable col \<and> is_null parsed
              then Inl (Message (''Constraint Violation: Column '' @ quoted (name col) @ '' cannot be NULL''))
              else Inr (is_unique col)))"

definition exec_update :: "'s sql_env \<Rightarrow> string \<Rightarrow> string \<Rightarrow> string \<Rightarrow> (string \<times> string) option \<Rightarrow> ('s executor, string) M" where
  "exec_update E table col v where_clause =
     (case parse_qualified_table_name table of (s, t) \<Rightarrow>
      sbind (table_columns E t table) (\<lambda>col_names.
      sbind (column_of col_names col ('' in table '' @ quoted table)) (\<lambda>col_idx.
      sbind (on_db (get_table_schema (env_store E) (env_json E) s t)) (\<lambda>cat.
      sbind (of_res (check_update cat col_idx v)) (\<lambda>unique.
      sbind (scan_table_rows E t) (\<lambda>rows.
      sbind (target_rows col_names where_clause rows) (\<lambda>targets.
      sthen (for_each (update_row E t col col_idx v unique) targets)
        (ret (rows_message (length targets) ''updated'')))))))))"

definition delete_row :: "'s sql_env \<Rightarrow> string \<Rightarrow> string list \<Rightarrow> row \<Rightarrow> ('s executor, unit) M" where
  "delete_row E t col_names r =
     sbind (of_res (row_at r 0)) (\<lambda>pk.
     sthen (remove_all_secondary_indexes E t col_names r pk) (remove_entry E (row_key t pk)))"

definition exec_delete :: "'s sql_env \<Rightarrow> string \<Rightarrow> (string \<times> string) option \<Rightarrow> ('s executor, string) M" where
  "exec_delete E table where_clause =
     (let t = snd (parse_qualified_table_name table) in
      sbind (table_columns E t table) (\<lambda>col_names.
      sbind (scan_table_rows E t) (\<lambda>rows.
      sbind (target_rows col_names where_clause rows) (\<lambda>targets.
      sthen (for_each (delete_row E t col_names) targets)
        (ret (rows_message (length targets) ''deleted''))))))"

definition exec_alter_table_add_column :: "'s sql_env \<Rightarrow> string \<Rightarrow> string \<Rightarrow> ('s executor, string) M" where
  "exec_alter_table_add_column E table column_def =
     (case parse_qualified_table_name table of (s, t) \<Rightarrow>
      sbind (of_res (parse_column_def column_def)) (\<lambda>col_def.
      sbind (on_db (get_table_schema (env_store E) (env_json E) s t)) (\<lambda>found.
      sbind (ok_or_else found (''Table '' @ quoted table @ '' does not exist'')) (\<lambda>old.
      let ts = old\<lparr>columns := columns old @ [col_def]\<rparr> in
      sthen (on_db (save_table_schema (env_store E) (env_json E) ts))
      (sthen (write_entry E (as_bytes (legacy_key t)) (as_bytes (join '','' (column_names ts))))
      (sthen (unique_index E t col_def)
        (ret (''Query OK, 0 rows affected. Added column '' @ quoted (name col_def) @ '' to table '' @ quoted table @ ''.''))))))))"

definition exec_drop_table :: "'s sql_env \<Rightarrow> string \<Rightarrow> ('s executor, string) M" where
  "exec_drop_table E table =
     (case parse_qualified_table_name table of (s, t) \<Rightarrow>
      let del = (\<lambda>kv. on_db (st_delete (env_store E) (fst kv))) in
      sbind (get_schema_bytes E t) (\<lambda>found.
      if found = None then throw_msg (''Table '' @ quoted table @ '' does not exist'')
      else
        sbind (ex_scan E (t @ '':'')) (\<lambda>records.
        sbind (ex_scan E (index_prefix t)) (\<lambda>indices.
        sthen (for_each del indices)
        (sbind (ex_scan E (''__secidx__:'' @ t @ '':'')) (\<lambda>sec_entries.
        sthen (for_each del sec_entries)
        (sthen (on_db (st_delete (env_store E) (as_bytes (table_key s t))))
        (sthen (remove_entry E (as_bytes (legacy_key t)))
        (sthen (for_each (\<lambda>kv. remove_entry E (fst kv)) records)
          (ret (''Query OK, table '' @ quoted table @ '' dropped.'')))))))))))"

section \<open>Statements made of statements\<close>

fun dedup :: "string list \<Rightarrow> string list \<Rightarrow> string list" where
  "dedup seen [] = []"
| "dedup seen (x # xs) = (if x \<in> set seen then dedup seen xs else x # dedup (x # seen) xs)"

definition union_output :: "bool \<Rightarrow> string \<Rightarrow> string \<Rightarrow> string" where
  "union_output all left_res right_res =
     (let (header, rows1) = parse_formatted_table left_res; rows2 = snd (parse_formatted_table right_res);
          rows = (if all then rows1 @ rows2 else dedup [] (rows1 @ rows2))
      in render header rows (count_footer ''row(s)'' rows))"

definition subquery_output :: "string \<Rightarrow> string \<Rightarrow> string \<Rightarrow> string res" where
  "subquery_output col sub_res main_res =
     (let allowed = List.map_filter (\<lambda>l. case cells_of l of c # _ \<Rightarrow> Some c | [] \<Rightarrow> None)
            (snd (parse_formatted_table sub_res));
          (header, main_rows) = parse_formatted_table main_res
      in rbind (ok_or (position (\<lambda>c. eq_ignore_case c col) (cells_of header)) (''Column '' @ quoted col @ '' not found'')) (\<lambda>i.
         let rows = filter (\<lambda>l. i < length (cells_of l) \<and> cells_of l ! i \<in> set allowed) main_rows
         in Inr (render header rows (count_footer ''row(s)'' rows))))"

text \<open>The order of a window: by partition, then by the order column; \<open>unwrap\<close> of an undefined comparison panics.\<close>

definition window_cmp :: "nat \<Rightarrow> nat \<Rightarrow> row \<Rightarrow> row \<Rightarrow> ordering res" where
  "window_cmp part_idx ord_idx a b =
     (let pa = cell part_idx a; pb = cell part_idx b; oa = cell ord_idx a; ob = cell ord_idx b in
      if pa = pb then
        (case (parse_f64 oa, parse_f64 ob) of
           (Some na, Some nb) \<Rightarrow> unwrap (f64_partial_cmp na nb)
         | _ \<Rightarrow> Inr (str_cmp oa ob))
      else Inr (str_cmp pa pb))"

text \<open>
  A stable sort whose comparison may panic. The standard library leaves open which pairs are compared;
  here they are those of insertion sort.
\<close>

fun insert_by_res :: "('a \<Rightarrow> 'a \<Rightarrow> ordering res) \<Rightarrow> 'a \<Rightarrow> 'a list \<Rightarrow> 'a list res" where
  "insert_by_res f x [] = Inr [x]"
| "insert_by_res f x (y # ys) =
     rbind (f x y) (\<lambda>r. if r = Greater then rbind (insert_by_res f x ys) (\<lambda>zs. Inr (y # zs)) else Inr (x # y # ys))"

fun sort_by_res :: "('a \<Rightarrow> 'a \<Rightarrow> ordering res) \<Rightarrow> 'a list \<Rightarrow> 'a list res" where
  "sort_by_res f [] = Inr []"
| "sort_by_res f (x # xs) = rbind (sort_by_res f xs) (insert_by_res f x)"

fun number_rows :: "nat \<Rightarrow> string \<Rightarrow> nat \<Rightarrow> row list \<Rightarrow> row list" where
  "number_rows part_idx current_part row_num [] = []"
| "number_rows part_idx current_part row_num (r # rs) =
     (let part_val = cell part_idx r;
          (current_part', n) = (if part_val \<noteq> current_part then (part_val, 1) else (current_part, row_num))
      in (r @ [nat_str n]) # number_rows part_idx current_part' (n + 1) rs)"

definition window_output :: "string \<Rightarrow> string \<Rightarrow> string \<Rightarrow> string res" where
  "window_output partition_by order_by main_res =
     (let (header, main_rows) = parse_formatted_table main_res; col_names = cells_of header;
          idx = (\<lambda>col. case position (\<lambda>c. eq_ignore_case c col) col_names of Some i \<Rightarrow> i | None \<Rightarrow> 0);
          part_idx = idx partition_by
      in rbind (sort_by_res (window_cmp part_idx (idx order_by)) (map cells_of main_rows)) (\<lambda>row_objects.
         let new_rows = number_rows part_idx [] 1 row_objects
         in Inr (render (header @ '' | row_number'') (map (\<lambda>r. framed (join bar r)) new_rows) (count_footer ''row(s)'' new_rows))))"

definition with_columns :: "string \<Rightarrow> string list" where
  "with_columns header = map (\<lambda>c. c @ '' TEXT'') (cells_of header)"

fun execute :: "'s sql_env \<Rightarrow> statement \<Rightarrow> ('s executor, string) M" where
  "execute E (CreateUser username password) = exec_create_user E username password"
| "execute E Begin = exec_begin E"
| "execute E Commit = exec_commit E"
| "execute E Rollback = exec_rollback E"
| "execute E (CreateSchema s) = exec_create_schema E s"
| "execute E ShowSchemas = exec_show_schemas E"
| "execute E (CreateTable t cols) = exec_create_table E t cols"
| "execute E (CreateIndex i t cols) = exec_create_index E i t cols"
| "execute E (Insert t values_list) = exec_insert E t values_list"
| "execute E (With cte_name cte_query main_query) =
     sbind (execute E cte_query) (\<lambda>cte_res.
       case parse_formatted_table cte_res of (header, rows) \<Rightarrow>
       sthen (exec_create_table E cte_name (with_columns header))
       (sthen (for_each (\<lambda>l. sthen (exec_insert E cte_name [cells_of l]) (ret ())) rows)
       (sbind (execute E main_query) (\<lambda>main_res.
        sthen (exec_drop_table E cte_name) (ret main_res)))))"
| "execute E (Union left right all) =
     sbind (execute E left) (\<lambda>left_res.
     sbind (execute E right) (\<lambda>right_res. ret (union_output all left_res right_res)))"
| "execute E (SelectInSubquery t col subquery) =
     sbind (execute E subquery) (\<lambda>sub_res.
     sbind (exec_select E t None None None) (\<lambda>main_res. of_res (subquery_output col sub_res main_res)))"
| "execute E (SelectWindow t partition_by order_by) =
     sbind (exec_select E t None None None) (\<lambda>main_res. of_res (window_output partition_by order_by main_res))"
| "execute E (Select t where_clause order_by limit_offset) = exec_select E t where_clause order_by limit_offset"
| "execute E (SelectJoin lt rt lc rc is_left_join) = exec_select_join E lt rt lc rc is_left_join"
| "execute E (SelectGroupAggregate g func agg_col t where_clause having_clause) =
     exec_select_group E g func agg_col t where_clause having_clause"
| "execute E (SelectRange t col op v) = exec_select_range E t col op v"
| "execute E (SelectAggregate func col t where_clause) = exec_select_aggregate E func col t where_clause"
| "execute E (Update t col v where_clause) = exec_update E t col v where_clause"
| "execute E (Delete t where_clause) = exec_delete E t where_clause"
| "execute E (AlterTableAddColumn t column_def) = exec_alter_table_add_column E t column_def"
| "execute E (DropTable t) = exec_drop_table E t"
| "execute E ShowTables = exec_show_tables E"

section \<open>Query planning\<close>

text \<open>
  \<open>src/sql/optimizer.rs\<close>, which nothing calls: \<open>plan_select\<close> asks whether there is an index
  whose name is the column's, \<open>optimize\<close> returns its argument.
\<close>

datatype execution_strategy = SeqScan | IndexScan string

definition plan_select :: "'s sql_env \<Rightarrow> string \<Rightarrow> string option \<Rightarrow> ('s executor, execution_strategy) M" where
  "plan_select E t filter_col =
     (case filter_col of
        None \<Rightarrow> ret SeqScan
      | Some col \<Rightarrow> sbind (ex_get E (index_prefix t @ col)) (\<lambda>found.
          ret (if found \<noteq> None then IndexScan col else SeqScan)))"

definition optimize :: "statement \<Rightarrow> statement" where
  "optimize stmt = stmt"

end
