(* ===== verification/Sessions.thy ===== *)
theory Sessions
  imports Executor
begin

text \<open>
  Sessions of the executor: what a transaction sees, what it leaves behind, and what statements
  do to the tables. The locales \<open>session_reader\<close> and \<open>session_store\<close> are the contracts of
  \<open>Store\<close> for the store an executor works on.
\<close>

section \<open>Invariants of stateful code\<close>

text \<open>\<open>keeps I m\<close>: whatever \<open>m\<close> returns, it leaves a state with \<open>I\<close> in a state with \<open>I\<close>.\<close>

named_theorems keeps_intros "rules for invariants of stateful code"

definition keeps :: "('s \<Rightarrow> bool) \<Rightarrow> ('s, 'a) M \<Rightarrow> bool" where
  "keeps I m \<longleftrightarrow> (\<forall>s. I s \<longrightarrow> I (snd (m s)))"

lemma keepsD: "keeps I m \<Longrightarrow> I s \<Longrightarrow> I (snd (m s))"
  by (simp add: keeps_def)

lemma keeps_sbind [keeps_intros]: "keeps I m \<Longrightarrow> (\<And>x. keeps I (f x)) \<Longrightarrow> keeps I (sbind m f)"
  unfolding keeps_def sbind_def by (force split: prod.splits sum.splits)

lemma keeps_sthen [keeps_intros]: "keeps I m \<Longrightarrow> keeps I n \<Longrightarrow> keeps I (sthen m n)"
  by (simp add: sthen_def keeps_sbind)

lemma keeps_Pair [keeps_intros]: "keeps I (Pair r)"
  by (simp add: keeps_def)

lemma keeps_ret [keeps_intros]: "keeps I (ret x)" "keeps I (throw e)" "keeps I (of_res r)" "keeps I (gets g)"
  by (simp_all add: keeps_def)

lemma keeps_if [keeps_intros]: "keeps I m \<Longrightarrow> keeps I n \<Longrightarrow> keeps I (if b then m else n)"
  by simp

lemma keeps_option [keeps_intros]: "keeps I m \<Longrightarrow> (\<And>x. keeps I (f x)) \<Longrightarrow> keeps I (case r of None \<Rightarrow> m | Some x \<Rightarrow> f x)"
  by (cases r) simp_all

lemma keeps_prod [keeps_intros]: "(\<And>x y. keeps I (f x y)) \<Longrightarrow> keeps I (case p of (x, y) \<Rightarrow> f x y)"
  by (cases p) simp

lemma keeps_Let [keeps_intros]: "(\<And>x. keeps I (f x)) \<Longrightarrow> keeps I (Let e f)"
  by simp

lemma keeps_for_each [keeps_intros]: "(\<And>x. keeps I (f x)) \<Longrightarrow> keeps I (for_each f xs)"
  by (induction xs) (auto intro!: keeps_intros simp del: M_normal)

lemma keeps_for_collect [keeps_intros]: "(\<And>x. keeps I (f x)) \<Longrightarrow> keeps I (for_collect f xs)"
  by (induction xs) (auto intro!: keeps_intros simp del: M_normal)

section \<open>Transactions of the executor\<close>

locale session_reader = key_reader "env_store E" holds for E :: "'s sql_env" and holds
begin

text \<open>Inside transaction \<open>tx\<close>, with the entries \<open>es\<close> in the store.\<close>

definition in_tx :: "u64 \<Rightarrow> u64 \<Rightarrow> (key \<times> bytes) list \<Rightarrow> 's executor \<Rightarrow> bool" where
  "in_tx tx n es ex \<longleftrightarrow> in_transaction ex \<and> current_tx_id ex = tx \<and> tx_id_counter ex = n \<and>
     sorted_keys (write_buffer ex) \<and> holds (ex_db ex) es"

lemma keeps_on_db [keeps_intros]:
  "keeps (\<lambda>s. holds s es) m \<Longrightarrow> keeps (in_tx tx n es) (on_db m)"
  unfolding keeps_def in_tx_def on_db_def by (force split: prod.splits)

lemma keeps_get [keeps_intros]: "keeps (\<lambda>s. holds s es) (st_get (env_store E) k)"
  unfolding keeps_def by (metis getE snd_conv)

lemma keeps_scan [keeps_intros]: "keeps (\<lambda>s. holds s es) (st_scan_prefix (env_store E) pfx)"
  unfolding keeps_def by (metis scanE snd_conv)

lemma keeps_write_entry [keeps_intros]: "keeps (in_tx tx n es) (write_entry E k v)"
  by (simp add: keeps_def in_tx_def write_entry_def sorted_ins_entry)

lemma keeps_remove_entry [keeps_intros]: "keeps (in_tx tx n es) (remove_entry E k)"
  by (simp add: keeps_def in_tx_def remove_entry_def sorted_ins_entry)

lemma keeps_throw [keeps_intros]:
  "keeps I (throw_msg msg)" "keeps I (ok_or_else r msg)" "keeps I (column_of cols c aft)"
  by (simp_all add: throw_msg_def ok_or_else_def column_of_def keeps_Pair)

lemma keeps_get_schema_bytes [keeps_intros]: "keeps (in_tx tx n es) (get_schema_bytes E t)"
proof -
  have "keeps (in_tx tx n es) (ex_get E (legacy_key t))"
    by (intro keeps_intros)
  then show ?thesis
    by (auto simp: get_schema_bytes_def keeps_def Let_def split: option.splits)
qed

lemma keeps_key_exists [keeps_intros]: "keeps (in_tx tx n es) (key_exists E k)"
proof -
  have "keeps (in_tx tx n es) (sbind (on_db (st_get (env_store E) k)) (\<lambda>r. ret (r \<noteq> None)))"
    by (intro keeps_intros)
  then show ?thesis
    by (auto simp: key_exists_def keeps_def split: option.splits)
qed

lemma keeps_index_lookup [keeps_intros]: "keeps (in_tx tx n es) (index_lookup E t pk)"
proof -
  have "keeps (in_tx tx n es) (sbind m (\<lambda>v_opt. case v_opt of
      Some v \<Rightarrow> sbind (of_res (decode_values v)) (\<lambda>r. ret [r]) | None \<Rightarrow> ret []))"
    if "keeps (in_tx tx n es) m" for m
    using that by (intro keeps_intros)
  from this [OF keeps_ret(1)] this [OF keeps_on_db [OF keeps_get]] show ?thesis
    by (auto simp: index_lookup_def keeps_def Let_def split: option.splits)
qed

lemma keeps_catalog [keeps_intros]:
  "keeps (\<lambda>s. holds s es) (get_table_schema (env_store E) J sc t)"
  "keeps (\<lambda>s. holds s es) (list_schemas (env_store E))"
  "keeps (\<lambda>s. holds s es) (list_tables (env_store E) sc)"
  unfolding get_table_schema_def list_schemas_def list_tables_def by (intro keeps_intros)+

lemma keeps_information_schema [keeps_intros]:
  "keeps (\<lambda>s. holds s es) (query_information_schema_tables (env_store E))"
  "keeps (\<lambda>s. holds s es) (query_information_schema_columns (env_store E) J filt)"
  unfolding query_information_schema_tables_def query_information_schema_columns_def by (intro keeps_intros)+

lemma keeps_indexes [keeps_intros]:
  "keeps (in_tx tx n es) (sec_idx_add E t c v pk u)"
  "keeps (in_tx tx n es) (sec_idx_remove E t c v pk)"
  "keeps (in_tx tx n es) (sync_secondary_indexes_on_insert E t cols vals pk cat)"
  "keeps (in_tx tx n es) (sec_idx_remove_for_column E t c v pk)"
  "keeps (in_tx tx n es) (sec_idx_add_for_column E t c v pk u)"
  "keeps (in_tx tx n es) (remove_all_secondary_indexes E t cols vals pk)"
  unfolding sec_idx_add_def sec_idx_remove_def sync_secondary_indexes_on_insert_def sec_idx_remove_for_column_def
    sec_idx_add_for_column_def remove_all_secondary_indexes_def by (intro keeps_intros)+

lemma keeps_helpers [keeps_intros]:
  "keeps (in_tx tx n es) (table_columns E t shown)"
  "keeps (in_tx tx n es) (scan_table_rows E t)"
  "keeps (in_tx tx n es) (index_scan E t wc)"
  "keeps (in_tx tx n es) (filtered cols wc p)"
  "keeps (in_tx tx n es) (ordered cols ob p)"
  "keeps (in_tx tx n es) (agg_func_of cols func c)"
  "keeps (in_tx tx n es) (target_rows cols wc rows)"
  "keeps (in_tx tx n es) (insert_row E t cols cat vals)"
  "keeps (in_tx tx n es) (update_row E t c i v u r)"
  "keeps (in_tx tx n es) (delete_row E t cols r)"
  unfolding table_columns_def scan_table_rows_def index_scan_def filtered_def ordered_def agg_func_of_def target_rows_def
    insert_row_def update_row_def delete_row_def by (intro keeps_intros)+

lemma keeps_statements [keeps_intros]:
  "keeps (in_tx tx n es) (exec_insert E t vs)"
  "keeps (in_tx tx n es) (exec_update E t c v wc)"
  "keeps (in_tx tx n es) (exec_delete E t wc)"
  "keeps (in_tx tx n es) (exec_select E t wc ob lim)"
  "keeps (in_tx tx n es) (exec_select_join E lt rt lc rc b)"
  "keeps (in_tx tx n es) (exec_select_group E g f a t wc hc)"
  "keeps (in_tx tx n es) (exec_select_range E t c op v)"
  "keeps (in_tx tx n es) (exec_select_aggregate E f c t wc)"
  "keeps (in_tx tx n es) (exec_show_schemas E)"
  "keeps (in_tx tx n es) (exec_show_tables E)"
  unfolding exec_insert_def exec_update_def exec_delete_def exec_select_def exec_select_join_def exec_select_group_def
    exec_select_range_def exec_select_aggregate_def exec_show_schemas_def exec_show_tables_def
  by (intro keeps_intros)+

end

text \<open>The statements whose writes wait in the buffer until the transaction ends.\<close>

fun buffers :: "statement \<Rightarrow> bool" where
  "buffers (Insert t vs) \<longleftrightarrow> True"
| "buffers (Update t c v wc) \<longleftrightarrow> True"
| "buffers (Delete t wc) \<longleftrightarrow> True"
| "buffers (Select t wc ob lim) \<longleftrightarrow> True"
| "buffers (SelectJoin lt rt lc rc b) \<longleftrightarrow> True"
| "buffers (SelectGroupAggregate g f a t wc hc) \<longleftrightarrow> True"
| "buffers (SelectRange t c op v) \<longleftrightarrow> True"
| "buffers (SelectAggregate f c t wc) \<longleftrightarrow> True"
| "buffers (SelectWindow t p ob) \<longleftrightarrow> True"
| "buffers (SelectInSubquery t c sub) \<longleftrightarrow> buffers sub"
| "buffers (Union l r all) \<longleftrightarrow> buffers l \<and> buffers r"
| "buffers ShowTables \<longleftrightarrow> True"
| "buffers ShowSchemas \<longleftrightarrow> True"
| "buffers _ \<longleftrightarrow> False"

text \<open>A session that goes on after a statement that fails, as the shell does.\<close>

primrec run_statements :: "'s sql_env \<Rightarrow> statement list \<Rightarrow> 's executor \<Rightarrow> 's executor" where
  "run_statements E [] ex = ex"
| "run_statements E (st # sts) ex = run_statements E sts (snd (execute E st ex))"

context session_reader
begin

lemma keeps_execute: "buffers st \<Longrightarrow> keeps (in_tx tx n es) (execute E st)"
  by (induction st rule: buffers.induct) (simp_all only: execute.simps buffers.simps, (intro keeps_intros; simp)+)

lemma keeps_run:
  "list_all buffers sts \<Longrightarrow> in_tx tx n es ex \<Longrightarrow> in_tx tx n es (run_statements E sts ex)"
  by (induction sts arbitrary: ex) (auto dest: keepsD [OF keeps_execute])

end

section \<open>Ending a transaction\<close>

locale session_store = key_store "env_store E" room for E :: "'s sql_env" and room
begin

sublocale view: session_reader E "\<lambda>s es. room s es ws" for ws
  by (rule session_reader.intro) (rule reads.key_reader_axioms)

lemma exec_beginE:
  assumes "room (ex_db ex) es ws" "\<not> in_transaction ex"
  obtains ex' where "execute E Begin ex = (Inr ''Query OK, transaction started.'', ex')"
    "view.in_tx ws (tx_id_counter ex) (tx_id_counter ex + 1) es ex'" "write_buffer ex' = []"
proof -
  obtain db where "st_begin_tx (env_store E) (tx_id_counter ex) (ex_db ex) = (Inr (), db)" "room db es ws"
    using begin_tx [OF assms(1)] by (auto simp: runs_def)
  then show thesis
    using that assms(2) by (simp add: exec_begin_def on_db_def view.in_tx_def sthen_def sbind_def)
qed

lemma exec_rollbackE:
  assumes "view.in_tx ws tx n es ex"
  obtains db where "execute E Rollback ex = (Inr ''Query OK, transaction rolled back.'',
      ex\<lparr>ex_db := db, write_buffer := [], in_transaction := False, current_tx_id := 0\<rparr>)" "room db es ws"
proof -
  have "room (ex_db ex) es ws" "in_transaction ex"
    using assms by (auto simp: view.in_tx_def)
  then obtain db where "st_rollback_tx (env_store E) (current_tx_id ex) (ex_db ex) = (Inr (), db)" "room db es ws"
    using rollback_tx [of "ex_db ex" es ws "current_tx_id ex"] by (auto simp: runs_def)
  then show thesis
    using that \<open>in_transaction ex\<close> by (simp add: exec_rollback_def on_db_def sthen_def sbind_def end_transaction_def)
qed

lemma rollback_spec:
  assumes "room (ex_db ex) es ws" "\<not> in_transaction ex" "list_all buffers sts"
  shows "\<exists>ex'. execute E Rollback (run_statements E (Begin # sts) ex) = (Inr ''Query OK, transaction rolled back.'', ex') \<and>
    room (ex_db ex') es ws \<and> \<not> in_transaction ex' \<and> write_buffer ex' = []"
proof -
  obtain ex1 where 1: "execute E Begin ex = (Inr ''Query OK, transaction started.'', ex1)"
    "view.in_tx ws (tx_id_counter ex) (tx_id_counter ex + 1) es ex1"
    using assms(1,2) by (rule exec_beginE)
  have "view.in_tx ws (tx_id_counter ex) (tx_id_counter ex + 1) es (run_statements E sts ex1)"
    using assms(3) 1(2) by (rule view.keeps_run)
  then obtain db where "execute E Rollback (run_statements E sts ex1) = (Inr ''Query OK, transaction rolled back.'',
      (run_statements E sts ex1)\<lparr>ex_db := db, write_buffer := [], in_transaction := False, current_tx_id := 0\<rparr>)" "room db es ws"
    by (rule exec_rollbackE)
  then show ?thesis
    using 1(1) by simp
qed

end

interpretation list_session: session_store "\<lparr>env_store = database_ops lru_list crc, env_json = J, env_md5 = md5\<rparr>"
  "db_holds lru_list lru_list_ok crc 0" for crc J md5
  by (rule session_store.intro) (simp add: list_store.is_store)

lemma lru_session:
  assumes "lru_cache L ok" "env_store E = database_ops L crc"
  shows "session_store E (db_holds L ok crc lsn)" and "session_reader E (db_logged L ok crc lsn h n log)"
  using lru_store [OF assms(1)] by (simp_all add: session_store_def session_reader_def assms(2))

lemma on_db_sthen: "sthen (on_db m) (on_db n) = on_db (sthen m n)"
  by (auto simp: fun_eq_iff on_db_def sthen_def sbind_def split: prod.splits sum.splits)

lemma play_puts:
  "for_each (play_entry E tx) (map (\<lambda>(k, v). (k, Some v)) ws) = on_db (for_each (\<lambda>(k, v). st_put_with_tx (env_store E) tx k v) ws)"
proof (induction ws)
  case Nil
  then show ?case by (simp add: on_db_def fun_eq_iff)
next
  case (Cons w ws)
  then show ?case by (cases w) (simp add: play_entry_def on_db_sthen)
qed

lemma map_of_rev_sorted:
  assumes "sorted_keys es" "(k, v) \<in> set es"
  shows "map_of (rev es) k = Some v"
proof -
  have "distinct (map fst (rev es))"
    using assms(1) strict_sorted_iff [of "map fst es"] by (simp flip: rev_map)
  then show ?thesis
    using assms(2) by simp
qed

section \<open>What a session sees\<close>

fun apply_entry :: "bytes \<times> bytes option \<Rightarrow> (bytes \<times> bytes) list \<Rightarrow> (bytes \<times> bytes) list" where
  "apply_entry (k, Some v) es = ins_entry k v es"
| "apply_entry (k, None) es = del_entry k es"

text \<open>The entries of the store with the write buffer over them.\<close>

definition ex_view :: "'s executor \<Rightarrow> (bytes \<times> bytes) list \<Rightarrow> (bytes \<times> bytes) list" where
  "ex_view ex es = (if in_transaction ex then fold apply_entry (write_buffer ex) es else es)"

lemma sorted_map_of_eq:
  assumes "sorted_keys as" "sorted_keys bs" "map_of as = map_of bs"
  shows "as = bs"
proof -
  have d: "sorted (map fst as)" "distinct (map fst as)" "sorted (map fst bs)" "distinct (map fst bs)"
    using assms(1,2) strict_sorted_iff by blast+
  then have "set as = set bs"
    using assms(3) by (metis map_of_inject_set)
  moreover have "inj_on fst (set as \<union> set bs)"
    using d(2) calculation by (simp add: distinct_map)
  ultimately show ?thesis
    using d map_sorted_distinct_set_unique by blast
qed

lemma map_of_filter_keys: "map_of (filter (\<lambda>e. P (fst e)) es) k = (if P k then map_of es k else None)"
  by (induction es) auto

lemma sorted_filter_keys: "sorted_keys es \<Longrightarrow> sorted_keys (filter P es)"
  by (induction es) auto

lemma filter_ins_entry:
  assumes "sorted_keys es"
  shows "filter (\<lambda>e. P (fst e)) (ins_entry k v es) =
    (if P k then ins_entry k v (filter (\<lambda>e. P (fst e)) es) else filter (\<lambda>e. P (fst e)) es)"
  using assms
  by (intro sorted_map_of_eq) (auto simp: sorted_ins_entry sorted_filter_keys map_of_ins_entry map_of_filter_keys fun_eq_iff)

lemma filter_del_entry:
  "filter (\<lambda>e. P (fst e)) (del_entry k es) =
    (if P k then del_entry k (filter (\<lambda>e. P (fst e)) es) else filter (\<lambda>e. P (fst e)) es)"
  by (auto simp: del_entry_def intro!: filter_cong)

lemma sorted_apply_entry: "sorted_keys es \<Longrightarrow> sorted_keys (apply_entry e es)"
  by (cases "(e, es)" rule: apply_entry.cases) (auto simp: sorted_ins_entry sorted_del_entry)

lemma sorted_apply: "sorted_keys es \<Longrightarrow> sorted_keys (fold apply_entry wb es)"
  by (induction wb arbitrary: es) (auto simp: sorted_apply_entry)

lemma map_of_apply_entry:
  "sorted_keys es \<Longrightarrow> map_of (apply_entry (k, vo) es) = (map_of es)(k := vo)"
  by (cases vo) (simp_all add: map_of_ins_entry map_of_del_entry)

lemma map_of_apply:
  "sorted_keys wb \<Longrightarrow> sorted_keys es \<Longrightarrow>
     map_of (fold apply_entry wb es) k = (case map_of wb k of Some vo \<Rightarrow> vo | None \<Rightarrow> map_of es k)"
proof (induction wb arbitrary: es)
  case (Cons e wb)
  obtain k' vo where e: "e = (k', vo)"
    by (cases e)
  have "map_of wb k' = None"
    using Cons.prems(1) by (auto simp: e map_of_eq_None_iff)
  then show ?case
    using Cons by (auto simp: e sorted_apply_entry map_of_apply_entry split: option.splits)
qed simp

lemma sorted_view: "sorted_keys es \<Longrightarrow> sorted_keys (ex_view ex es)"
  by (simp add: ex_view_def sorted_apply)

lemma ex_view_db: "ex_view (ex\<lparr>ex_db := db\<rparr>) es = ex_view ex es"
  by (simp add: ex_view_def)

lemma apply_ins:
  assumes "sorted_keys wb" "sorted_keys es"
  shows "fold apply_entry (ins_entry k vo wb) es = apply_entry (k, vo) (fold apply_entry wb es)"
  using assms
  by (intro sorted_map_of_eq)
    (auto simp: sorted_apply sorted_apply_entry sorted_ins_entry map_of_apply map_of_apply_entry map_of_ins_entry fun_eq_iff)

lemma overlay_apply:
  "sorted_keys es \<Longrightarrow> fold (overlay_entry pfx) wb (with_prefix pfx es) = with_prefix pfx (fold apply_entry wb es)"
proof (induction wb arbitrary: es)
  case (Cons e wb)
  obtain k vo where e: "e = (k, vo)"
    by (cases e)
  have "overlay_entry pfx e (with_prefix pfx es) = with_prefix pfx (apply_entry e es)"
    using Cons.prems by (cases vo) (auto simp: e overlay_entry_def filter_ins_entry filter_del_entry)
  then show ?case
    using Cons by (simp add: sorted_apply_entry)
qed simp

lemma ins_entry_last: "\<forall>x\<in>fst ` set es. x < k \<Longrightarrow> ins_entry k v es = es @ [(k, v)]"
  by (induction es) auto

lemma fold_ins_sorted: "sorted_keys (as @ es) \<Longrightarrow> fold (\<lambda>(k, v). ins_entry k v) es as = as @ es"
proof (induction es arbitrary: as)
  case (Cons e es)
  obtain k v where e: "e = (k, v)"
    by (cases e)
  have "ins_entry k v as = as @ [(k, v)]"
    using Cons.prems by (intro ins_entry_last) (auto simp: e sorted_wrt_append)
  then show ?case
    using Cons.IH [of "as @ [(k, v)]"] Cons.prems by (simp add: e)
qed simp

context session_reader
begin

lemma on_dbE:
  assumes "m (ex_db ex) = (r, db)"
  shows "on_db m ex = (r, ex\<lparr>ex_db := db\<rparr>)"
  by (simp add: on_db_def assms)

lemma ex_getE:
  assumes "holds (ex_db ex) es"
  obtains db where "on_db (st_get (env_store E) k) ex = (Inr (map_of es k), ex\<lparr>ex_db := db\<rparr>)" "holds db es"
  using getE [OF assms, of k] on_dbE by metis

lemma ex_scanE:
  assumes "holds (ex_db ex) es"
  obtains db where "on_db (st_scan_prefix (env_store E) k) ex = (Inr (with_prefix k es), ex\<lparr>ex_db := db\<rparr>)" "holds db es"
  using scanE [OF assms, of k] on_dbE by metis

lemma ex_schemaE:
  assumes "holds (ex_db ex) es"
  obtains db where "on_db (get_table_schema (env_store E) J sc t) ex = (catalog_lookup J es sc t, ex\<lparr>ex_db := db\<rparr>)" "holds db es"
  using get_table_schemaE [OF assms, of J sc t] on_dbE by metis

text \<open>The session reads the entries it sees.\<close>

lemma key_existsE:
  assumes "holds (ex_db ex) es" "sorted_keys (write_buffer ex)"
  obtains db where "key_exists E k ex = (Inr (map_of (ex_view ex es) k \<noteq> None), ex\<lparr>ex_db := db\<rparr>)" "holds db es"
proof -
  obtain db where db: "on_db (st_get (env_store E) k) ex = (Inr (map_of es k), ex\<lparr>ex_db := db\<rparr>)" "holds db es"
    using assms(1) by (rule ex_getE)
  have "map_of (ex_view ex es) k = (case (if in_transaction ex then map_of (write_buffer ex) k else None) of
      Some vo \<Rightarrow> vo | None \<Rightarrow> map_of es k)"
    using assms sorted by (simp add: ex_view_def map_of_apply)
  then show thesis
    using that [of db] that [of "ex_db ex"] db assms(1) by (auto simp: key_exists_def split: option.splits if_splits)
qed

lemma get_schema_bytesE:
  assumes "holds (ex_db ex) es" "sorted_keys (write_buffer ex)"
  obtains db where "get_schema_bytes E t ex = (Inr (map_of (ex_view ex es) (as_bytes (legacy_key t))), ex\<lparr>ex_db := db\<rparr>)"
    "holds db es"
proof -
  let ?k = "as_bytes (legacy_key t)"
  obtain db where db: "on_db (st_get (env_store E) ?k) ex = (Inr (map_of es ?k), ex\<lparr>ex_db := db\<rparr>)" "holds db es"
    using assms(1) by (rule ex_getE)
  have "map_of (ex_view ex es) ?k = (case (if in_transaction ex then map_of (write_buffer ex) ?k else None) of
      Some vo \<Rightarrow> vo | None \<Rightarrow> map_of es ?k)"
    using assms sorted by (simp add: ex_view_def map_of_apply)
  then show thesis
    using that [of db] that [of "ex_db ex"] db assms(1)
    by (auto simp: get_schema_bytes_def Let_def split: option.splits if_splits)
qed

lemma table_columnsE:
  assumes "holds (ex_db ex) es" "sorted_keys (write_buffer ex)"
    "map_of (ex_view ex es) (as_bytes (legacy_key t)) = Some sb" "from_utf8 sb = Inr schema"
  obtains db where "table_columns E t shown ex = (Inr (extract_col_names schema), ex\<lparr>ex_db := db\<rparr>)" "holds db es"
proof -
  obtain db where "get_schema_bytes E t ex = (Inr (Some sb), ex\<lparr>ex_db := db\<rparr>)" "holds db es"
    using get_schema_bytesE [OF assms(1,2), of t] assms(3) by auto
  then show thesis
    using that assms(4) by (simp add: table_columns_def ok_or_else_def ok_or_def)
qed

lemma scan_table_rowsE:
  assumes "holds (ex_db ex) es" "parse_qualified_table_name t = (sc, t')" "catalog_lookup (env_json E) es sc t' = Inr cat"
  obtains db where "scan_table_rows E t ex = (decode_rows cat (with_prefix (as_bytes (t @ '':'')) (ex_view ex es)), ex\<lparr>ex_db := db\<rparr>)"
    "holds db es"
proof -
  define p where "p = t @ '':''"
  let ?pfx = "as_bytes p"
  obtain db1 where 1: "on_db (st_scan_prefix (env_store E) ?pfx) ex = (Inr (with_prefix ?pfx es), ex\<lparr>ex_db := db1\<rparr>)" "holds db1 es"
    using assms(1) by (rule ex_scanE)
  obtain db2 where 2: "on_db (get_table_schema (env_store E) (env_json E) sc t') (ex\<lparr>ex_db := db1\<rparr>) =
      (Inr cat, ex\<lparr>ex_db := db2\<rparr>)" "holds db2 es"
    using ex_schemaE [of "ex\<lparr>ex_db := db1\<rparr>" es "env_json E" sc t'] 1(2) assms(3) by auto
  have es: "sorted_keys es"
    using assms(1) by (rule sorted)
  then have rows: "fold (\<lambda>(k, v). ins_entry k v) (with_prefix ?pfx es) [] = with_prefix ?pfx es"
    using fold_ins_sorted [of "[]" "with_prefix ?pfx es"] by (simp add: sorted_filter_keys)
  have "scan_table_rows E t ex = (decode_rows cat (with_prefix ?pfx (ex_view ex es)), ex\<lparr>ex_db := db2\<rparr>)"
    using 1(1) 2(1) overlay_apply [OF es, of ?pfx]
    by (cases "in_transaction ex")
      (simp_all add: scan_table_rows_def p_def [symmetric] Let_def rows assms(2) ex_view_def del: map_append)
  with 2(2) show thesis
    unfolding p_def by (intro that)
qed

end

section \<open>Queries\<close>

definition find_col :: "string list \<Rightarrow> string \<Rightarrow> string \<Rightarrow> nat res" where
  "find_col cols c aft = ok_or (column_index cols c) (''Column '' @ quoted c @ '' not found'' @ aft)"

text \<open>What a SELECT means: keep the matching rows, sort them, cut out a slice.\<close>

definition where_rows :: "string list \<Rightarrow> (string \<times> string) option \<Rightarrow> row list \<Rightarrow> row list res" where
  "where_rows cols where_clause rows =
     (case where_clause of
        None \<Rightarrow> Inr rows
      | Some (c, v) \<Rightarrow> rbind (find_col cols c []) (\<lambda>i. Inr (filter (\<lambda>r. i < length r \<and> r ! i = v) rows)))"

definition order_rows :: "string list \<Rightarrow> (string \<times> bool) option \<Rightarrow> row list \<Rightarrow> row list res" where
  "order_rows cols order_by rows =
     (case order_by of
        None \<Rightarrow> Inr rows
      | Some (c, is_desc) \<Rightarrow> rbind (find_col cols c '' for ORDER BY'') (\<lambda>i. Inr (sort_by (row_cmp i is_desc) rows)))"

definition slice_rows :: "(nat \<times> nat) option \<Rightarrow> row list \<Rightarrow> row list" where
  "slice_rows limit_offset rows = (case limit_offset of None \<Rightarrow> rows | Some (l, off) \<Rightarrow> take l (drop off rows))"

definition select_rows :: "string list \<Rightarrow> (string \<times> string) option \<Rightarrow> (string \<times> bool) option \<Rightarrow> (nat \<times> nat) option \<Rightarrow>
    row list \<Rightarrow> row list res" where
  "select_rows cols where_clause order_by limit_offset rows =
     rbind (where_rows cols where_clause rows) (\<lambda>matching.
     rbind (order_rows cols order_by matching) (\<lambda>ordered. Inr (slice_rows limit_offset ordered)))"

text \<open>A table name without a schema in front.\<close>

definition plain_name :: "string \<Rightarrow> bool" where
  "plain_name t \<longleftrightarrow> CHR ''.'' \<notin> set t \<and> trim t = t"

lemma plain_qualified:
  assumes "plain_name t"
  shows "parse_qualified_table_name t = (DEFAULT_SCHEMA, t)"
proof -
  have "position (\<lambda>d. d = CHR ''.'') t = None" "trim t = t"
    using assms by (auto simp: plain_name_def position_None)
  then show ?thesis
    by (simp add: parse_qualified_table_name_def find_char_def)
qed

lemma lower_dot: "ascii_lower c = CHR ''.'' \<longleftrightarrow> c = CHR ''.''"
proof (cases c)
  case (Char b0 b1 b2 b3 b4 b5 b6 b7)
  have "\<not> b0 \<and> b1 \<and> b2 \<and> b3 \<and> \<not> b4 \<and> b5 \<and> \<not> b6 \<and> \<not> b7" if "ascii_lower c = CHR ''.''"
    using that unfolding Char ascii_lower.simps
    by (cases b5) (simp_all only: char.inject if_distrib split: if_splits, simp_all)
  then show ?thesis
    by (auto simp: Char)
qed

lemma plain_not_information_schema:
  assumes "plain_name t"
  shows "\<not> is_information_schema what DEFAULT_SCHEMA t"
proof
  assume "is_information_schema what DEFAULT_SCHEMA t"
  then have "to_lowercase t = to_lowercase (''information_schema.'' @ what)"
    by (simp add: is_information_schema_def eq_ignore_case_def DEFAULT_SCHEMA_def)
  moreover have "CHR ''.'' \<in> set (to_lowercase (''information_schema.'' @ what))"
    by simp
  ultimately have "CHR ''.'' \<in> set (to_lowercase t)"
    by (simp only:)
  then obtain c where "c \<in> set t" "ascii_lower c = CHR ''.''"
    unfolding set_map by (metis imageE)
  then show False
    using assms by (simp add: plain_name_def lower_dot)
qed

context session_reader
begin

lemma filtered_rows:
  "(\<exists>e. filtered cols wc p ex = (Inl e, ex) \<and> where_rows cols wc (query_rows p) = Inl e) \<or>
   (\<exists>q. filtered cols wc p ex = (Inr q, ex) \<and> where_rows cols wc (query_rows p) = Inr (query_rows q))"
proof (cases wc)
  case (Some cv)
  have "query_rows (filter_new p i v) = filter (\<lambda>r. i < length r \<and> r ! i = v) (query_rows p)" for i v
    by (simp add: filter_new_def filter_matches_def [abs_def])
  then show ?thesis
    by (cases cv; cases "column_index cols (fst cv)")
      (simp_all add: Some filtered_def where_rows_def find_col_def column_of_def ok_or_else_def ok_or_def)
qed (simp add: filtered_def where_rows_def)

lemma ordered_rows:
  "(\<exists>e. ordered cols ob p ex = (Inl e, ex) \<and> order_rows cols ob (query_rows p) = Inl e) \<or>
   (\<exists>q. ordered cols ob p ex = (Inr q, ex) \<and> order_rows cols ob (query_rows p) = Inr (query_rows q))"
proof (cases ob)
  case (Some cv)
  have "query_rows (sort_new p i b) = sort_by (row_cmp i b) (query_rows p)" for i b
    by (simp add: sort_new_def)
  then show ?thesis
    by (cases cv; cases "column_index cols (fst cv)")
      (simp_all add: Some ordered_def order_rows_def find_col_def column_of_def ok_or_else_def ok_or_def)
qed (simp add: ordered_def order_rows_def)

lemma select_plan:
  "sbind (filtered cols wc (seq_scan_new rows)) (\<lambda>filtered_op.
        sbind (ordered cols ob filtered_op) (\<lambda>sorted_op.
        let p = (case lim of None \<Rightarrow> sorted_op | Some (limit, offset) \<Rightarrow> limit_offset_new sorted_op (Some limit) offset)
        in ret (format_table_output cols (fst (plan_run p))))) ex =
   (rbind (select_rows cols wc ob lim rows) (\<lambda>rs. Inr (format_table_output cols rs)), ex)"
proof -
  have scan: "query_rows (seq_scan_new rows) = rows"
    by (simp add: seq_scan_new_def)
  have limit: "query_rows (case lim of None \<Rightarrow> q | Some (l, off) \<Rightarrow> limit_offset_new q (Some l) off) = slice_rows lim (query_rows q)" for q
    by (cases lim) (auto simp: slice_rows_def limit_offset_new_def limit_rows_def)
  show ?thesis
    using filtered_rows [of cols wc "seq_scan_new rows" ex, unfolded scan]
  proof (elim disjE exE conjE)
    fix q
    assume 1: "filtered cols wc (seq_scan_new rows) ex = (Inr q, ex)" "where_rows cols wc rows = Inr (query_rows q)"
    show ?thesis
      using ordered_rows [of cols ob q ex] 1
      by (elim disjE exE conjE) (simp_all add: select_rows_def run_rows limit)
  qed (simp add: select_rows_def)
qed

lemma select_spec:
  assumes "holds (ex_db ex) es" "sorted_keys (write_buffer ex)" "plain_name t"
    "map_of (ex_view ex es) (as_bytes (legacy_key t)) = Some sb" "from_utf8 sb = Inr schema"
    "catalog_lookup (env_json E) es DEFAULT_SCHEMA t = Inr cat"
    "decode_rows cat (with_prefix (as_bytes (t @ '':'')) (ex_view ex es)) = Inr rows"
    "\<And>c v. wc = Some (c, v) \<Longrightarrow> map_of es (as_bytes (sec_key t c v)) = None"
  obtains db where "execute E (Select t wc ob lim) ex =
      (rbind (select_rows (extract_col_names schema) wc ob lim rows) (\<lambda>rs. Inr (format_table_output (extract_col_names schema) rs)),
       ex\<lparr>ex_db := db\<rparr>)" "holds db es"
proof -
  let ?cols = "extract_col_names schema"
  note name = plain_qualified [OF assms(3)]
  obtain db1 where 1: "table_columns E t t ex = (Inr ?cols, ex\<lparr>ex_db := db1\<rparr>)" "holds db1 es"
    using assms(1,2,4,5) by (rule table_columnsE)
  have "\<exists>db. index_scan E t wc (ex\<lparr>ex_db := db1\<rparr>) = (Inr None, ex\<lparr>ex_db := db\<rparr>) \<and> holds db es"
  proof (cases wc)
    case None
    then show ?thesis using 1(2) by (auto simp: index_scan_def intro!: exI [of _ db1])
  next
    case (Some cv)
    obtain c v where cv: "cv = (c, v)" by (cases cv)
    obtain db where "ex_get E (sec_key t c v) (ex\<lparr>ex_db := db1\<rparr>) = (Inr None, ex\<lparr>ex_db := db\<rparr>)" "holds db es"
      using ex_getE [of "ex\<lparr>ex_db := db1\<rparr>" es "as_bytes (sec_key t c v)"] 1(2) assms(8) [of c v] Some cv by auto
    then show ?thesis by (auto simp: index_scan_def Some cv)
  qed
  then obtain db2 where 2: "index_scan E t wc (ex\<lparr>ex_db := db1\<rparr>) = (Inr None, ex\<lparr>ex_db := db2\<rparr>)" "holds db2 es"
    by blast
  have "holds (ex_db (ex\<lparr>ex_db := db2\<rparr>)) es"
    using 2(2) by simp
  then obtain db3 where "scan_table_rows E t (ex\<lparr>ex_db := db2\<rparr>) =
      (decode_rows cat (with_prefix (as_bytes (t @ '':'')) (ex_view (ex\<lparr>ex_db := db2\<rparr>) es)), ex\<lparr>ex_db := db2, ex_db := db3\<rparr>)"
    and db3: "holds db3 es"
    using name assms(6) by (rule scan_table_rowsE)
  then have 3: "scan_table_rows E t (ex\<lparr>ex_db := db2\<rparr>) = (Inr rows, ex\<lparr>ex_db := db3\<rparr>)"
    unfolding ex_view_db assms(7) by simp
  have "execute E (Select t wc ob lim) ex =
      (rbind (select_rows ?cols wc ob lim rows) (\<lambda>rs. Inr (format_table_output ?cols rs)), ex\<lparr>ex_db := db3\<rparr>)"
    using 1(1) 2(1) 3 select_plan [of ?cols wc rows ob lim "ex\<lparr>ex_db := db3\<rparr>"]
    by (simp add: exec_select_def name plain_not_information_schema [OF assms(3)])
  with db3 show thesis
    by (intro that)
qed

end

end
