(* ===== verification/Tables.thy ===== *)
theory Tables
  imports Sessions
begin

text \<open>
  Tables: what \<open>INSERT\<close> does to the entries a session sees, and what \<open>SELECT\<close> prints of them,
  inside and outside a transaction. A table is a sorted map from row keys to rows.
\<close>

section \<open>Insertions\<close>

text \<open>
  The session stands for the entries \<open>vs\<close> and there is room for the puts \<open>ws\<close>; inside a
  transaction these go to the buffer.
\<close>

definition sees :: "('s \<Rightarrow> (key \<times> bytes) list \<Rightarrow> (key \<times> bytes) list \<Rightarrow> bool) \<Rightarrow> 's executor \<Rightarrow>
    (key \<times> bytes) list \<Rightarrow> (key \<times> bytes) list \<Rightarrow> (key \<times> bytes) list \<Rightarrow> bool" where
  "sees room ex es vs ws \<longleftrightarrow> sorted_keys (write_buffer ex) \<and> vs = ex_view ex es \<and>
     (if in_transaction ex then \<exists>ws'. room (ex_db ex) es ws' else room (ex_db ex) es ws)"

text \<open>Catalog and index entries have keys with two underscores in front, rows have not.\<close>

definition meta :: "(key \<times> bytes) list \<Rightarrow> (key \<times> bytes) list" where
  "meta es = with_prefix (as_bytes RESERVED_PREFIX) es"

lemma meta_map_of:
  assumes "prefix (as_bytes RESERVED_PREFIX) k" "meta es = meta es'"
  shows "map_of es k = map_of es' k"
proof -
  have "map_of (meta es) k = map_of (meta es') k"
    using assms(2) by simp
  then show ?thesis
    using assms(1) by (simp add: meta_def map_of_filter_keys)
qed

lemma prefix_bytes: "prefix (as_bytes s) (as_bytes t) \<longleftrightarrow> prefix s t"
proof
  assume "prefix (as_bytes s) (as_bytes t)"
  from map_mono_prefix [OF this, of char_at] show "prefix s t"
    by simp
qed (rule map_mono_prefix)

lemma reserved_keys:
  "prefix (as_bytes RESERVED_PREFIX) (as_bytes (legacy_key t))"
  "prefix (as_bytes RESERVED_PREFIX) (as_bytes (table_key sc t))"
  "prefix (as_bytes RESERVED_PREFIX) (as_bytes (index_prefix t))"
  unfolding prefix_bytes by (simp_all add: RESERVED_PREFIX_def legacy_key_def table_key_def index_prefix_def)

lemma row_key_not_reserved:
  assumes "\<not> prefix RESERVED_PREFIX t"
  shows "\<not> prefix (as_bytes RESERVED_PREFIX) (row_key t pk)"
  unfolding row_key_def prefix_bytes
  using assms by (cases t rule: remdups_adj.cases) (auto simp: RESERVED_PREFIX_def)

lemma catalog_lookup_meta: "meta es = meta es' \<Longrightarrow> catalog_lookup J es sc t = catalog_lookup J es' sc t"
  using meta_map_of [OF reserved_keys(1), of es es' t] meta_map_of [OF reserved_keys(2), of es es' sc t]
  by (simp add: catalog_lookup_def split: option.split)

lemma filter_prefix_prefix: "prefix p q \<Longrightarrow> with_prefix q (with_prefix p es) = with_prefix q es"
  by (auto intro!: filter_cong dest: prefix_order.trans)

lemma index_meta: "meta es = meta es' \<Longrightarrow> with_prefix (as_bytes (index_prefix t)) es = with_prefix (as_bytes (index_prefix t)) es'"
  using filter_prefix_prefix [OF reserved_keys(3)] unfolding meta_def by metis

lemma meta_ins_entry: "sorted_keys es \<Longrightarrow> \<not> prefix (as_bytes RESERVED_PREFIX) k \<Longrightarrow> meta (ins_entry k v es) = meta es"
  unfolding meta_def by (simp add: filter_ins_entry)

text \<open>The write buffer after some puts.\<close>

definition buffer_puts :: "'s executor \<Rightarrow> (key \<times> bytes) list \<Rightarrow> (key \<times> bytes option) list" where
  "buffer_puts ex ws =
     (if in_transaction ex then fold (\<lambda>(k, v). ins_entry k (Some v)) ws (write_buffer ex) else write_buffer ex)"

context session_store
begin

abbreviation "ex_sees \<equiv> sees room"

lemma seesD:
  assumes "ex_sees ex es vs ws"
  obtains ws' where "room (ex_db ex) es ws'" "sorted_keys (write_buffer ex)" "vs = ex_view ex es" "sorted_keys es"
    "\<not> in_transaction ex \<longrightarrow> ws' = ws"
  using assms reads.sorted unfolding sees_def by (metis (full_types))

lemma sees_db:
  "ex_sees ex es vs ws \<Longrightarrow> \<not> in_transaction ex \<longrightarrow> ws' = ws \<Longrightarrow> room db es ws' \<Longrightarrow> ex_sees (ex\<lparr>ex_db := db\<rparr>) es vs ws"
  by (auto simp: sees_def ex_view_db)

lemma write_entry_spec:
  assumes "ex_sees ex es vs ((k, v) # ws)"
  shows "\<exists>ex' es'. write_entry E k v ex = (Inr (), ex') \<and> ex_sees ex' es' (ins_entry k v vs) ws \<and>
    es' = (if in_transaction ex then es else ins_entry k v es) \<and> in_transaction ex' = in_transaction ex \<and> active_tx ex' = active_tx ex \<and>
    write_buffer ex' = buffer_puts ex [(k, v)]"
proof (cases "in_transaction ex")
  case True
  obtain ws' where "room (ex_db ex) es ws'" "sorted_keys (write_buffer ex)" "vs = ex_view ex es" "sorted_keys es"
    using assms by (rule seesD)
  then show ?thesis
    using True apply_ins [of "write_buffer ex" es k "Some v"]
    by (auto simp: write_entry_def sees_def ex_view_def active_tx_def sorted_ins_entry buffer_puts_def)
next
  case False
  then have "room (ex_db ex) es ((k, v) # ws)" "vs = es" "sorted_keys (write_buffer ex)"
    using assms by (auto simp: sees_def ex_view_def)
  then obtain db where "st_put (env_store E) k v (ex_db ex) = (Inr (), db)" "room db (ins_entry k v es) ws"
    using putE by metis
  then show ?thesis
    using False \<open>vs = es\<close> \<open>sorted_keys (write_buffer ex)\<close>
    by (auto simp: write_entry_def sees_def ex_view_def active_tx_def on_db_def buffer_puts_def)
qed

lemma insert_row_spec:
  fixes ex :: "'s executor"
  defines "tx \<equiv> active_tx ex"
  assumes sees: "ex_sees ex es vs ((row_key t (hd r), encode_values_mvcc r tx 0) # ws)"
    and check: "check_values cat cols vals = Inr r" and new: "map_of vs (row_key t (hd r)) = None"
    and index: "with_prefix (as_bytes (index_prefix t)) es = []" and name: "\<not> prefix RESERVED_PREFIX t"
  shows "\<exists>ex' es'. insert_row E t cols cat vals ex = (Inr (), ex') \<and>
    ex_sees ex' es' (ins_entry (row_key t (hd r)) (encode_values_mvcc r tx 0) vs) ws \<and> meta es' = meta es \<and> active_tx ex' = tx \<and>
    in_transaction ex' = in_transaction ex \<and> write_buffer ex' = buffer_puts ex [(row_key t (hd r), encode_values_mvcc r tx 0)]"
proof -
  let ?k = "row_key t (hd r)" and ?v = "encode_values_mvcc r tx 0"
  obtain ws1 where 1: "room (ex_db ex) es ws1" "sorted_keys (write_buffer ex)" "vs = ex_view ex es" "sorted_keys es"
    "\<not> in_transaction ex \<longrightarrow> ws1 = (?k, ?v) # ws"
    using sees by (rule seesD)
  obtain db2 where 2: "key_exists E ?k ex = (Inr False, ex\<lparr>ex_db := db2\<rparr>)" "room db2 es ws1"
    using view.key_existsE [OF 1(1,2), of ?k] new 1(3) by auto
  have "ex_sees (ex\<lparr>ex_db := db2\<rparr>) es vs ((?k, ?v) # ws)"
    using sees 1(5) 2(2) by (rule sees_db)
  from write_entry_spec [OF this] obtain ex3 es3 where 3: "write_entry E ?k ?v (ex\<lparr>ex_db := db2\<rparr>) = (Inr (), ex3)"
    "ex_sees ex3 es3 (ins_entry ?k ?v vs) ws" "es3 = (if in_transaction ex then es else ins_entry ?k ?v es)"
    "active_tx ex3 = tx" "in_transaction ex3 = in_transaction ex" "write_buffer ex3 = buffer_puts ex [(?k, ?v)]"
    by (auto simp: tx_def active_tx_def buffer_puts_def)
  have meta: "meta es3 = meta es"
    using meta_ins_entry [OF 1(4) row_key_not_reserved [OF name]] by (simp add: 3(3))
  obtain ws3 where ws3: "room (ex_db ex3) es3 ws3" "\<not> in_transaction ex3 \<longrightarrow> ws3 = ws"
    using 3(2) by (rule seesD)
  obtain db4 where 4: "ex_scan E (index_prefix t) ex3 = (Inr [], ex3\<lparr>ex_db := db4\<rparr>)" "room db4 es3 ws3"
    using view.ex_scanE [OF ws3(1), of "as_bytes (index_prefix t)"] index index_meta [OF meta] by auto
  have sync: "sync_secondary_indexes_on_insert E t cols r (hd r) cat ex3 = (Inr (), ex3\<lparr>ex_db := db4\<rparr>)"
    using 4(1) by (simp add: sync_secondary_indexes_on_insert_def)
  have "active_tx (ex\<lparr>ex_db := db2\<rparr>) = tx"
    by (simp add: tx_def active_tx_def)
  then have "insert_row E t cols cat vals ex = (Inr (), ex3\<lparr>ex_db := db4\<rparr>)"
    using 3(1) sync by (simp add: insert_row_def check Let_def sbind_Inr [where m = "key_exists E ?k" and s = ex, OF 2(1)])
  moreover have "ex_sees (ex3\<lparr>ex_db := db4\<rparr>) es3 (ins_entry ?k ?v vs) ws"
    using 3(2) ws3(2) 4(2) by (rule sees_db)
  ultimately show ?thesis
    using meta 3(4-6) by (auto simp: active_tx_def)
qed

end

text \<open>The entries of rows to insert.\<close>

definition row_puts :: "string \<Rightarrow> u64 \<Rightarrow> row list \<Rightarrow> (key \<times> bytes) list" where
  "row_puts t tx rows = map (\<lambda>r. (row_key t (hd r), encode_values_mvcc r tx 0)) rows"

lemma row_key_eq [simp]: "row_key t p = row_key t q \<longleftrightarrow> p = q"
  by (auto simp: row_key_def dest: map_injective [OF _ injI [of byte_of]])

context session_store
begin

lemma insert_rows_spec:
  assumes "ex_sees ex es vs (row_puts t (active_tx ex) rows @ ws)" "\<not> prefix RESERVED_PREFIX t"
    "list_all2 (\<lambda>vals r. check_values cat cols vals = Inr r) values_list rows" "distinct (map hd rows)"
    "\<forall>r\<in>set rows. map_of vs (row_key t (hd r)) = None" "with_prefix (as_bytes (index_prefix t)) es = []"
  shows "\<exists>ex' es'. for_each (insert_row E t cols cat) values_list ex = (Inr (), ex') \<and>
    ex_sees ex' es' (fold (\<lambda>(k, v). ins_entry k v) (row_puts t (active_tx ex) rows) vs) ws \<and> meta es' = meta es \<and>
    write_buffer ex' = buffer_puts ex (row_puts t (active_tx ex) rows)"
  using assms
proof (induction rows arbitrary: values_list ex es vs)
  case Nil
  then show ?case by (auto simp: row_puts_def buffer_puts_def)
next
  case (Cons r rows)
  obtain vals values_list' where v: "values_list = vals # values_list'" "check_values cat cols vals = Inr r"
    "list_all2 (\<lambda>vals r. check_values cat cols vals = Inr r) values_list' rows"
    using Cons.prems(3) by (auto simp: list_all2_Cons2)
  let ?tx = "active_tx ex"
  let ?k = "row_key t (hd r)" and ?v = "encode_values_mvcc r ?tx 0"
  have "ex_sees ex es vs ((?k, ?v) # row_puts t ?tx rows @ ws)"
    using Cons.prems(1) by (simp add: row_puts_def)
  moreover have "map_of vs ?k = None"
    using Cons.prems(5) by simp
  ultimately obtain ex1 es1 where 1: "insert_row E t cols cat vals ex = (Inr (), ex1)"
    "ex_sees ex1 es1 (ins_entry ?k ?v vs) (row_puts t ?tx rows @ ws)" "meta es1 = meta es" "active_tx ex1 = ?tx"
    "in_transaction ex1 = in_transaction ex" "write_buffer ex1 = buffer_puts ex [(?k, ?v)]"
    using insert_row_spec [OF _ v(2) _ Cons.prems(6,2)] by blast
  have "sorted_keys vs"
    using Cons.prems(1) by (rule seesD) (auto simp: sorted_view)
  moreover have "hd r' \<noteq> hd r" if "r' \<in> set rows" for r'
    using Cons.prems(4) imageI [OF that, of hd] by auto
  ultimately have "\<forall>r'\<in>set rows. map_of (ins_entry ?k ?v vs) (row_key t (hd r')) = None"
    using Cons.prems(5) by (simp add: map_of_ins_entry)
  then obtain ex2 es2 where "for_each (insert_row E t cols cat) values_list' ex1 = (Inr (), ex2)"
    "ex_sees ex2 es2 (fold (\<lambda>(k, v). ins_entry k v) (row_puts t ?tx rows) (ins_entry ?k ?v vs)) ws" "meta es2 = meta es1"
    "write_buffer ex2 = buffer_puts ex1 (row_puts t ?tx rows)"
    using Cons.IH [of ex1 es1 "ins_entry ?k ?v vs" values_list'] 1(2,4) Cons.prems(2,4,6) v(3) index_meta [OF 1(3)] by auto
  then show ?case
    using 1(1,3,5,6) by (auto simp: v(1) row_puts_def buffer_puts_def)
qed

lemma exec_insert_spec:
  assumes sees: "ex_sees ex es vs (row_puts t (active_tx ex) rows @ ws)" and name: "\<not> prefix RESERVED_PREFIX t" "plain_name t"
    and schema: "map_of vs (as_bytes (legacy_key t)) = Some sb" "from_utf8 sb = Inr schema"
    and cat: "catalog_lookup (env_json E) es DEFAULT_SCHEMA t = Inr cat"
    and rows: "list_all2 (\<lambda>vals r. check_values cat (extract_col_names schema) vals = Inr r) values_list rows" "distinct (map hd rows)"
    "\<forall>r\<in>set rows. map_of vs (row_key t (hd r)) = None" and index: "with_prefix (as_bytes (index_prefix t)) es = []"
  shows "\<exists>ex' es'. execute E (Insert t values_list) ex = (Inr (rows_message (length rows) ''inserted''), ex') \<and>
    ex_sees ex' es' (fold (\<lambda>(k, v). ins_entry k v) (row_puts t (active_tx ex) rows) vs) ws \<and> meta es' = meta es \<and>
    write_buffer ex' = buffer_puts ex (row_puts t (active_tx ex) rows)"
proof -
  let ?ws = "row_puts t (active_tx ex) rows @ ws" and ?cols = "extract_col_names schema"
  obtain ws1 where 1: "room (ex_db ex) es ws1" "sorted_keys (write_buffer ex)" "vs = ex_view ex es" "\<not> in_transaction ex \<longrightarrow> ws1 = ?ws"
    using sees by (rule seesD)
  obtain db2 where 2: "table_columns E t t ex = (Inr ?cols, ex\<lparr>ex_db := db2\<rparr>)" "room db2 es ws1"
    using 1(1,2) schema(1) [unfolded 1(3)] schema(2) by (rule view.table_columnsE)
  obtain db3 where 3: "on_db (get_table_schema (env_store E) (env_json E) DEFAULT_SCHEMA t) (ex\<lparr>ex_db := db2\<rparr>) =
      (Inr cat, ex\<lparr>ex_db := db3\<rparr>)" "room db3 es ws1"
    using view.ex_schemaE [of "ex\<lparr>ex_db := db2\<rparr>" es ws1 "env_json E" DEFAULT_SCHEMA t] 2(2) cat by auto
  have tx: "active_tx (ex\<lparr>ex_db := db3\<rparr>) = active_tx ex"
    by (simp add: active_tx_def)
  have "ex_sees (ex\<lparr>ex_db := db3\<rparr>) es vs (row_puts t (active_tx (ex\<lparr>ex_db := db3\<rparr>)) rows @ ws)"
    unfolding tx using sees 1(4) 3(2) by (rule sees_db)
  from insert_rows_spec [OF this name(1) rows index, unfolded tx]
  obtain ex' es' where "for_each (insert_row E t ?cols cat) values_list (ex\<lparr>ex_db := db3\<rparr>) = (Inr (), ex')"
    "ex_sees ex' es' (fold (\<lambda>(k, v). ins_entry k v) (row_puts t (active_tx ex) rows) vs) ws" "meta es' = meta es"
    "write_buffer ex' = buffer_puts ex (row_puts t (active_tx ex) rows)"
    by (auto simp: buffer_puts_def)
  then show ?thesis
    using 2(1) 3(1) list_all2_lengthD [OF rows(1)] by (auto simp: exec_insert_def plain_qualified [OF name(2)])
qed

end

text \<open>A table as a map from keys to rows.\<close>

definition stores :: "string \<Rightarrow> (key \<times> bytes) list \<Rightarrow> (key \<times> row) list \<Rightarrow> bool" where
  "stores t vs tab \<longleftrightarrow>
     list_all2 (\<lambda>e f. fst e = fst f \<and> decode_values (snd e) = Inr (snd f)) (with_prefix (as_bytes (t @ '':'')) vs) tab"

definition table_insert :: "string \<Rightarrow> row list \<Rightarrow> (key \<times> row) list \<Rightarrow> (key \<times> row) list" where
  "table_insert t rows tab = fold (\<lambda>r. ins_entry (row_key t (hd r)) r) rows tab"

lemma stores_decode:
  assumes "stores t vs tab"
  shows "decode_rows cat (with_prefix (as_bytes (t @ '':'')) vs) = Inr (map (\<lambda>e. pad_row cat (snd e)) tab)"
  using assms unfolding stores_def
proof (induction rule: list_all2_induct)
  case (Cons e es f fs)
  then show ?case by (cases e) simp
qed simp

lemma list_all2_ins_entry:
  assumes "list_all2 (\<lambda>e f. fst e = fst f \<and> P (snd e) (snd f)) as bs" "P v w"
  shows "list_all2 (\<lambda>e f. fst e = fst f \<and> P (snd e) (snd f)) (ins_entry k v as) (ins_entry k w bs)"
  using assms
proof (induction rule: list_all2_induct)
  case (Cons e es f fs)
  then show ?case by (cases e; cases f) auto
qed simp

lemma stores_insert:
  "sorted_keys vs \<Longrightarrow> stores t vs tab \<Longrightarrow> \<forall>r\<in>set rows. row_ok r \<Longrightarrow>
     stores t (fold (\<lambda>(k, v). ins_entry k v) (row_puts t tx rows) vs) (table_insert t rows tab)"
proof (induction rows arbitrary: vs tab)
  case Nil
  then show ?case by (simp add: row_puts_def table_insert_def)
next
  case (Cons r rows)
  let ?k = "row_key t (hd r)" and ?v = "encode_values_mvcc r tx 0"
  have "prefix (as_bytes (t @ '':'')) ?k"
    by (simp add: row_key_def)
  then have "stores t (ins_entry ?k ?v vs) (ins_entry ?k r tab)"
    using Cons.prems list_all2_ins_entry [of "\<lambda>v r. decode_values v = Inr r" _ tab ?v r ?k] unfolding stores_def
    by (simp add: filter_ins_entry)
  then show ?case
    using Cons.IH [of "ins_entry ?k ?v vs" "ins_entry ?k r tab"] Cons.prems
    by (simp add: row_puts_def table_insert_def sorted_ins_entry)
qed

lemma map_of_row_puts:
  assumes "\<not> prefix RESERVED_PREFIX t" "prefix (as_bytes RESERVED_PREFIX) k"
  shows "sorted_keys vs \<Longrightarrow> map_of (fold (\<lambda>(k, v). ins_entry k v) (row_puts t tx rows) vs) k = map_of vs k"
proof (induction rows arbitrary: vs)
  case (Cons r rows)
  have "k \<noteq> row_key t (hd r)"
    using row_key_not_reserved [OF assms(1), of "hd r"] assms(2) by auto
  then show ?case
    using Cons.IH [of "ins_entry (row_key t (hd r)) (encode_values_mvcc r tx 0) vs"] Cons.prems
    by (simp add: row_puts_def sorted_ins_entry map_of_ins_entry)
qed (simp add: row_puts_def)

context session_store
begin

lemma insert_select_spec:
  assumes sees: "ex_sees ex es vs (row_puts t (active_tx ex) rows @ ws)" and name: "\<not> prefix RESERVED_PREFIX t" "plain_name t"
    and schema: "map_of vs (as_bytes (legacy_key t)) = Some sb" "from_utf8 sb = Inr schema"
    and cat: "catalog_lookup (env_json E) es DEFAULT_SCHEMA t = Inr cat"
    and index: "with_prefix (as_bytes (index_prefix t)) es = []" and tab: "stores t vs tab"
    and rows: "list_all2 (\<lambda>vals r. check_values cat (extract_col_names schema) vals = Inr r) values_list rows" "distinct (map hd rows)"
    "\<forall>r\<in>set rows. map_of vs (row_key t (hd r)) = None" "\<forall>r\<in>set rows. row_ok r"
  shows "\<exists>ex1 ex2. execute E (Insert t values_list) ex = (Inr (rows_message (length rows) ''inserted''), ex1) \<and>
    execute E (Select t None None None) ex1 = (Inr (format_table_output (extract_col_names schema)
      (map (\<lambda>e. pad_row cat (snd e)) (table_insert t rows tab))), ex2)"
proof -
  obtain ex1 es1 where 1: "execute E (Insert t values_list) ex = (Inr (rows_message (length rows) ''inserted''), ex1)"
    "ex_sees ex1 es1 (fold (\<lambda>(k, v). ins_entry k v) (row_puts t (active_tx ex) rows) vs) ws" "meta es1 = meta es"
    using exec_insert_spec [OF sees name schema cat rows(1-3) index] by blast
  obtain ws1 where 2: "room (ex_db ex1) es1 ws1" "sorted_keys (write_buffer ex1)"
    "fold (\<lambda>(k, v). ins_entry k v) (row_puts t (active_tx ex) rows) vs = ex_view ex1 es1"
    using 1(2) by (rule seesD)
  have vs: "sorted_keys vs"
    using sees by (rule seesD) (auto simp: sorted_view)
  have tab1: "stores t (ex_view ex1 es1) (table_insert t rows tab)"
    unfolding 2(3) [symmetric] using vs tab rows(4) by (rule stores_insert)
  have schema1: "map_of (ex_view ex1 es1) (as_bytes (legacy_key t)) = Some sb"
    unfolding 2(3) [symmetric] using map_of_row_puts [OF name(1) reserved_keys(1) vs] schema(1) by simp
  have cat1: "catalog_lookup (env_json E) es1 DEFAULT_SCHEMA t = Inr cat"
    using catalog_lookup_meta [OF 1(3)] cat by simp
  have none: "map_of es1 (as_bytes (sec_key t c v)) = None" if "None = Some (c, v)" for c v
    using that by simp
  obtain db where "execute E (Select t None None None) ex1 =
      (rbind (select_rows (extract_col_names schema) None None None (map (\<lambda>e. pad_row cat (snd e)) (table_insert t rows tab)))
        (\<lambda>rs. Inr (format_table_output (extract_col_names schema) rs)), ex1\<lparr>ex_db := db\<rparr>)"
    using 2(1,2) name(2) schema1 schema(2) cat1 stores_decode [OF tab1] none by (rule view.select_spec)
  then show ?thesis
    using 1(1) by (simp add: select_rows_def where_rows_def order_rows_def slice_rows_def)
qed

lemma insert_duplicate_spec:
  assumes sees: "ex_sees ex es vs ws" and name: "plain_name t"
    and schema: "map_of vs (as_bytes (legacy_key t)) = Some sb" "from_utf8 sb = Inr schema"
    and cat: "catalog_lookup (env_json E) es DEFAULT_SCHEMA t = Inr cat"
    and row: "check_values cat (extract_col_names schema) vals = Inr r" "map_of vs (row_key t (hd r)) \<noteq> None"
  shows "\<exists>ex'. execute E (Insert t (vals # values_list)) ex =
      (Inl (Message (''UNIQUE constraint violation: Primary key '' @ quoted (hd r) @ '' already exists'')), ex') \<and>
    ex_sees ex' es vs ws"
proof -
  let ?cols = "extract_col_names schema" and ?k = "row_key t (hd r)"
  obtain ws1 where 1: "room (ex_db ex) es ws1" "sorted_keys (write_buffer ex)" "vs = ex_view ex es" "\<not> in_transaction ex \<longrightarrow> ws1 = ws"
    using sees by (rule seesD)
  obtain db2 where 2: "table_columns E t t ex = (Inr ?cols, ex\<lparr>ex_db := db2\<rparr>)" "room db2 es ws1"
    using 1(1,2) schema(1) [unfolded 1(3)] schema(2) by (rule view.table_columnsE)
  obtain db3 where 3: "on_db (get_table_schema (env_store E) (env_json E) DEFAULT_SCHEMA t) (ex\<lparr>ex_db := db2\<rparr>) =
      (Inr cat, ex\<lparr>ex_db := db3\<rparr>)" "room db3 es ws1"
    using view.ex_schemaE [of "ex\<lparr>ex_db := db2\<rparr>" es ws1 "env_json E" DEFAULT_SCHEMA t] 2(2) cat by auto
  define ex3 where "ex3 = ex\<lparr>ex_db := db3\<rparr>"
  have ex3: "room (ex_db ex3) es ws1" "sorted_keys (write_buffer ex3)" "ex_view ex3 es = vs"
    using 3(2) 1(2,3) by (simp_all add: ex3_def ex_view_db)
  obtain db4 where 4: "key_exists E ?k ex3 = (Inr True, ex3\<lparr>ex_db := db4\<rparr>)" "room db4 es ws1"
    using view.key_existsE [OF ex3(1,2), of ?k] row(2) ex3(3) by auto
  have "insert_row E t ?cols cat vals ex3 =
      (Inl (Message (''UNIQUE constraint violation: Primary key '' @ quoted (hd r) @ '' already exists'')), ex3\<lparr>ex_db := db4\<rparr>)"
    by (simp add: insert_row_def row(1) Let_def sbind_Inr [where m = "key_exists E ?k" and s = ex3, OF 4(1)] throw_msg_def)
  moreover have "ex_sees (ex3\<lparr>ex_db := db4\<rparr>) es vs ws"
    using sees_db [OF sees 1(4) 4(2)] by (simp add: ex3_def)
  ultimately show ?thesis
    using 2(1) 3(1) by (auto simp: exec_insert_def plain_qualified [OF name] ex3_def [symmetric])
qed

end

section \<open>Properties\<close>

text \<open>A session on a new database with one table, for the witnesses.\<close>

definition sample_env where
  "sample_env = \<lparr>env_store = database_ops lru_list sum_crc, env_json = sample_json, env_md5 = id\<rparr>"

definition new_session :: "'s \<Rightarrow> 's executor" where
  "new_session db = \<lparr>ex_db = db, in_transaction = False, current_tx_id = 0, write_buffer = [], tx_id_counter = 1\<rparr>"

definition pets_key :: bytes where
  "pets_key = as_bytes (legacy_key ''pets'')"

definition pets_schema :: string where
  "pets_schema = ''id INT,name TEXT''"

definition pets_table :: table_schema where
  "pets_table = schema_new DEFAULT_SCHEMA ''pets'' [column_new ''id'' TInt, column_new ''name'' TText]"

lemma pets_db:
  assumes "list_all small_put (put_entries ws)" "length ws \<le> 100"
  obtains db0 db where "db_open lru_list sum_crc config_default empty_file empty_file = Inr db0"
    "db_put lru_list sum_crc pets_key (as_bytes pets_schema) db0 = (Inr (), db)"
    "db_holds lru_list lru_list_ok sum_crc 0 db [(pets_key, as_bytes pets_schema)] ws"
proof -
  let ?ws = "(pets_key, as_bytes pets_schema) # ws"
  have on: "enabled (wal_cfg config_default)"
    by (simp add: config_default_def)
  have "small_put (WPut pets_key (as_bytes pets_schema))"
    by (simp add: pets_key_def pets_schema_def legacy_key_def)
  moreover have "2 + length (put_entries ?ws) * (0 + length (put_entries ?ws) + 2) < 2 ^ 32"
  proof -
    have "length (put_entries ?ws) * (0 + length (put_entries ?ws) + 2) \<le> 101 * 103"
      using assms(2) by (intro mult_le_mono) simp_all
    then show ?thesis by simp
  qed
  ultimately have "replay_fit 2 0 [] (put_entries ?ws)"
    using assms(1) by (intro small_puts_fit) simp_all
  with on obtain db0 where 0: "db_open lru_list sum_crc config_default empty_file empty_file = Inr db0"
    "db_holds lru_list lru_list_ok sum_crc 0 db0 [] ?ws"
    by (rule list_db_room)
  from 0(2) obtain db where "st_put (database_ops lru_list sum_crc) pets_key (as_bytes pets_schema) db0 = (Inr (), db)"
    "db_holds lru_list lru_list_ok sum_crc 0 db (ins_entry pets_key (as_bytes pets_schema) []) ws"
    by (rule list_store.store.putE)
  with 0(1) show thesis
    by (intro that) (simp_all add: database_ops_def)
qed

lemma pets_ascii: "from_utf8 (as_bytes pets_schema) = Inr pets_schema"
  by (rule from_utf8_as_bytes) (simp add: ascii_valid pets_schema_def)

lemma pets_catalog:
  "catalog_lookup J [(pets_key, as_bytes pets_schema)] DEFAULT_SCHEMA ''pets'' = Inr (Some pets_table)"
proof -
  have "split_char (CHR '','') pets_schema = [''id INT'', ''name TEXT'']"
    by (simp add: pets_schema_def)
  then show ?thesis
    by (simp add: catalog_lookup_def pets_key_def pets_ascii pets_table_def)
      (simp add: legacy_column_def text_eval Let_def data_type_from_str_def eq_ignore_case_def DEFAULT_SCHEMA_def)
qed

lemma pets_columns: "extract_col_names pets_schema = [''id'', ''name'']"
  by (simp add: extract_col_names_def pets_schema_def text_eval)

lemma pets_check:
  "check_values (Some pets_table) [''id'', ''name''] [''1'', ''rex''] = Inr [''1'', ''rex'']"
  "check_values (Some pets_table) [''id'', ''name''] [''2'', ''tom''] = Inr [''2'', ''tom'']"
  by (simp_all add: check_values_def pad_row_def pets_table_def schema_new_def column_new_def Let_def parse_str_def text_eval
    eq_ignore_case_def parse_i32_def parse_signed_def parse_digits_def is_digit_def dec_val_def digit_val_def)

lemma pets_session:
  assumes "list_all small_put (put_entries ws)" "length ws \<le> 100"
  obtains db0 db where "db_open lru_list sum_crc config_default empty_file empty_file = Inr db0"
    "db_put lru_list sum_crc pets_key (as_bytes pets_schema) db0 = (Inr (), db)"
    "sees (db_holds lru_list lru_list_ok sum_crc 0) (new_session db) [(pets_key, as_bytes pets_schema)] [(pets_key, as_bytes pets_schema)] ws"
proof -
  obtain db0 db where "db_open lru_list sum_crc config_default empty_file empty_file = Inr db0"
    "db_put lru_list sum_crc pets_key (as_bytes pets_schema) db0 = (Inr (), db)"
    "db_holds lru_list lru_list_ok sum_crc 0 db [(pets_key, as_bytes pets_schema)] ws"
    using assms by (rule pets_db)
  then show thesis
    by (intro that) (simp_all add: sees_def ex_view_def new_session_def)
qed

lemma pets_name: "\<not> prefix RESERVED_PREFIX ''pets''" "plain_name ''pets''"
  "map_of [(pets_key, as_bytes pets_schema)] (as_bytes (legacy_key ''pets'')) = Some (as_bytes pets_schema)"
  by (simp_all add: RESERVED_PREFIX_def plain_name_def text_eval pets_key_def)

lemma pets_index: "with_prefix (as_bytes (index_prefix ''pets'')) [(pets_key, as_bytes pets_schema)] = []"
  unfolding pets_key_def by (simp add: prefix_bytes) (simp add: index_prefix_def legacy_key_def)

lemma pets_stores: "stores ''pets'' [(pets_key, as_bytes pets_schema)] []"
  unfolding stores_def pets_key_def by (simp add: prefix_bytes del: map_append) (simp add: legacy_key_def)

lemma row_pets_keys: "row_key ''pets'' pk \<noteq> as_bytes (legacy_key ''pets'')"
  by (simp add: row_key_def legacy_key_def)

lemma pets_rows:
  "list_all2 (\<lambda>vals r. check_values (Some pets_table) (extract_col_names pets_schema) vals = Inr r) [[''1'', ''rex'']] [[''1'', ''rex'']]"
  "distinct (map hd [[''1'', ''rex'']])"
  "\<forall>r\<in>set [[''1'', ''rex'']]. map_of [(pets_key, as_bytes pets_schema)] (row_key ''pets'' (hd r)) = None"
  "\<forall>r\<in>set [[''1'', ''rex'']]. row_ok r"
  using row_pets_keys [of "''1''"] by (simp_all add: pets_columns pets_check ascii_valid pets_key_def)

text \<open>
  (C6) An insertion shows: on a table without indexes, in or out of a transaction, \<open>INSERT\<close> of
  rows that pass the checks and have new keys succeeds, and \<open>SELECT *\<close> then prints the rows the
  table had and the new ones, each once, in the order of their keys, short rows filled up
  with the defaults of their columns.
\<close>

theorem sql_insert_select:
  assumes "lru_cache L ok" and "env_store E = database_ops L crc"
    and "sees (db_holds L ok crc lsn) ex es vs (row_puts t (active_tx ex) rows @ ws)"
    and "\<not> prefix RESERVED_PREFIX t" and "plain_name t"
    and "map_of vs (as_bytes (legacy_key t)) = Some sb" and "from_utf8 sb = Inr schema"
    and "catalog_lookup (env_json E) es DEFAULT_SCHEMA t = Inr cat"
    and "with_prefix (as_bytes (index_prefix t)) es = []" and "stores t vs tab"
    and "list_all2 (\<lambda>vals r. check_values cat (extract_col_names schema) vals = Inr r) values_list rows"
    and "distinct (map hd rows)" and "\<forall>r\<in>set rows. map_of vs (row_key t (hd r)) = None" and "\<forall>r\<in>set rows. row_ok r"
  shows "\<exists>ex1 ex2. execute E (Insert t values_list) ex = (Inr (rows_message (length rows) ''inserted''), ex1) \<and>
    execute E (Select t None None None) ex1 = (Inr (format_table_output (extract_col_names schema)
      (map (\<lambda>e. pad_row cat (snd e)) (table_insert t rows tab))), ex2)"
  using session_store.insert_select_spec [OF lru_session(1) [OF assms(1,2)], OF assms(3-14)] .

theorem sql_insert_select_witness:
  "\<exists>db0 db ex1 ex2. db_open lru_list sum_crc config_default empty_file empty_file = Inr db0 \<and>
     db_put lru_list sum_crc pets_key (as_bytes pets_schema) db0 = (Inr (), db) \<and>
     execute sample_env (Insert ''pets'' [[''1'', ''rex'']]) (new_session db) = (Inr ''Query OK, 1 row inserted.'', ex1) \<and>
     execute sample_env (Select ''pets'' None None None) ex1 = (Inr (format_table_output [''id'', ''name''] [[''1'', ''rex'']]), ex2)"
proof -
  let ?ws = "row_puts ''pets'' 1 [[''1'', ''rex'']]"
  have "list_all small_put (put_entries ?ws)" "length ?ws \<le> 100"
    by (simp_all add: row_puts_def row_key_def encode_values_mvcc_def encode_value_def)
  then obtain db0 db where db: "db_open lru_list sum_crc config_default empty_file empty_file = Inr db0"
    "db_put lru_list sum_crc pets_key (as_bytes pets_schema) db0 = (Inr (), db)"
    "sees (db_holds lru_list lru_list_ok sum_crc 0) (new_session db) [(pets_key, as_bytes pets_schema)] [(pets_key, as_bytes pets_schema)] ?ws"
    by (rule pets_session)
  have tx: "active_tx (new_session db) = 1"
    by (simp add: active_tx_def new_session_def)
  let ?vs = "[(pets_key, as_bytes pets_schema)]"
  have env: "env_store sample_env = database_ops lru_list sum_crc"
    by (simp add: sample_env_def)
  have sees: "sees (db_holds lru_list lru_list_ok sum_crc 0) (new_session db) ?vs ?vs (row_puts ''pets'' (active_tx (new_session db)) [[''1'', ''rex'']] @ [])"
    using db(3) by (simp add: tx)
  show ?thesis
    using sql_insert_select [OF lru_list.lru_cache_axioms env sees pets_name pets_ascii pets_catalog pets_index pets_stores pets_rows] db(1,2)
    by (auto simp: pets_columns table_insert_def pad_row_def pets_table_def schema_new_def rows_message_def)
qed

text \<open>
  (C4) Rolling back undoes a transaction: \<open>BEGIN\<close>, any insertions, updates, deletions and
  queries, failing ones included, then \<open>ROLLBACK\<close> leave the database with exactly the entries
  it had before, and the session outside a transaction with an empty write buffer.
\<close>

theorem sql_rollback_undoes:
  assumes "lru_cache L ok" and "env_store E = database_ops L crc"
    and "db_holds L ok crc lsn (ex_db ex) es ws" and "\<not> in_transaction ex" and "list_all buffers sts"
  shows "\<exists>ex'. execute E Rollback (run_statements E (Begin # sts) ex) = (Inr ''Query OK, transaction rolled back.'', ex') \<and>
    db_holds L ok crc lsn (ex_db ex') es ws \<and> \<not> in_transaction ex' \<and> write_buffer ex' = []"
  using session_store.rollback_spec [OF lru_session(1) [OF assms(1,2)], OF assms(3-5)] .



text \<open>
  (C7) A query means what relational algebra says: \<open>SELECT\<close> with any \<open>WHERE\<close> that no index
  serves, \<open>ORDER BY\<close> and \<open>LIMIT\<close>/\<open>OFFSET\<close> prints the matching rows of the table the session
  sees, sorted and cut, or the error for a column that does not exist; it changes no entry.
\<close>

theorem sql_select_visible:
  assumes "lru_cache L ok" and "env_store E = database_ops L crc" and "db_holds L ok crc lsn (ex_db ex) es ws"
    and "sorted_keys (write_buffer ex)" and "plain_name t"
    and "map_of (ex_view ex es) (as_bytes (legacy_key t)) = Some sb" and "from_utf8 sb = Inr schema"
    and "catalog_lookup (env_json E) es DEFAULT_SCHEMA t = Inr cat" and "stores t (ex_view ex es) tab"
    and "\<And>c v. where_clause = Some (c, v) \<Longrightarrow> map_of es (as_bytes (sec_key t c v)) = None"
  shows "\<exists>db. execute E (Select t where_clause order_by limit_offset) ex =
      (rbind (select_rows (extract_col_names schema) where_clause order_by limit_offset (map (\<lambda>e. pad_row cat (snd e)) tab))
        (\<lambda>rs. Inr (format_table_output (extract_col_names schema) rs)), ex\<lparr>ex_db := db\<rparr>) \<and>
    db_holds L ok crc lsn db es ws"
proof -
  have "session_reader E (\<lambda>s es. db_holds L ok crc lsn s es ws)"
    by (simp add: session_reader_def assms(2) key_store.reader [OF lru_store(1) [OF assms(1)]])
  from session_reader.select_spec [OF this assms(3-8) stores_decode [OF assms(9)] assms(10)] show ?thesis
    by blast
qed

text \<open>The sample session inside a transaction that has inserted a row.\<close>

definition tx_session :: "'s \<Rightarrow> 's executor" where
  "tx_session db = (new_session db)\<lparr>in_transaction := True, current_tx_id := 1, tx_id_counter := 2,
     write_buffer := [(row_key ''pets'' ''1'', Some (encode_values_mvcc [''1'', ''rex''] 1 0))]\<rparr>"

lemma tx_session_view:
  fixes db :: 's
  defines "vs \<equiv> ex_view (tx_session db) [(pets_key, as_bytes pets_schema)]"
  shows "map_of vs (as_bytes (legacy_key ''pets'')) = Some (as_bytes pets_schema)" "map_of vs (row_key ''pets'' ''1'') \<noteq> None"
    "stores ''pets'' vs [(row_key ''pets'' ''1'', [''1'', ''rex''])]"
proof -
  let ?k = "row_key ''pets'' ''1''" and ?v = "encode_values_mvcc [''1'', ''rex''] 1 0"
  have vs: "vs = ins_entry ?k ?v [(pets_key, as_bytes pets_schema)]"
    by (simp add: vs_def ex_view_def tx_session_def)
  show "map_of vs (as_bytes (legacy_key ''pets'')) = Some (as_bytes pets_schema)" "map_of vs ?k \<noteq> None"
    using row_pets_keys [of "''1''"] by (simp_all add: vs map_of_ins_entry pets_key_def)
  have "prefix (as_bytes (''pets'' @ '':'')) ?k" "\<not> prefix (as_bytes (''pets'' @ '':'')) pets_key"
    unfolding row_key_def pets_key_def prefix_bytes by (simp_all add: legacy_key_def)
  then have "with_prefix (as_bytes (''pets'' @ '':'')) vs = [(?k, ?v)]"
    by (simp add: vs filter_ins_entry del: map_append)
  then show "stores ''pets'' vs [(?k, [''1'', ''rex''])]"
    unfolding stores_def by (simp add: ascii_valid)
qed


theorem sql_select_visible_witness:
  "\<exists>db0 db ex'. db_open lru_list sum_crc config_default empty_file empty_file = Inr db0 \<and>
     db_put lru_list sum_crc pets_key (as_bytes pets_schema) db0 = (Inr (), db) \<and>
     execute sample_env (Select ''pets'' (Some (''name'', ''rex'')) (Some (''id'', True)) (Some (1, 0))) (tx_session db) =
       (Inr (format_table_output [''id'', ''name''] [[''1'', ''rex'']]), ex')"
proof -
  obtain db0 db where db: "db_open lru_list sum_crc config_default empty_file empty_file = Inr db0"
    "db_put lru_list sum_crc pets_key (as_bytes pets_schema) db0 = (Inr (), db)"
    "db_holds lru_list lru_list_ok sum_crc 0 db [(pets_key, as_bytes pets_schema)] []"
    by (rule pets_db [of "[]"]) simp_all
  let ?es = "[(pets_key, as_bytes pets_schema)]" and ?ex = "tx_session db"
  have env: "env_store sample_env = database_ops lru_list sum_crc" "plain_name ''pets''" "sorted_keys (write_buffer ?ex)"
    "db_holds lru_list lru_list_ok sum_crc 0 (ex_db ?ex) ?es []"
    using db(3) by (simp_all add: sample_env_def plain_name_def text_eval tx_session_def new_session_def)
  have noidx: "map_of ?es (as_bytes (sec_key ''pets'' c v)) = None" if "Some (''name'', ''rex'') = Some (c, v)" for c v
    by (simp add: pets_key_def) (simp add: sec_key_def legacy_key_def)
  have "select_rows [''id'', ''name''] (Some (''name'', ''rex'')) (Some (''id'', True)) (Some (1, 0)) [[''1'', ''rex'']] = Inr [[''1'', ''rex'']]"
    by (simp add: select_rows_def where_rows_def order_rows_def slice_rows_def find_col_def ok_or_def column_index_def sort_by_def)
  moreover have "pad_row (Some pets_table) [''1'', ''rex''] = [''1'', ''rex'']"
    by (simp add: pad_row_def pets_table_def schema_new_def)
  ultimately show ?thesis
    using sql_select_visible [where where_clause = "Some (''name'', ''rex'')" and order_by = "Some (''id'', True)" and limit_offset = "Some (1, 0)",
      OF lru_list.lru_cache_axioms env(1,4,3,2) tx_session_view(1) pets_ascii pets_catalog tx_session_view(3) noidx] db(1,2)
    by (auto simp: pets_columns simp del: execute.simps)
qed

theorem sql_rollback_undoes_witness:
  "\<exists>db0 db ex'. db_open lru_list sum_crc config_default empty_file empty_file = Inr db0 \<and>
     db_put lru_list sum_crc pets_key (as_bytes pets_schema) db0 = (Inr (), db) \<and>
     execute sample_env Rollback (run_statements sample_env
         [Begin, Insert ''pets'' [[''1'', ''rex'']], Update ''pets'' ''name'' ''tom'' None, Delete ''cats'' None] (new_session db)) =
       (Inr ''Query OK, transaction rolled back.'', ex') \<and>
     fst (db_get lru_list (row_key ''pets'' ''1'') (ex_db ex')) = Inr None"
proof -
  obtain db0 db where db: "db_open lru_list sum_crc config_default empty_file empty_file = Inr db0"
    "db_put lru_list sum_crc pets_key (as_bytes pets_schema) db0 = (Inr (), db)"
    "db_holds lru_list lru_list_ok sum_crc 0 db [(pets_key, as_bytes pets_schema)] []"
    by (rule pets_db [of "[]"]) simp_all
  let ?sts = "[Insert ''pets'' [[''1'', ''rex'']], Update ''pets'' ''name'' ''tom'' None, Delete ''cats'' None]"
  have env: "env_store sample_env = database_ops lru_list sum_crc" "\<not> in_transaction (new_session db)" "list_all buffers ?sts"
    "db_holds lru_list lru_list_ok sum_crc 0 (ex_db (new_session db)) [(pets_key, as_bytes pets_schema)] []"
    using db(3) by (simp_all add: sample_env_def new_session_def)
  obtain ex' where ex': "execute sample_env Rollback (run_statements sample_env (Begin # ?sts) (new_session db)) =
      (Inr ''Query OK, transaction rolled back.'', ex')"
    "db_holds lru_list lru_list_ok sum_crc 0 (ex_db ex') [(pets_key, as_bytes pets_schema)] []"
    using sql_rollback_undoes [OF lru_list.lru_cache_axioms env(1,4,2,3)] by blast
  obtain db' where "st_get (database_ops lru_list sum_crc) (row_key ''pets'' ''1'') (ex_db ex') =
      (Inr (map_of [(pets_key, as_bytes pets_schema)] (row_key ''pets'' ''1'')), db')"
    using ex'(2) by (rule list_store.store.reads.getE)
  then have "fst (db_get lru_list (row_key ''pets'' ''1'') (ex_db ex')) = Inr None"
    using row_pets_keys [of "''1''"] by (simp add: database_ops_def pets_key_def)
  with db(1,2) ex'(1) show ?thesis
    by (intro exI [of _ db0] exI [of _ db] exI [of _ ex'] conjI)
qed

lemma pets_map:
  assumes "list_all small_put rest" "length rest \<le> 100"
  obtains db0 db h where "db_open lru_list sum_crc config_default empty_file empty_file = Inr db0"
    "db_put lru_list sum_crc pets_key (as_bytes pets_schema) db0 = (Inr (), db)"
    "db_map lru_list lru_list_ok sum_crc 0 db h [(pets_key, as_bytes pets_schema)] [LogPut 0 pets_key (as_bytes pets_schema)]"
    "replay_fit (unat (bt_size (db_index db))) h [(pets_key, as_bytes pets_schema)] rest"
proof -
  let ?ws = "[(pets_key, as_bytes pets_schema)]"
  have on: "enabled (wal_cfg config_default)"
    by (simp add: config_default_def)
  obtain db0 where 0: "db_open lru_list sum_crc config_default empty_file empty_file = Inr db0"
    "db_map lru_list lru_list_ok sum_crc 0 db0 0 [] []" "bt_size (db_index db0) = 2"
    using on by (rule list_db_exists)
  have "small_put (WPut pets_key (as_bytes pets_schema))"
    by (simp add: pets_key_def pets_schema_def legacy_key_def)
  moreover have "2 + length (put_entries ?ws @ rest) * (0 + length (put_entries ?ws @ rest) + 2) < 2 ^ 32"
  proof -
    have "length (put_entries ?ws @ rest) * (0 + length (put_entries ?ws @ rest) + 2) \<le> 101 * 103"
      using assms(2) by (intro mult_le_mono) simp_all
    then show ?thesis by simp
  qed
  ultimately have "replay_fit 2 0 [] (put_entries ?ws @ rest)"
    using assms(1) by (intro small_puts_fit) simp_all
  from list_tree.db_puts_spec [OF 0(2) this, of 0] obtain db h n H where
    "for_each (\<lambda>(k, v). db_put_with_tx lru_list sum_crc 0 k v) ?ws db0 = (Inr (), db)"
    and m: "db_map lru_list lru_list_ok sum_crc 0 db h ?ws [LogPut 0 pets_key (as_bytes pets_schema)]"
    "replay_fit n H ?ws rest" "unat (bt_size (db_index db)) \<le> n" "h \<le> H"
    by (auto simp: runs_def 0(3))
  then have "db_put lru_list sum_crc pets_key (as_bytes pets_schema) db0 = (Inr (), db)"
    by (cases "db_put lru_list sum_crc pets_key (as_bytes pets_schema) db0"; cases "fst (db_put lru_list sum_crc pets_key (as_bytes pets_schema) db0)")
      (auto simp: db_put_def sthen_def sbind_def)
  with 0(1) m(1) replay_fit_mono [OF m(2-4)] show thesis
    by (intro that)
qed


section \<open>Where transactions leak\<close>

lemma sbind_bool:
  "m s = (Inr False, s') \<Longrightarrow> sbind m f s = f False s'"
  "m s = (Inr True, s') \<Longrightarrow> sbind m f s = f True s'"
  by simp_all

context session_store
begin

lemma unique_index_blind_spec:
  assumes "room (ex_db ex) es ws" "in_transaction ex" "sorted_keys (write_buffer ex)"
    "map_of es (as_bytes (sec_key t c v)) = None"
  shows "\<exists>ex1 ex2. sec_idx_add E t c v p True ex = (Inr (), ex1) \<and> sec_idx_add E t c v q True ex1 = (Inr (), ex2) \<and>
    map_of (write_buffer ex2) (as_bytes (sec_key t c v)) = Some (Some (as_bytes q))"
proof -
  let ?k = "as_bytes (sec_key t c v)"
  obtain db1 where 1: "on_db (st_get (env_store E) ?k) ex = (Inr None, ex\<lparr>ex_db := db1\<rparr>)" "room db1 es ws"
    using view.ex_getE [OF assms(1), of ?k] assms(4) by auto
  define ex1 where "ex1 = ex\<lparr>ex_db := db1, write_buffer := ins_entry ?k (Some (as_bytes p)) (write_buffer ex)\<rparr>"
  have "room (ex_db ex1) es ws"
    using 1(2) by (simp add: ex1_def)
  then obtain db2 where 2: "on_db (st_get (env_store E) ?k) ex1 = (Inr None, ex1\<lparr>ex_db := db2\<rparr>)"
    using view.ex_getE [of ex1 es ws ?k] assms(4) by auto
  have "sec_idx_add E t c v p True ex = (Inr (), ex1)"
    using 1(1) assms(2) by (simp add: sec_idx_add_def Let_def write_entry_def ex1_def)
  moreover have "sec_idx_add E t c v q True ex1 =
      (Inr (), ex1\<lparr>ex_db := db2, write_buffer := ins_entry ?k (Some (as_bytes q)) (write_buffer ex1)\<rparr>)"
    using 2 assms(2) by (simp add: sec_idx_add_def Let_def write_entry_def ex1_def)
  ultimately show ?thesis
    using assms(3) by (simp add: ex1_def map_of_ins_entry sorted_ins_entry)
qed

lemma unique_indexes_spec:
  assumes "view.in_tx ws tx n es ex"
  shows "\<exists>ex'. for_each (unique_index E t) cols ex = (Inr (), ex') \<and> view.in_tx ws tx n es ex'"
  using assms
proof (induction cols arbitrary: ex)
  case (Cons col cols)
  have "\<exists>ex'. unique_index E t col ex = (Inr (), ex') \<and> view.in_tx ws tx n es ex'"
    using Cons.prems by (auto simp: unique_index_def write_entry_def view.in_tx_def sorted_ins_entry)
  then show ?case
    using Cons.IH by fastforce
qed simp

lemma create_table_leak_spec:
  assumes ts_def: "ts = schema_new DEFAULT_SCHEMA t defs" and room: "room (ex_db ex) es ((as_bytes (table_key (schema_name ts) (table_name ts)), bs) #
      (as_bytes (legacy_key (table_name ts)), as_bytes (legacy_val ts)) # ws)" and tx: "\<not> in_transaction ex"
    and json: "json_ok (env_json E)" "schema_to_vec (env_json E) ts = Inr bs"
    and t: "plain_name t" "map_of es (as_bytes (legacy_key t)) = None" "map_of es (as_bytes (table_key DEFAULT_SCHEMA t)) = None"
    and cols: "parse_column_defs cols = Inr defs"
  shows "\<exists>ex' db. execute E Rollback (run_statements E [Begin, CreateTable t cols] ex) = (Inr ''Query OK, transaction rolled back.'', ex') \<and>
    get_table_schema (env_store E) (env_json E) DEFAULT_SCHEMA t (ex_db ex') = (Inr (Some ts), db)"
proof -
  let ?tk = "as_bytes (table_key (schema_name ts) (table_name ts))" and ?lk = "as_bytes (legacy_key (table_name ts))"
  let ?W = "(?tk, bs) # (?lk, as_bytes (legacy_val ts)) # ws"
  let ?es = "ins_entry ?lk (as_bytes (legacy_val ts)) (ins_entry ?tk bs es)"
  let ?tx = "tx_id_counter ex"
  have ts: "schema_name ts = DEFAULT_SCHEMA" "table_name ts = t"
    by (simp_all add: ts_def schema_new_def)
  obtain ex1 where 1: "execute E Begin ex = (Inr ''Query OK, transaction started.'', ex1)"
    "view.in_tx ?W ?tx (?tx + 1) es ex1" "write_buffer ex1 = []"
    using room tx by (rule exec_beginE)
  have in1: "in_transaction ex1" "room (ex_db ex1) es ?W" "ex_view ex1 es = es" "current_tx_id ex1 = ?tx" "tx_id_counter ex1 = ?tx + 1"
    using 1(2,3) by (simp_all add: view.in_tx_def ex_view_def)
  obtain db2 where 2: "get_schema_bytes E t ex1 = (Inr None, ex1\<lparr>ex_db := db2\<rparr>)" "room db2 es ?W"
    using view.get_schema_bytesE [OF in1(2), of t] 1(3) t(2) in1(3) by auto
  have "catalog_lookup (env_json E) es DEFAULT_SCHEMA t = Inr None"
    using t(2,3) by (simp add: catalog_lookup_def)
  then obtain db3 where 3: "on_db (get_table_schema (env_store E) (env_json E) DEFAULT_SCHEMA t) (ex1\<lparr>ex_db := db2\<rparr>) =
      (Inr None, ex1\<lparr>ex_db := db3\<rparr>)" "room db3 es ?W"
    using view.ex_schemaE [of "ex1\<lparr>ex_db := db2\<rparr>" es ?W "env_json E" DEFAULT_SCHEMA t] 2(2) by auto
  obtain db4 where 4: "save_table_schema (env_store E) (env_json E) ts db3 = (Inr (), db4)" "room db4 ?es ws"
    using save_table_schema_spec [OF json(2) 3(2)] by (auto simp: runs_def)
  define ex5 where "ex5 = ex1\<lparr>ex_db := db4, write_buffer := ins_entry (as_bytes (legacy_key t)) (Some (as_bytes (join '','' cols))) []\<rparr>"
  have 5: "view.in_tx ws ?tx (?tx + 1) ?es ex5"
    using 4(2) in1 by (simp add: view.in_tx_def ex5_def)
  obtain ex6 where 6: "for_each (unique_index E t) defs ex5 = (Inr (), ex6)" "view.in_tx ws ?tx (?tx + 1) ?es ex6"
    using unique_indexes_spec [OF 5] by blast
  have none: "sbind (on_db (get_table_schema (env_store E) (env_json E) DEFAULT_SCHEMA t)) (\<lambda>ts. ret (ts \<noteq> None)) (ex1\<lparr>ex_db := db2\<rparr>) =
      (Inr False, ex1\<lparr>ex_db := db3\<rparr>)"
    using 3(1) by simp
  have "snd (execute E (CreateTable t cols) ex1) = ex6"
    using 2(1) none 4(1) 6(1) in1(1) 1(3) unfolding ts_def
    by (simp add: sbind_bool exec_create_table_def plain_qualified [OF t(1)] cols on_db_def [of "save_table_schema _ _ _"] write_entry_def ex5_def)
  moreover obtain db7 where 7: "execute E Rollback ex6 = (Inr ''Query OK, transaction rolled back.'',
      ex6\<lparr>ex_db := db7, write_buffer := [], in_transaction := False, current_tx_id := 0\<rparr>)" "room db7 ?es ws"
    using 6(2) by (rule exec_rollbackE)
  ultimately have run: "execute E Rollback (run_statements E [Begin, CreateTable t cols] ex) = (Inr ''Query OK, transaction rolled back.'',
      ex6\<lparr>ex_db := db7, write_buffer := [], in_transaction := False, current_tx_id := 0\<rparr>)"
    using 1(1) by (simp del: execute.simps)
  have es: "catalog_lookup (env_json E) ?es DEFAULT_SCHEMA t = Inr (Some ts)"
    using json reads.sorted [OF room] by (simp add: catalog_lookup_def json_ok_def map_of_ins_entry sorted_ins_entry ts)
  obtain db8 where "get_table_schema (env_store E) (env_json E) DEFAULT_SCHEMA t db7 = (catalog_lookup (env_json E) ?es DEFAULT_SCHEMA t, db8)"
    using 7(2) by (rule reads.get_table_schemaE)
  then show ?thesis
    using run unfolding es by auto
qed

end

text \<open>
  (C38) A UNIQUE index does not see its own transaction: the check reads the store and not the write
  buffer, so inside a transaction two rows with the same value of a UNIQUE column are both
  accepted, and the index entry ends up with the key of the second row only.
\<close>

theorem unique_index_blind:
  assumes "lru_cache L ok" and "env_store E = database_ops L crc" and "db_holds L ok crc lsn (ex_db ex) es ws"
    and "in_transaction ex" and "sorted_keys (write_buffer ex)" and "map_of es (as_bytes (sec_key t c v)) = None"
  shows "\<exists>ex1 ex2. sec_idx_add E t c v p True ex = (Inr (), ex1) \<and> sec_idx_add E t c v q True ex1 = (Inr (), ex2) \<and>
    map_of (write_buffer ex2) (as_bytes (sec_key t c v)) = Some (Some (as_bytes q))"
  using session_store.unique_index_blind_spec [OF lru_session(1) [OF assms(1,2)], OF assms(3-6)] .

theorem unique_index_blind_witness:
  "\<exists>db0 db ex1 ex2. db_open lru_list sum_crc config_default empty_file empty_file = Inr db0 \<and>
     db_put lru_list sum_crc pets_key (as_bytes pets_schema) db0 = (Inr (), db) \<and>
     sec_idx_add sample_env ''pets'' ''name'' ''rex'' ''1'' True (tx_session db) = (Inr (), ex1) \<and>
     sec_idx_add sample_env ''pets'' ''name'' ''rex'' ''2'' True ex1 = (Inr (), ex2) \<and>
     map_of (write_buffer ex2) (as_bytes (sec_key ''pets'' ''name'' ''rex'')) = Some (Some (as_bytes ''2''))"
proof -
  obtain db0 db where db: "db_open lru_list sum_crc config_default empty_file empty_file = Inr db0"
    "db_put lru_list sum_crc pets_key (as_bytes pets_schema) db0 = (Inr (), db)"
    "db_holds lru_list lru_list_ok sum_crc 0 db [(pets_key, as_bytes pets_schema)] []"
    by (rule pets_db [of "[]"]) simp_all
  have env: "env_store sample_env = database_ops lru_list sum_crc" "sorted_keys (write_buffer (tx_session db))" "in_transaction (tx_session db)"
    "db_holds lru_list lru_list_ok sum_crc 0 (ex_db (tx_session db)) [(pets_key, as_bytes pets_schema)] []"
    using db(3) by (simp_all add: sample_env_def tx_session_def new_session_def)
  have "map_of [(pets_key, as_bytes pets_schema)] (as_bytes (sec_key ''pets'' ''name'' ''rex'')) = None"
    by (simp add: pets_key_def) (simp add: sec_key_def legacy_key_def)
  from unique_index_blind [OF lru_list.lru_cache_axioms env(1,4,3,2) this, of "''1''" "''2''"] db(1,2) show ?thesis
    by (elim exE conjE) (intro exI conjI)
qed

text \<open>
  (C37) \<open>CREATE TABLE\<close> is not part of a transaction: after \<open>BEGIN\<close>, \<open>CREATE TABLE\<close> and a
  successful \<open>ROLLBACK\<close>, the table is in the catalog.
\<close>

theorem create_table_survives_rollback:
  assumes "lru_cache L ok" and "env_store E = database_ops L crc" and "ts = schema_new DEFAULT_SCHEMA t defs"
    and "db_holds L ok crc lsn (ex_db ex) es ((as_bytes (table_key (schema_name ts) (table_name ts)), bs) #
      (as_bytes (legacy_key (table_name ts)), as_bytes (legacy_val ts)) # ws)" and "\<not> in_transaction ex"
    and "json_ok (env_json E)" and "schema_to_vec (env_json E) ts = Inr bs"
    and "plain_name t" and "map_of es (as_bytes (legacy_key t)) = None" and "map_of es (as_bytes (table_key DEFAULT_SCHEMA t)) = None"
    and "parse_column_defs cols = Inr defs"
  shows "\<exists>ex' db. execute E Rollback (run_statements E [Begin, CreateTable t cols] ex) = (Inr ''Query OK, transaction rolled back.'', ex') \<and>
    get_table_schema (env_store E) (env_json E) DEFAULT_SCHEMA t (ex_db ex') = (Inr (Some ts), db)"
  using session_store.create_table_leak_spec [OF lru_session(1) [OF assms(1,2)], OF assms(3-11)] .

theorem create_table_survives_rollback_witness:
  "\<exists>db ex' db'. db_open lru_list sum_crc config_default empty_file empty_file = Inr db \<and>
     execute sample_env Rollback (run_statements sample_env [Begin, CreateTable ''Orders'' [''id INT PRIMARY KEY'', ''item TEXT'']] (new_session db)) =
       (Inr ''Query OK, transaction rolled back.'', ex') \<and>
     get_table_schema (env_store sample_env) (env_json sample_env) DEFAULT_SCHEMA ''Orders'' (ex_db ex') = (Inr (Some sample_schema), db')"
proof -
  let ?ws = "[(as_bytes (table_key (schema_name sample_schema) (table_name sample_schema)), [42]),
      (as_bytes (legacy_key (table_name sample_schema)), as_bytes (legacy_val sample_schema))]"
  let ?cols = "[''id INT PRIMARY KEY'', ''item TEXT'']"
  let ?defs = "[with_unique True (with_primary_key True (with_nullable False (column_new ''id'' TInt))), column_new ''item'' TText]"
  have on: "enabled (wal_cfg config_default)"
    by (simp add: config_default_def)
  have "replay_fit 2 0 [] (put_entries ?ws)"
    by (rule small_puts_fit [OF sample_small]) simp_all
  with on obtain db where db: "db_open lru_list sum_crc config_default empty_file empty_file = Inr db"
    "db_holds lru_list lru_list_ok sum_crc 0 db [] ?ws"
    by (rule list_db_room)
  have env: "env_store sample_env = database_ops lru_list sum_crc" "sample_schema = schema_new DEFAULT_SCHEMA ''Orders'' ?defs"
    "db_holds lru_list lru_list_ok sum_crc 0 (ex_db (new_session db)) [] ?ws" "\<not> in_transaction (new_session db)"
    "json_ok (env_json sample_env)" "schema_to_vec (env_json sample_env) sample_schema = Inr [42]"
    using db(2) by (simp_all add: sample_env_def new_session_def sample_json_ok) (simp_all add: sample_json_def sample_schema_def)
  have t: "plain_name ''Orders''" "map_of [] (as_bytes (legacy_key ''Orders'')) = None" "map_of [] (as_bytes (table_key DEFAULT_SCHEMA ''Orders'')) = None"
    by (simp_all add: plain_name_def text_eval)
  have cols: "parse_column_defs ?cols = Inr ?defs"
    by (simp add: parse_column_def_def Let_def text_eval parse_default_def contains_str_def data_type_from_str_def column_new_def
      with_unique_def with_primary_key_def with_nullable_def)
  from create_table_survives_rollback [OF lru_list.lru_cache_axioms env t cols] db(1) show ?thesis
    by (elim exE conjE) (intro exI conjI)
qed

end
