(* ===== verification/Pgwire.thy ===== *)
theory Pgwire
  imports Tables
begin

text \<open>
  The PostgreSQL wire protocol (\<open>src/network/pgwire.rs\<close>): start-up, MD5 authentication, the
  message loop with simple and extended queries, and the responses.

  A connection is a state \<open>conn\<close>: the database, the process-wide transaction counter and the
  bytes written to the socket so far. What the client sends is a byte list, the argument of the
  functions that read it; running out of it is the client closing its side, so \<open>read_exact\<close>
  fails there. Writes to the socket succeed. The salt drawn from the random generator is an
  argument, and so is the text the standard library prints for the errors it owns
  (\<open>std_text\<close>). A panic or an endless loop of the query code ends the connection's task.
\<close>

section \<open>Big-endian integers and reads\<close>

definition u16_to_be :: "u16 \<Rightarrow> bytes" where
  "u16_to_be w = rev (u16_to_le w)"

definition u32_to_be :: "u32 \<Rightarrow> bytes" where
  "u32_to_be w = rev (u32_to_le w)"

definition u16_from_be :: "bytes \<Rightarrow> u16" where
  "u16_from_be bs = u16_from_le (rev bs)"

definition u32_from_be :: "bytes \<Rightarrow> u32" where
  "u32_from_be bs = u32_from_le (rev bs)"

text \<open>\<open>i32::from_be_bytes(..) as usize\<close>: the cast extends the sign.\<close>

definition i32_as_usize :: "u32 \<Rightarrow> nat" where
  "i32_as_usize w = unat (scast w :: u64)"

text \<open>
  \<open>vec![0u8; n - 4]\<close>: a length below 4 underflows and one beyond \<open>isize::MAX\<close> is a capacity
  overflow; both are panics.
\<close>

definition body_len :: "nat \<Rightarrow> nat res" where
  "body_len n = (if n < 4 \<or> 2 ^ 63 \<le> n - 4 then Inl Panic else Inr (n - 4))"

text \<open>A length field and the body it announces; \<open>None\<close> when not even the length arrives.\<close>

definition read_body :: "bytes \<Rightarrow> (bytes \<times> bytes) option res" where
  "read_body inp =
     (if length inp < 4 then Inr None
      else rbind (body_len (i32_as_usize (u32_from_be (take 4 inp)))) (\<lambda>n.
        if length inp < 4 + n then Inl UnexpectedEof
        else Inr (Some (take n (drop 4 inp), drop (4 + n) inp))))"

lemma read_body_shorter: "read_body inp = Inr (Some (body, rest)) \<Longrightarrow> length rest < length inp"
  by (auto simp: read_body_def body_len_def split: if_splits)

section \<open>Connections\<close>

record 's conn =
  cn_db :: 's
  cn_tx :: u64
  cn_out :: bytes

definition send :: "bytes \<Rightarrow> ('s conn, unit) M" where
  "send bs = modify (\<lambda>c. c\<lparr>cn_out := cn_out c @ bs\<rparr>)"

definition cn_on_db :: "('s, 'a) M \<Rightarrow> ('s conn, 'a) M" where
  "cn_on_db m = (\<lambda>c. case m (cn_db c) of (r, db) \<Rightarrow> (r, c\<lparr>cn_db := db\<rparr>))"

text \<open>A message of the protocol: tag, length (which counts itself), body.\<close>

definition pg_frame :: "char \<Rightarrow> bytes \<Rightarrow> bytes" where
  "pg_frame tag body = byte_of tag # u32_to_be (of_nat (length body + 4)) @ body"

definition make_parameter_status :: "string \<Rightarrow> string \<Rightarrow> bytes" where
  "make_parameter_status pname val = pg_frame (CHR ''S'') (as_bytes pname @ [0] @ as_bytes val @ [0])"

definition send_error_response :: "string \<Rightarrow> ('s conn, unit) M" where
  "send_error_response err_msg =
     send (pg_frame (CHR ''E'') (as_bytes ''SE'' @ [0] @ as_bytes ''M'' @ as_bytes err_msg @ [0, 0]))"

definition column_description :: "string \<Rightarrow> bytes" where
  "column_description col =
     as_bytes col @ [0] @ u32_to_be 0 @ u16_to_be 0 @ u32_to_be 25 @ u16_to_be (- 1) @ u32_to_be (- 1) @ u16_to_be 0"

definition row_description :: "string list \<Rightarrow> bytes" where
  "row_description cols =
     pg_frame (CHR ''T'') (u16_to_be (of_nat (length cols)) @ concat (map column_description cols))"

definition cell_bytes :: "string \<Rightarrow> bytes" where
  "cell_bytes v = u32_to_be (of_nat (length v)) @ as_bytes v"

definition data_row :: "row \<Rightarrow> bytes" where
  "data_row vals = pg_frame (CHR ''D'') (u16_to_be (of_nat (length vals)) @ concat (map cell_bytes vals))"

definition command_complete :: bytes where
  "command_complete = pg_frame (CHR ''C'') (as_bytes ''SELECT 1'' @ [0])"

text \<open>\<open>&lines[3..lines.len() - 2]\<close> is out of range when there are exactly four lines.\<close>

definition send_query_response :: "string \<Rightarrow> ('s conn, unit) M" where
  "send_query_response out =
     (let ls = lines out in
      sthen
        (if 4 \<le> length ls \<and> starts_with ''+--'' (ls ! 0) then
           sthen
             (send (row_description
                (map trim (split_char (CHR ''|'') (trim (trim_char (CHR ''|'') (ls ! 1)))))))
             (if length ls < 5 then throw Panic
              else for_each
                (\<lambda>line. if starts_with ''|'' line then send (data_row (cells_of line)) else ret ())
                (take (length ls - 5) (drop 3 ls)))
         else ret ())
        (send command_complete))"

section \<open>Running a query\<close>

text \<open>\<open>e.to_string()\<close>: the messages of the program, and \<open>std_text\<close> for errors of the standard library.\<close>

definition error_text :: "(error \<Rightarrow> string) \<Rightarrow> error \<Rightarrow> string" where
  "error_text std_text e =
     (case e of
        Message s \<Rightarrow> s
      | KeyTooLarge n \<Rightarrow> ''Key size '' @ nat_str n @ '' exceeds maximum allowed '' @ nat_str MAX_KEY_SIZE
      | NodeTooLarge n \<Rightarrow>
          ''Node encoded size '' @ nat_str n @ '' exceeds page size '' @ nat_str PAGE_SIZE @ ''. This is a bug '' @
          map char_of [0xE2, 0x80, 0x94 :: nat] @ '' the node should have been split before serialization.''
      | _ \<Rightarrow> std_text e)"

text \<open>Errors that are not values in the program: the task that runs into one ends.\<close>

definition fatal :: "error \<Rightarrow> bool" where
  "fatal e \<longleftrightarrow> e = Panic \<or> e = Diverges"

text \<open>Every query gets an executor of its own, which is dropped afterwards.\<close>

definition run_query :: "'s sql_env \<Rightarrow> string \<Rightarrow> ('s conn, string) M" where
  "run_query E sql = (\<lambda>c.
     let ex = executor_new E (cn_tx c) (cn_db c) in
     case parse sql of
       Inl e \<Rightarrow> (Inl e, c\<lparr>cn_db := ex_db ex\<rparr>)
     | Inr stmt \<Rightarrow>
         (case execute E stmt ex of
            (r, ex') \<Rightarrow> (r, c\<lparr>cn_db := ex_db ex', cn_tx := tx_id_counter ex'\<rparr>)))"

definition execute_and_respond :: "'s sql_env \<Rightarrow> (error \<Rightarrow> string) \<Rightarrow> string \<Rightarrow> ('s conn, unit) M" where
  "execute_and_respond E std_text sql = (\<lambda>c.
     case run_query E sql c of
       (Inr out, c') \<Rightarrow> send_query_response out c'
     | (Inl e, c') \<Rightarrow>
         if fatal e then (Inl e, c') else send_error_response (error_text std_text e) c')"

section \<open>Messages of the client\<close>

text \<open>
  \<open>body[offset..].iter().position(|&b| b == 0).unwrap_or(0)\<close>.
\<close>

definition until_nul :: "bytes \<Rightarrow> nat" where
  "until_nul bs = (case position (\<lambda>b. b = 0) bs of Some i \<Rightarrow> i | None \<Rightarrow> 0)"

text \<open>The loop of \<open>parse_startup_message\<close> on what is left of the body.\<close>

function startup_params :: "bytes \<Rightarrow> (string \<rightharpoonup> string) \<Rightarrow> (string \<rightharpoonup> string)" where
  "startup_params bs params =
     (if bs = [] then params
      else let key_end = until_nul bs in
        if key_end = 0 then params
        else let key = from_utf8_lossy (take key_end bs); bs1 = drop (key_end + 1) bs in
          if bs1 = [] then params
          else let val_end = until_nul bs1 in
            startup_params (drop (val_end + 1) bs1) (params(key \<mapsto> from_utf8_lossy (take val_end bs1))))"
  by pat_completeness auto
termination
  by (relation "measure (length \<circ> fst)") (auto simp: Let_def)

declare startup_params.simps [simp del]

definition parse_startup_message :: "bytes \<Rightarrow> (string \<rightharpoonup> string)" where
  "parse_startup_message body = (if length body < 4 then Map.empty else startup_params (drop 4 body) Map.empty)"

text \<open>\<open>$1\<close>, \<open>$2\<close>, ... are replaced one after the other, \<open>$i\<close> in the result of the earlier replacements.\<close>

fun substitute_from :: "nat \<Rightarrow> string \<Rightarrow> string list \<Rightarrow> string" where
  "substitute_from i result [] = result"
| "substitute_from i result (param # params) =
     substitute_from (Suc i) (replace_str (CHR ''$'' # nat_str (i + 1)) param result) params"

definition substitute_params :: "string \<Rightarrow> string list \<Rightarrow> string" where
  "substitute_params sql params = substitute_from 0 sql params"

definition parse_p_message :: "bytes \<Rightarrow> string \<times> string" where
  "parse_p_message body =
     (let parts = split_by (\<lambda>b. b = 0) body in
      (from_utf8_lossy (parts ! 0), from_utf8_lossy (if length parts < 2 then [] else parts ! 1)))"

text \<open>The loop over the parameters: \<open>n\<close> are still to be read at \<open>offset\<close>.\<close>

fun bind_params :: "bytes \<Rightarrow> nat \<Rightarrow> nat \<Rightarrow> string list \<Rightarrow> string list" where
  "bind_params body 0 offset params = params"
| "bind_params body (Suc n) offset params =
     (if offset + 4 \<le> length body then
        let param_len = u32_from_be (take 4 (drop offset body)); len = i32_as_usize param_len in
        if 0 < sint param_len \<and> offset + 4 + len \<le> length body then
          bind_params body n (offset + 4 + len)
            (params @ [from_utf8_lossy (take len (drop (offset + 4) body))])
        else bind_params body n (offset + 4) params
      else bind_params body n offset params)"

definition skip_nul :: "bytes \<Rightarrow> nat \<Rightarrow> nat" where
  "skip_nul body offset = offset + length (takeWhile (\<lambda>b. b \<noteq> 0) (drop offset body))"

text \<open>\<open>&body[stmt_start..offset]\<close> is out of range when the portal name is not terminated.\<close>

definition parse_b_message :: "bytes \<Rightarrow> (string \<times> string list) res" where
  "parse_b_message body =
     (let stmt_start = skip_nul body 0 + 1; stmt_end = skip_nul body stmt_start in
      if length body < stmt_end then Inl Panic
      else
        let offset = stmt_end + 1;
            params =
              (if offset + 2 \<le> length body then
                 let offset1 = offset + 2 + unat (u16_from_be (take 2 (drop offset body))) * 2 in
                 if offset1 + 2 \<le> length body then
                   bind_params body (unat (u16_from_be (take 2 (drop offset1 body)))) (offset1 + 2) []
                 else []
               else [])
        in Inr (from_utf8_lossy (slice stmt_start stmt_end body), params))"

section \<open>The message loop\<close>

record pg_session =
  prepared_statements :: "string \<rightharpoonup> string"
  bound_sql :: string

definition ready_msg :: bytes where
  "ready_msg = pg_frame (CHR ''Z'') (as_bytes ''I'')"

text \<open>The tags other than \<open>X\<close>; an unknown tag is ignored.\<close>

definition pg_message ::
    "'s sql_env \<Rightarrow> (error \<Rightarrow> string) \<Rightarrow> u8 \<Rightarrow> bytes \<Rightarrow> pg_session \<Rightarrow> ('s conn, pg_session) M" where
  "pg_message E std_text tag qbody ps =
     (if tag = byte_of (CHR ''Q'') then
        sthen (execute_and_respond E std_text (trim (from_utf8_lossy (take (length qbody - 1) qbody))))
          (sthen (send ready_msg) (ret ps))
      else if tag = byte_of (CHR ''P'') then
        (case parse_p_message qbody of (stmt_name, sql_template) \<Rightarrow>
           sthen (send (pg_frame (CHR ''1'') []))
             (ret (ps\<lparr>prepared_statements := (prepared_statements ps)(stmt_name \<mapsto> sql_template)\<rparr>)))
      else if tag = byte_of (CHR ''B'') then
        sbind (of_res (parse_b_message qbody)) (\<lambda>(stmt_name, params).
          let bound =
            (case prepared_statements ps stmt_name of
               Some template \<Rightarrow> substitute_params template params
             | None \<Rightarrow>
                 (case prepared_statements ps [] of
                    Some template \<Rightarrow> substitute_params template params
                  | None \<Rightarrow> bound_sql ps))
          in sthen (send (pg_frame (CHR ''2'') [])) (ret (ps\<lparr>bound_sql := bound\<rparr>)))
      else if tag = byte_of (CHR ''E'') then
        sthen (if bound_sql ps \<noteq> [] then execute_and_respond E std_text (bound_sql ps)
               else send_query_response ''Query OK.'')
          (sthen (send ready_msg) (ret ps))
      else if tag = byte_of (CHR ''S'') then sthen (send ready_msg) (ret ps)
      else ret ps)"

function pg_loop :: "'s sql_env \<Rightarrow> (error \<Rightarrow> string) \<Rightarrow> pg_session \<Rightarrow> bytes \<Rightarrow> ('s conn, unit) M" where
  "pg_loop E std_text ps inp =
     (case inp of
        [] \<Rightarrow> ret ()
      | tag # inp' \<Rightarrow>
          (case read_body inp' of
             Inl e \<Rightarrow> if e = UnexpectedEof then ret () else throw e
           | Inr None \<Rightarrow> ret ()
           | Inr (Some (qbody, rest)) \<Rightarrow>
               if tag = byte_of (CHR ''X'') then ret ()
               else sbind (pg_message E std_text tag qbody ps) (\<lambda>ps'. pg_loop E std_text ps' rest)))"
  by pat_completeness auto
termination
  by (relation "measure (\<lambda>(E, std_text, ps, inp). length inp)") (auto dest: read_body_shorter)

declare pg_loop.simps [simp del]

section \<open>Authentication and start-up\<close>

text \<open>\<open>None\<close> is the early return; otherwise the rest of the input after the password message.\<close>

definition md5_answer :: "('s sql_env) \<Rightarrow> bytes \<Rightarrow> string \<Rightarrow> string" where
  "md5_answer E salt expected_hash =
     (let raw_hash = (case strip_prefix ''md5'' expected_hash of Some h \<Rightarrow> h | None \<Rightarrow> expected_hash) in
      ''md5'' @ env_md5 E (raw_hash @ from_utf8_lossy salt))"

definition check_password :: "'s sql_env \<Rightarrow> bytes \<Rightarrow> string \<Rightarrow> bytes \<Rightarrow> ('s conn, bytes option) M" where
  "check_password E salt expected_hash inp =
     sthen (send (pg_frame (CHR ''R'') (u32_to_be 5 @ salt)))
       (if inp = [] \<or> hd inp \<noteq> byte_of (CHR ''p'') then
          sthen (send_error_response ''FATAL: Expected password message'') (ret None)
        else
          (case read_body (tl inp) of
             Inl e \<Rightarrow> throw e
           | Inr None \<Rightarrow> ret None
           | Inr (Some (p_body, rest)) \<Rightarrow>
               if from_utf8_lossy (take (length p_body - 1) p_body) \<noteq> md5_answer E salt expected_hash then
                 sthen (send_error_response ''FATAL: password authentication failed'') (ret None)
               else ret (Some rest)))"

definition authenticate :: "'s sql_env \<Rightarrow> bytes \<Rightarrow> string \<Rightarrow> bytes \<Rightarrow> ('s conn, bytes option) M" where
  "authenticate E salt username inp =
     sbind (cn_on_db (get_user (env_store E) (env_json E) username)) (\<lambda>found.
       case found of
         None \<Rightarrow> sthen (send_error_response ''FATAL: role does not exist'') (ret None)
       | Some info \<Rightarrow>
           (case password_hash info of
              None \<Rightarrow> ret (Some inp)
            | Some expected_hash \<Rightarrow> check_password E salt expected_hash inp))"

definition SSL_REQUEST :: u32 where
  "SSL_REQUEST = 80877103"

text \<open>The start-up payload, and the input after it; an SSL request is refused with \<open>N\<close> first.\<close>

definition read_startup :: "bytes \<Rightarrow> ('s conn, (bytes \<times> bytes) option) M" where
  "read_startup inp =
     (if length inp < 4 \<or> i32_as_usize (u32_from_be (take 4 inp)) < 8 then ret None
      else sbind (of_res (read_body inp)) (\<lambda>got.
        case got of
          None \<Rightarrow> ret None
        | Some (body, rest) \<Rightarrow>
            if u32_from_be (take 4 body) = SSL_REQUEST then
              sthen (send (as_bytes ''N'')) (of_res (read_body rest))
            else ret (Some (body, rest))))"

definition auth_greeting :: bytes where
  "auth_greeting = pg_frame (CHR ''R'') (u32_to_be 0) @ make_parameter_status ''server_version'' ''15.0'' @ ready_msg"

definition handle_connection :: "'s sql_env \<Rightarrow> (error \<Rightarrow> string) \<Rightarrow> bytes \<Rightarrow> bytes \<Rightarrow> ('s conn, unit) M" where
  "handle_connection E std_text salt inp =
     sbind (read_startup inp) (\<lambda>got.
       case got of
         None \<Rightarrow> ret ()
       | Some (payload, rest) \<Rightarrow>
           let username = (case parse_startup_message payload ''user'' of Some u \<Rightarrow> u | None \<Rightarrow> ''postgres'') in
           sbind (authenticate E salt username rest) (\<lambda>granted.
             case granted of
               None \<Rightarrow> ret ()
             | Some rest' \<Rightarrow>
                 sthen (send auth_greeting)
                   (pg_loop E std_text \<lparr>prepared_statements = Map.empty, bound_sql = []\<rparr> rest')))"

section \<open>Reading framed messages\<close>

lemma be_round_trip [simp]: "u16_from_be (u16_to_be a) = a" "u32_from_be (u32_to_be b) = b"
  by (simp_all add: u16_from_be_def u16_to_be_def u32_from_be_def u32_to_be_def byte_simps)

lemma length_be [simp]: "length (u16_to_be a) = 2" "length (u32_to_be b) = 4"
  by (simp_all add: u16_to_be_def u32_to_be_def u16_to_le_def u32_to_le_def)

lemma i32_small: "n < 2 ^ 31 \<Longrightarrow> i32_as_usize (of_nat n) = n"
proof -
  assume n: "n < 2 ^ 31"
  have "sint (of_nat n :: u32) = int n"
    using n by (simp add: signed_of_nat signed_take_bit_int_eq_self_iff)
  then show ?thesis
    using n by (simp add: i32_as_usize_def scast_eq unat_of_nat)
qed


lemma read_body_framed:
  assumes "length body + 4 < 2 ^ 31"
  shows "read_body (u32_to_be (of_nat (length body + 4)) @ body @ rest) = Inr (Some (body, rest))"
  using assms i32_small [OF assms] by (simp add: read_body_def body_len_def)

section \<open>Messages of the client, in order\<close>

lemma pg_loop_frame:
  assumes "length body + 4 < 2 ^ 31" "tag \<noteq> CHR ''X''"
  shows "pg_loop E std_text ps (pg_frame tag body @ rest) =
    sbind (pg_message E std_text (byte_of tag) body ps) (\<lambda>ps'. pg_loop E std_text ps' rest)"
  using assms read_body_framed [OF assms(1), of rest]
  by (subst pg_loop.simps) (simp add: pg_frame_def)

definition query_frame :: "string \<Rightarrow> bytes" where
  "query_frame sql = pg_frame (CHR ''Q'') (as_bytes sql @ [0])"

lemma sbind_sthen: "sbind (sthen m n) f = sthen m (sbind n f)"
  by (auto simp: sthen_def sbind_def fun_eq_iff split: sum.splits prod.splits)

lemma sthen_assoc: "sthen (sthen m n) k = sthen m (sthen n k)"
  by (simp add: sbind_sthen sthen_def [of _ k] sthen_def [of n])

lemma sthen_sbind_Pair: "sbind (Pair (Inr x)) f = f x"
  by (simp add: sbind_def fun_eq_iff)

lemma pg_query:
  assumes "valid_str sql" "length sql < 2 ^ 30"
  shows "pg_loop E std_text ps (query_frame sql @ rest) =
    sthen (sthen (execute_and_respond E std_text (trim sql)) (send ready_msg)) (pg_loop E std_text ps rest)"
  using assms
  by (simp add: query_frame_def pg_loop_frame pg_message_def sbind_sthen sthen_assoc sthen_sbind_Pair)

text \<open>
  (C28) Simple queries are answered in order: after authentication, a client that sends SQL texts
  as \<open>Q\<close> messages gets exactly the effect of running them one after the other, each followed
  by one ready-for-query message.
\<close>

theorem pg_queries_in_order:
  assumes "\<forall>sql\<in>set sqls. valid_str sql \<and> length sql < 2 ^ 30"
  shows "pg_loop E std_text ps (concat (map query_frame sqls)) =
    for_each (\<lambda>sql. sthen (execute_and_respond E std_text (trim sql)) (send ready_msg)) sqls"
  using assms
proof (induction sqls)
  case Nil
  then show ?case by (simp add: pg_loop.simps)
next
  case (Cons sql sqls)
  then show ?case by (simp add: pg_query)
qed

theorem pg_queries_in_order_witness:
  "pg_loop sample_env (\<lambda>_. ''io'') \<lparr>prepared_statements = Map.empty, bound_sql = []\<rparr>
     (concat (map query_frame [''SHOW TABLES'', ''SHOW SCHEMAS''])) =
   for_each (\<lambda>sql. sthen (execute_and_respond sample_env (\<lambda>_. ''io'') (trim sql)) (send ready_msg)) [''SHOW TABLES'', ''SHOW SCHEMAS'']"
  by (rule pg_queries_in_order) (simp add: ascii_valid)

section \<open>Authentication\<close>

lemma i32_inverse: "of_nat (i32_as_usize w) = w"
proof -
  have "(of_nat (unat (scast w :: u64)) :: u32) = ucast (scast w :: u64)"
    by (simp add: unsigned_def)
  also have "\<dots> = w"
    by transfer (simp add: take_bit_signed_take_bit)
  finally show ?thesis
    by (simp add: i32_as_usize_def)
qed

lemma read_body_split:
  assumes "read_body inp = Inr (Some (body, rest))"
  shows "inp = u32_to_be (of_nat (length body + 4)) @ body @ rest"
proof -
  have "body = take (length body) (drop 4 inp)" "rest = drop (length body) (drop 4 inp)"
    using assms by (auto simp: read_body_def body_len_def rbind_def add.commute split: if_splits)
  then have "inp = take 4 inp @ body @ rest"
    by (metis append_take_drop_id)
  moreover have "i32_as_usize (u32_from_be (take 4 inp)) = length body + 4" "length (rev (take 4 inp)) = 4"
    using assms by (auto simp: read_body_def body_len_def rbind_def split: if_splits)
  then have "of_nat (length body + 4) = u32_from_be (take 4 inp)" "u32_to_be (u32_from_be (take 4 inp)) = take 4 inp"
    by (metis i32_inverse, simp add: u32_to_be_def u32_from_be_def byte_simps)
  ultimately show ?thesis
    by metis
qed

lemma check_password_grants:
  assumes "check_password E salt h inp c = (Inr (Some rest), c')"
  shows "\<exists>p_body. inp = pg_frame (CHR ''p'') p_body @ rest \<and>
           from_utf8_lossy (take (length p_body - 1) p_body) = md5_answer E salt h"
proof -
  have inp: "inp \<noteq> []" "hd inp = byte_of (CHR ''p'')"
    using assms by (auto simp: check_password_def send_def send_error_response_def split: if_splits)
  then obtain p_body where p: "read_body (tl inp) = Inr (Some (p_body, rest))"
      "from_utf8_lossy (take (length p_body - 1) p_body) = md5_answer E salt h"
    using assms by (auto simp: check_password_def send_def send_error_response_def split: if_splits sum.splits option.splits)
  moreover have "inp = pg_frame (CHR ''p'') p_body @ rest"
    using inp read_body_split [OF p(1)] unfolding pg_frame_def by (metis append_Cons append_assoc list.collapse)
  ultimately show ?thesis
    by blast
qed

lemma check_password_out:
  assumes "check_password E salt h inp c = (r, c')"
  shows "\<exists>out. c' = c\<lparr>cn_out := cn_out c @ out\<rparr>"
  using assms
  by (auto simp: check_password_def send_def send_error_response_def split: if_splits sum.splits option.splits)

lemma refused:
  assumes "\<forall>p_body rest. inp = pg_frame (CHR ''p'') p_body @ rest \<longrightarrow>
      from_utf8_lossy (take (length p_body - 1) p_body) \<noteq> md5_answer E salt h"
  shows "\<exists>r out. check_password E salt h inp c = (r, c\<lparr>cn_out := cn_out c @ out\<rparr>) \<and> (\<forall>rest. r \<noteq> Inr (Some rest))"
proof (cases "check_password E salt h inp c")
  case (Pair r c')
  moreover have "r \<noteq> Inr (Some rest)" for rest
    using assms check_password_grants [of E salt h inp c rest c'] Pair by blast
  ultimately show ?thesis
    using check_password_out [OF Pair] by blast
qed

lemma read_startup_framed:
  assumes "length payload + 4 < 2 ^ 31" "4 \<le> length payload" "u32_from_be (take 4 payload) \<noteq> SSL_REQUEST"
  shows "read_startup (u32_to_be (of_nat (length payload + 4)) @ payload @ inp) c = (Inr (Some (payload, inp)), c)"
  using assms i32_small [OF assms(1)] read_body_framed [OF assms(1), of inp]
  by (simp add: read_startup_def)

text \<open>
  (C10) No session without credentials. For a role with a password hash, a connection whose next
  message is not a password message with \<open>md5\<close> and the digest of that hash and the salt of this
  connection never reaches the message loop: whatever the client sends, the database keeps its
  entries, and the transaction counter does not move.
\<close>

theorem authentication_required:
  assumes "lru_cache L ok" and "env_store E = database_ops L crc" and "db_holds L ok crc lsn (cn_db c) es ws"
    and "length payload + 4 < 2 ^ 31" and "4 \<le> length payload" and "u32_from_be (take 4 payload) \<noteq> SSL_REQUEST"
    and "parse_startup_message payload ''user'' = Some u" and "map_of es (as_bytes (user_key u)) = Some bs"
    and "user_from_slice (env_json E) bs = Inr info" and "password_hash info = Some h"
    and "\<forall>p_body rest. inp = pg_frame (CHR ''p'') p_body @ rest \<longrightarrow>
      from_utf8_lossy (take (length p_body - 1) p_body) \<noteq> md5_answer E salt h"
  shows "\<exists>r db out. handle_connection E std_text salt (u32_to_be (of_nat (length payload + 4)) @ payload @ inp) c =
      (r, c\<lparr>cn_db := db, cn_out := cn_out c @ out\<rparr>) \<and> db_holds L ok crc lsn db es ws"
proof -
  obtain db where db: "st_get (env_store E) (as_bytes (user_key u)) (cn_db c) = (Inr (Some bs), db)" "db_holds L ok crc lsn db es ws"
    using key_reader.getE [OF key_store.reader [OF lru_store(1) [OF assms(1)]], OF assms(3)] assms(2,8) by metis
  then have user: "cn_on_db (get_user (env_store E) (env_json E) u) c = (Inr (Some info), c\<lparr>cn_db := db\<rparr>)"
    using assms(9) by (simp add: cn_on_db_def get_user_def)
  obtain r out where r: "check_password E salt h inp (c\<lparr>cn_db := db\<rparr>) = (r, c\<lparr>cn_db := db, cn_out := cn_out c @ out\<rparr>)"
      "\<forall>rest. r \<noteq> Inr (Some rest)"
    using refused [where c = "c\<lparr>cn_db := db\<rparr>", OF assms(11)] by auto
  have "authenticate E salt u inp c = (r, c\<lparr>cn_db := db, cn_out := cn_out c @ out\<rparr>)"
    using user r(1) assms(10) by (simp add: authenticate_def)
  then have "\<exists>r. handle_connection E std_text salt (u32_to_be (of_nat (length payload + 4)) @ payload @ inp) c =
      (r, c\<lparr>cn_db := db, cn_out := cn_out c @ out\<rparr>)"
    using read_startup_framed [OF assms(4-6), of inp c] assms(7) r(2)
    by (cases r) (auto simp: handle_connection_def sbind_apply split: option.splits)
  with db(2) show ?thesis
    by blast
qed

theorem authentication_required_witness:
  "\<exists>db r db' out. db_open lru_list sum_crc config_default empty_file empty_file = Inr db \<and>
     (\<exists>db1. db_put lru_list sum_crc (as_bytes (user_key ''ann'')) (0 # 1 # as_bytes ''md5secret'') db = (Inr (), db1) \<and>
       handle_connection sample_env (\<lambda>_. ''io'') [1, 2, 3, 4]
         (u32_to_be (of_nat 17) @ ([0, 3, 0, 0] @ as_bytes ''user'' @ [0] @ as_bytes ''ann'' @ [0]) @ query_frame ''DROP TABLE pets'')
         \<lparr>cn_db = db1, cn_tx = 1, cn_out = []\<rparr> = (r, \<lparr>cn_db = db', cn_tx = 1, cn_out = out\<rparr>))"
proof -
  let ?k = "as_bytes (user_key ''ann'')" and ?v = "0 # 1 # as_bytes ''md5secret'' :: bytes"
  let ?p = "[0, 3, 0, 0] @ as_bytes ''user'' @ [0] @ as_bytes ''ann'' @ [0] :: bytes"
  have on: "enabled (wal_cfg config_default)"
    by (simp add: config_default_def)
  have "replay_fit 2 0 [] (put_entries [(?k, ?v)])"
    by (rule small_puts_fit) (simp_all add: user_key_def)
  with on obtain db where db: "db_open lru_list sum_crc config_default empty_file empty_file = Inr db"
    "db_holds lru_list lru_list_ok sum_crc 0 db [] [(?k, ?v)]"
    by (rule list_db_room)
  obtain db1 where db1: "db_put lru_list sum_crc ?k ?v db = (Inr (), db1)" "db_holds lru_list lru_list_ok sum_crc 0 db1 (ins_entry ?k ?v []) []"
    using key_store.putE [OF lru_store(1) [OF lru_list.lru_cache_axioms], OF db(2)] by (auto simp: database_ops_def)
  let ?c = "\<lparr>cn_db = db1, cn_tx = 1, cn_out = []\<rparr>"
  have u: "until_nul (as_bytes ''user'' @ [0] @ as_bytes ''ann'' @ [0]) = 4" "until_nul (as_bytes ''ann'' @ [0]) = 3"
    by (simp_all add: until_nul_def byte_of_def)
  have lossy: "from_utf8_lossy (as_bytes ''user'') = ''user''" "from_utf8_lossy (as_bytes ''ann'') = ''ann''"
    by (rule from_utf8_lossy_as_bytes, simp add: ascii_valid)+
  have user: "parse_startup_message ?p ''user'' = Some ''ann''"
    using u lossy unfolding parse_startup_message_def by (simp add: startup_params.simps)
  have pre: "env_store sample_env = database_ops lru_list sum_crc" "db_holds lru_list lru_list_ok sum_crc 0 (cn_db ?c) (ins_entry ?k ?v []) []"
      "length ?p + 4 < 2 ^ 31" "4 \<le> length ?p" "u32_from_be (take 4 ?p) \<noteq> SSL_REQUEST" "map_of (ins_entry ?k ?v []) ?k = Some ?v"
      "user_from_slice (env_json sample_env) ?v = Inr \<lparr>password_hash = Some ''md5secret'', is_superuser = False\<rparr>"
      "password_hash \<lparr>password_hash = Some ''md5secret'', is_superuser = False\<rparr> = Some ''md5secret''"
    using db1(2) by (simp_all add: sample_env_def u32_from_be_def u32_from_le_def SSL_REQUEST_def sample_json_def)
  have "\<forall>p_body rest. query_frame ''DROP TABLE pets'' = pg_frame (CHR ''p'') p_body @ rest \<longrightarrow>
      from_utf8_lossy (take (length p_body - 1) p_body) \<noteq> md5_answer sample_env [1, 2, 3, 4] ''md5secret''"
    by (simp add: query_frame_def pg_frame_def)
  from authentication_required [OF lru_list.lru_cache_axioms pre(1-5) user pre(6-8) this, where std_text = "\<lambda>_. ''io''"] db(1) db1(1)
  show ?thesis
    by (elim exE conjE) (intro exI conjI, assumption, assumption, simp)
qed

section \<open>Result tables on the wire\<close>

definition plain_cell :: "string \<Rightarrow> bool" where
  "plain_cell s \<longleftrightarrow> CHR ''|'' \<notin> set s \<and> newline \<notin> set s \<and> trim s = s"

lemma trim_padded: "trim (CHR '' '' # s @ '' '') = trim s"
  by (simp add: trim_by_Cons trim_by_snoc white_space_def)

lemma split_padded:
  assumes "r \<noteq> []" "\<forall>s\<in>set r. plain_cell s"
  shows "map trim (split_char (CHR ''|'') (CHR '' '' # join bar r @ '' '')) = r"
  using assms
proof (induction r rule: induct_list012)
  case (2 s)
  then have "split_char (CHR ''|'') (CHR '' '' # s @ '' '') = [CHR '' '' # s @ '' '']"
    by (intro split_by_single) (auto simp: plain_cell_def)
  with 2 show ?case
    by (simp add: trim_padded plain_cell_def)
next
  case (3 s t r)
  have "split_char (CHR ''|'') ((CHR '' '' # s @ '' '') @ CHR ''|'' # (CHR '' '' # join bar (t # r) @ '' '')) =
      (CHR '' '' # s @ '' '') # split_char (CHR ''|'') (CHR '' '' # join bar (t # r) @ '' '')"
    using 3 by (intro split_by_sep) (auto simp: plain_cell_def)
  then show ?case
    using 3 by (simp add: bar_def trim_padded plain_cell_def)
qed simp

lemma trim_framed: "trim_char (CHR ''|'') (framed s) = CHR '' '' # s @ '' ''"
  using trim_ends [of "\<lambda>d. d = CHR ''|''" "CHR ''|''" "CHR ''|''" "CHR '' '' # s @ '' ''"] by (simp add: framed_def)

lemma cells_of_framed: "r \<noteq> [] \<Longrightarrow> \<forall>s\<in>set r. plain_cell s \<Longrightarrow> cells_of (framed (join bar r)) = r"
  unfolding cells_of_def trim_framed by (rule split_padded)

text \<open>Trimming the whole line first does not change the trimmed parts.\<close>

lemma split_trim_Cons:
  assumes "white_space w" "\<not> white_space c"
  shows "map trim (split_char c (w # s)) = map trim (split_char c s)"
  using assms split_by_not_Nil [of "\<lambda>d. d = c" s]
  by (cases "split_char c s") (auto simp: trim_by_Cons)

lemma split_by_snoc: "\<not> P w \<Longrightarrow> split_by P (s @ [w]) = butlast (split_by P s) @ [last (split_by P s) @ [w]]"
  by (induction s) (auto split: list.splits)

lemma split_trim_snoc:
  assumes "white_space w" "\<not> white_space c"
  shows "map trim (split_char c (s @ [w])) = map trim (split_char c s)"
proof -
  have "w \<noteq> c"
    using assms by blast
  then have "map trim (split_char c (s @ [w])) = map trim (butlast (split_char c s)) @ [trim (last (split_char c s))]"
    by (simp add: split_by_snoc trim_by_snoc assms(1))
  then show ?thesis
    by (metis append_butlast_last_id list.simps(8,9) map_append split_by_not_Nil)
qed

lemma header_cells:
  assumes "r \<noteq> []" "\<forall>s\<in>set r. plain_cell s"
  shows "map trim (split_char (CHR ''|'') (trim (trim_char (CHR ''|'') (framed (join bar r))))) = r"
proof -
  have bar: "\<not> white_space (CHR ''|'')"
    by (simp add: white_space_def)
  have drop: "map trim (split_char (CHR ''|'') (dropWhile white_space s)) = map trim (split_char (CHR ''|'') s)" for s
  proof (induction s)
    case (Cons w s)
    then show ?case
      using split_trim_Cons [OF _ bar] by (cases "white_space w") (simp_all del: split_by.simps)
  qed simp
  have from_end: "map trim (split_char (CHR ''|'') (trim_end_by white_space s)) = map trim (split_char (CHR ''|'') s)" for s
  proof (induction s rule: rev_induct)
    case (snoc w s)
    then show ?case
      using split_trim_snoc [OF _ bar] by (cases "white_space w") (simp_all add: trim_end_snoc, simp add: trim_end_by_def)
  qed (simp add: trim_end_by_def)
  have "trim s = trim_end_by white_space (dropWhile white_space s)" for s
    by (simp add: trim_by_def trim_start_by_def)
  then have "map trim (split_char (CHR ''|'') (trim s)) = map trim (split_char (CHR ''|'') s)" for s
    using from_end [of "dropWhile white_space s"] drop [of s] by metis
  then show ?thesis
    unfolding trim_framed using split_padded [OF assms] by metis
qed

lemma lines_join:
  assumes "ls \<noteq> []" "\<forall>l\<in>set ls. newline \<notin> set l" "last ls \<noteq> []" "\<forall>l\<in>set (butlast ls). chomp l = l"
  shows "lines (join [newline] ls) = ls"
proof -
  have "map chomp (butlast ls) = butlast ls"
    using assms(4) by (simp add: map_idI)
  then show ?thesis
    using assms(1,3) split_join [OF assms(1,2)] by (simp add: lines_def)
qed

lemma join_lines: "join [newline] (ls @ [t]) = concat (map (\<lambda>l. l @ [newline]) ls) @ t"
proof (induction ls)
  case (Cons l ls)
  then show ?case by (cases ls) simp_all
qed simp

definition rule_line :: string where
  "rule_line = ''+-----------------+''"

lemma render_join: "render header lns footer = join [newline] ((rule_line # header # rule_line # lns @ [rule_line]) @ [footer])"
  unfolding join_lines by (simp add: render_def rule_def rule_line_def)

lemma chomp_framed: "chomp (framed s) = framed s" "chomp rule_line = rule_line"
  by (simp_all add: chomp_def framed_def rule_line_def)

lemma framed_no_newline:
  assumes "\<forall>s\<in>set r. plain_cell s"
  shows "newline \<notin> set (framed (join bar r))"
proof
  assume "newline \<in> set (framed (join bar r))"
  then have "newline \<in> set (join bar r)"
    by (auto simp: framed_def newline_def)
  then have "newline \<in> set bar \<or> (\<exists>s\<in>set r. newline \<in> set s)"
    by (rule join_chars)
  then show False
    using assms by (auto simp: plain_cell_def bar_def newline_def)
qed

lemma digits_no_newline: "newline \<notin> set (nat_str n)"
proof
  assume "newline \<in> set (nat_str n)"
  then have "is_digit newline"
    using nat_str_digits [of n] by (auto simp: list_all_iff)
  then show False
    by (simp add: is_digit_def newline_def)
qed

lemma table_lines:
  assumes "\<forall>s\<in>set cols. plain_cell s" "\<forall>r\<in>set rows. \<forall>s\<in>set r. plain_cell s"
  shows "lines (format_table_output cols rows) =
    rule_line # framed (join bar cols) # rule_line # map (\<lambda>r. framed (join bar r)) rows @ [rule_line, count_footer ''row(s)'' rows]"
proof -
  have "newline \<notin> set (count_footer ''row(s)'' rows)" "newline \<notin> set rule_line"
    using digits_no_newline by (auto simp: count_footer_def rule_line_def newline_def)
  then have "\<forall>l\<in>set ((rule_line # framed (join bar cols) # rule_line # map (\<lambda>r. framed (join bar r)) rows @ [rule_line]) @
      [count_footer ''row(s)'' rows]). newline \<notin> set l"
    using assms framed_no_newline by auto
  then show ?thesis
    unfolding format_table_output_def render_join
    by (subst lines_join) (auto simp: chomp_framed butlast_append count_footer_def)
qed

text \<open>
  (C29) A result table reaches a PostgreSQL client cell by cell: for a table with at least one
  column whose names and cells hold no bar, no line break and no space at either end, the response
  is one row description with the column names, one data row per row with exactly its cells, and
  the completion message.
\<close>

theorem pg_table_response:
  assumes "cols \<noteq> []" and "\<forall>s\<in>set cols. plain_cell s"
    and "\<forall>r\<in>set rows. r \<noteq> [] \<and> (\<forall>s\<in>set r. plain_cell s)"
  shows "send_query_response (format_table_output cols rows) c =
    (Inr (), c\<lparr>cn_out := cn_out c @ row_description cols @ concat (map data_row rows) @ command_complete\<rparr>)"
proof -
  let ?ls = "lines (format_table_output cols rows)"
  have ls: "?ls = rule_line # framed (join bar cols) # rule_line # map (\<lambda>r. framed (join bar r)) rows @ [rule_line, count_footer ''row(s)'' rows]"
    using assms by (intro table_lines) auto
  have "for_each (\<lambda>line. if starts_with ''|'' line then send (data_row (cells_of line)) else ret ())
      (map (\<lambda>r. framed (join bar r)) rs) c = (Inr (), c\<lparr>cn_out := cn_out c @ concat (map data_row rs)\<rparr>)"
    if "\<forall>r\<in>set rs. r \<noteq> [] \<and> (\<forall>s\<in>set r. plain_cell s)" for rs and c :: "'a conn"
    using that
  proof (induction rs arbitrary: c)
    case (Cons r rs)
    then have "cells_of (framed (join bar r)) = r" "starts_with ''|'' (framed (join bar r))"
      by (simp add: cells_of_framed, simp add: framed_def)
    with Cons show ?case
      by (simp add: send_def)
  qed simp
  moreover have "take (length ?ls - 5) (drop 3 ?ls) = map (\<lambda>r. framed (join bar r)) rows" "length ?ls = length rows + 5"
      "?ls ! 0 = rule_line" "?ls ! 1 = framed (join bar cols)"
    by (simp_all add: ls)
  moreover have "starts_with ''+--'' rule_line"
    by (simp add: rule_line_def)
  ultimately show ?thesis
    using assms header_cells [of cols] by (simp add: send_query_response_def Let_def send_def)
qed

theorem pg_table_response_witness:
  "\<forall>c. send_query_response (format_table_output [''id'', ''name''] [[''1'', ''rex''], [''2'', []]]) c =
    (Inr (), c\<lparr>cn_out := cn_out c @ row_description [''id'', ''name''] @
       concat (map data_row [[''1'', ''rex''], [''2'', []]]) @ command_complete\<rparr>)"
  by (intro allI pg_table_response) (simp_all add: plain_cell_def newline_def text_eval)

section \<open>Parameters\<close>

text \<open>A template as its literal parts and its placeholders.\<close>

datatype piece = Lit string | Par nat

fun print_piece :: "piece \<Rightarrow> string" where
  "print_piece (Lit s) = s"
| "print_piece (Par i) = CHR ''$'' # nat_str (i + 1)"

fun fill_piece :: "nat \<Rightarrow> string \<Rightarrow> piece \<Rightarrow> piece" where
  "fill_piece i v (Lit s) = Lit s"
| "fill_piece i v (Par j) = (if j = i then Lit v else Par j)"

fun piece_value :: "string list \<Rightarrow> piece \<Rightarrow> string" where
  "piece_value params (Lit s) = s"
| "piece_value params (Par i) = params ! i"

fun piece_ok :: "nat \<Rightarrow> nat \<Rightarrow> piece \<Rightarrow> bool" where
  "piece_ok i n (Lit s) = (CHR ''$'' \<notin> set s)"
| "piece_ok i n (Par j) = (i \<le> j \<and> j < n)"

lemma replace_Nil: "replace_str p q [] = []"
  by (simp add: replace_str.simps)

lemma replace_skip: "CHR ''$'' \<notin> set s \<Longrightarrow> replace_str (CHR ''$'' # d) q (s @ t) = s @ replace_str (CHR ''$'' # d) q t"
proof (induction s)
  case (Cons c s)
  then show ?case by (subst replace_str.simps) auto
qed simp

lemma replace_hit: "replace_str (CHR ''$'' # d) q ((CHR ''$'' # d) @ t) = q @ replace_str (CHR ''$'' # d) q t"
  by (subst replace_str.simps) simp

lemma nat_str_single: "n < 10 \<Longrightarrow> nat_str n = [digit n]"
  by (simp add: nat_str.simps)

lemma replace_miss:
  assumes "i < 9" "j < 9" "i \<noteq> j"
  shows "replace_str (CHR ''$'' # nat_str (i + 1)) q ((CHR ''$'' # nat_str (j + 1)) @ t) =
    (CHR ''$'' # nat_str (j + 1)) @ replace_str (CHR ''$'' # nat_str (i + 1)) q t"
proof -
  have "digit (i + 1) \<noteq> digit (j + 1)"
    using assms nat_str_inject [of "i + 1" "j + 1"] by (simp add: nat_str_single del: nat_str_inject)
  moreover have "digit (j + 1) \<noteq> CHR ''$''"
    using assms digit_simps(1) [of "j + 1"] by (auto simp: is_digit_def)
  ultimately have "replace_str (CHR ''$'' # nat_str (i + 1)) q ((CHR ''$'' # nat_str (j + 1)) @ t) =
      CHR ''$'' # replace_str (CHR ''$'' # nat_str (i + 1)) q (nat_str (j + 1) @ t)"
    using assms by (subst replace_str.simps) (simp add: nat_str_single)
  also have "\<dots> = (CHR ''$'' # nat_str (j + 1)) @ replace_str (CHR ''$'' # nat_str (i + 1)) q t"
    using \<open>digit (j + 1) \<noteq> CHR ''$''\<close> assms by (subst replace_skip) (simp_all add: nat_str_single)
  finally show ?thesis .
qed

lemma replace_piece:
  assumes "\<forall>p\<in>set ps. piece_ok 0 9 p" "i < 9"
  shows "replace_str (CHR ''$'' # nat_str (i + 1)) v (concat (map print_piece ps)) =
    concat (map print_piece (map (fill_piece i v) ps))"
  using assms
proof (induction ps)
  case (Cons p ps)
  then have IH: "replace_str (CHR ''$'' # nat_str (i + 1)) v (concat (map print_piece ps)) =
      concat (map print_piece (map (fill_piece i v) ps))"
    by simp
  show ?case
  proof (cases p)
    case (Lit s)
    then show ?thesis
      using Cons.prems IH replace_skip [of s] by simp
  next
    case (Par j)
    then show ?thesis
      using Cons.prems IH replace_hit [of "nat_str (i + 1)"] replace_miss [of i j v] by (cases "j = i") auto
  qed
qed (simp add: replace_Nil)

lemma substitute_pieces:
  assumes "\<forall>p\<in>set ps. piece_ok i n p" "n = i + length params" "n \<le> 9" "\<forall>v\<in>set params. CHR ''$'' \<notin> set v"
    and "drop i all = params" "i \<le> length all"
  shows "substitute_from i (concat (map print_piece ps)) params = concat (map (piece_value all) ps)"
  using assms
proof (induction params arbitrary: i ps)
  case Nil
  have "map print_piece ps = map (piece_value all) ps"
  proof (rule map_cong [OF refl])
    fix p
    assume "p \<in> set ps"
    with Nil have "piece_ok i i p"
      by simp
    then show "print_piece p = piece_value all p"
      by (cases p) auto
  qed
  then show ?case
    by (simp only: substitute_from.simps)
next
  case (Cons v params)
  let ?ps = "map (fill_piece i v) ps"
  have "piece_ok 0 9 p" if "p \<in> set ps" for p
    using bspec [OF Cons.prems(1) that] Cons.prems(3) by (cases p) auto
  then have "replace_str (CHR ''$'' # nat_str (i + 1)) v (concat (map print_piece ps)) = concat (map print_piece ?ps)"
    using Cons.prems by (intro replace_piece) auto
  moreover have "\<forall>p\<in>set ?ps. piece_ok (Suc i) n p"
  proof
    fix p
    assume "p \<in> set ?ps"
    then obtain p0 where p0: "p0 \<in> set ps" "p = fill_piece i v p0"
      by auto
    show "piece_ok (Suc i) n p"
      unfolding p0(2) using bspec [OF Cons.prems(1) p0(1)] Cons.prems(4) by (cases p0) auto
  qed
  moreover have "drop (Suc i) all = params" "Suc i \<le> length all"
  proof -
    show "drop (Suc i) all = params"
      using Cons.prems(5) by (metis drop_Suc tl_drop list.sel(3))
    show "Suc i \<le> length all"
      using Cons.prems(5) by (metis drop_eq_Nil leI list.distinct(1) Suc_leI)
  qed
  ultimately have "substitute_from i (concat (map print_piece ps)) (v # params) = concat (map (piece_value all) ?ps)"
    using Cons.IH [of ?ps "Suc i"] Cons.prems by simp
  moreover have "piece_value all (fill_piece i v p) = piece_value all p" for p
    using Cons.prems(5) by (cases p) (auto simp: nth_via_drop)
  then have "map (piece_value all) ?ps = map (piece_value all) ps"
    by simp
  ultimately show ?case
    by (simp only:)
qed

text \<open>
  (C30) Bound parameters arrive where the template asks for them: with at most nine parameters,
  none of which holds a dollar sign, replacing \<open>$1\<close>, \<open>$2\<close>, ... one after the other gives the
  template with every placeholder replaced at once.
\<close>

theorem substitute_params_at_once:
  assumes "length params \<le> 9" and "\<forall>v\<in>set params. CHR ''$'' \<notin> set v"
    and "\<forall>p\<in>set ps. piece_ok 0 (length params) p"
  shows "substitute_params (concat (map print_piece ps)) params = concat (map (piece_value params) ps)"
  unfolding substitute_params_def by (rule substitute_pieces [of _ _ "length params"]) (use assms in auto)

theorem substitute_params_at_once_witness:
  "substitute_params (concat (map print_piece [Lit ''id = '', Par 0, Lit '' AND name = '', Par 1])) [''1'', ''rex''] =
     ''id = 1 AND name = rex''"
  using substitute_params_at_once [of "[''1'', ''rex'']" "[Lit ''id = '', Par 0, Lit '' AND name = '', Par 1]"] by simp

text \<open>
  With ten parameters the tenth is lost: the placeholder \<open>$10\<close> is taken for \<open>$1\<close> followed by
  a zero, so it becomes the first parameter with a zero appended.
\<close>

theorem substitute_tenth_param:
  assumes "\<forall>v\<in>set (p # params). CHR ''$'' \<notin> set v"
  shows "substitute_params ''$10'' (p # params) = p @ ''0''"
proof -
  have "substitute_from i s params = s" if "CHR ''$'' \<notin> set s" for s i and params :: "string list"
    using that
  proof (induction params arbitrary: i)
    case (Cons v params)
    then show ?case
      using replace_skip [of s "nat_str (i + 1)" v "[]"] by (simp add: replace_Nil)
  qed simp
  moreover have "replace_str (CHR ''$'' # nat_str (0 + 1)) p ''$10'' = p @ ''0''"
    using replace_hit [of "''1''" p "''0''"] replace_skip [of "''0''" "''1''" p "[]"]
    by (simp add: nat_str_single digit_def replace_Nil)
  ultimately show ?thesis
    using assms by (simp add: substitute_params_def)
qed

theorem substitute_tenth_param_witness:
  "substitute_params ''$10'' [''a'', ''b'', ''c'', ''d'', ''e'', ''f'', ''g'', ''h'', ''i'', ''j''] = ''a0''"
  using substitute_tenth_param [of "''a''" "[''b'', ''c'', ''d'', ''e'', ''f'', ''g'', ''h'', ''i'', ''j'']"] by simp

end
