(* ===== verification/Server.thy ===== *)
theory Server
  imports Pgwire
begin

text \<open>
  The TCP server (\<open>src/network/server.rs\<close>): its limits, the answer to a connection over the
  limit, and the loop that serves one connection, which speaks the length-prefixed protocol or
  hands the socket to the PostgreSQL handler.

  One connection is modelled at a time: \<open>serve_connection\<close> is the body of the spawned task, on
  the bytes its client sends. The listener, the scheduling of the tasks and the idle timeout are
  the runtime's.
\<close>

section \<open>The server\<close>

record 's server =
  sv_db :: 's
  sv_addr :: string
  sv_max_connections :: nat
  sv_idle_timeout :: u64

definition server_new :: "'s \<Rightarrow> string \<Rightarrow> 's server" where
  "server_new db addr = \<lparr>sv_db = db, sv_addr = addr, sv_max_connections = 128, sv_idle_timeout = 30\<rparr>"

definition with_limits :: "'s server \<Rightarrow> nat \<Rightarrow> u64 \<Rightarrow> 's server" where
  "with_limits srv maxc secs = srv\<lparr>sv_max_connections := maxc, sv_idle_timeout := secs\<rparr>"

text \<open>A response of the length-prefixed protocol.\<close>

definition le_frame :: "bytes \<Rightarrow> bytes" where
  "le_frame bs = u32_to_le (of_nat (length bs)) @ bs"

text \<open>
  The semaphore holds \<open>max_connections\<close> permits, one per connection being served: what a new
  connection is sent when none is left.
\<close>

definition reject_connection :: "'s server \<Rightarrow> nat \<Rightarrow> bytes option" where
  "reject_connection srv served =
     (if served < sv_max_connections srv then None
      else Some (le_frame (as_bytes (''Error: Too many connections'' @ [newline]))))"

section \<open>One connection\<close>

definition MAX_QUERY :: nat where
  "MAX_QUERY = 16 * 1024 * 1024"

text \<open>A big-endian reading of the first four bytes between 8 and 10000 is taken for a PostgreSQL client.\<close>

definition looks_pgwire :: "bytes \<Rightarrow> bool" where
  "looks_pgwire len_buf \<longleftrightarrow> 8 \<le> sint (u32_from_be len_buf) \<and> sint (u32_from_be len_buf) \<le> 10000"

definition query_response :: "'s sql_env \<Rightarrow> (error \<Rightarrow> string) \<Rightarrow> string \<Rightarrow> ('s conn, string) M" where
  "query_response E std_text query = (\<lambda>c.
     case run_query E query c of
       (Inr out, c') \<Rightarrow> (Inr out, c')
     | (Inl e, c') \<Rightarrow> if fatal e then (Inl e, c') else (Inr (''Error: '' @ error_text std_text e), c'))"

text \<open>One request of the length-prefixed protocol.\<close>

definition serve_query :: "'s sql_env \<Rightarrow> (error \<Rightarrow> string) \<Rightarrow> bytes \<Rightarrow> ('s conn, unit) M" where
  "serve_query E std_text query_buf =
     sbind (query_response E std_text (from_utf8_lossy query_buf)) (\<lambda>response. send (le_frame (as_bytes response)))"

text \<open>The PostgreSQL handler gets the socket after the four bytes read here.\<close>

function serve_connection :: "'s sql_env \<Rightarrow> (error \<Rightarrow> string) \<Rightarrow> bytes \<Rightarrow> bytes \<Rightarrow> ('s conn, unit) M" where
  "serve_connection E std_text salt inp =
     (if length inp < 4 then ret ()
      else let len_buf = take 4 inp; inp1 = drop 4 inp in
        if looks_pgwire len_buf then
          (\<lambda>c. case handle_connection E std_text salt inp1 c of
             (Inl e, c') \<Rightarrow> if fatal e then (Inl e, c') else (Inr (), c')
           | (Inr (), c') \<Rightarrow> (Inr (), c'))
        else let query_len = unat (u32_from_le len_buf) in
          if MAX_QUERY < query_len then ret ()
          else if length inp1 < query_len then ret ()
          else sthen (serve_query E std_text (take query_len inp1))
                 (serve_connection E std_text salt (drop query_len inp1)))"
  by pat_completeness auto
termination
  by (relation "measure (\<lambda>(E, std_text, salt, inp). length inp)") auto

declare serve_connection.simps [simp del]

lemma sint_range: "8 \<le> sint (w :: u32) \<Longrightarrow> sint w \<le> 10000 \<Longrightarrow> 8 \<le> unat w \<and> unat w \<le> 10000"
  by (simp add: unat_eq_nat_uint uint_sint take_bit_int_eq_self) linarith

lemma le_enc_4: "le_enc 4 x = [of_nat (x mod 256), of_nat (x div 256 mod 256), of_nat (x div 65536 mod 256), of_nat (x div 16777216 mod 256)]"
proof -
  have "le_enc (Suc (Suc (Suc (Suc 0)))) x = [of_nat (x mod 256), of_nat (x div 256 mod 256), of_nat (x div 65536 mod 256), of_nat (x div 16777216 mod 256)]"
    by (simp add: div_mult2_eq [symmetric])
  moreover have "Suc (Suc (Suc (Suc 0))) = 4"
    by simp
  ultimately show ?thesis
    by (simp only:)
qed

lemma big_parts: "65536 * a + 16777216 * b \<le> 10000 \<Longrightarrow> a = 0 \<and> b = (0 :: nat)"
  by linarith

lemma not_pgwire:
  assumes "0 < n" "n < 65536"
  shows "\<not> looks_pgwire (u32_to_le (of_nat n))"
proof
  let ?w = "u32_from_be (u32_to_le (of_nat n))"
  assume "looks_pgwire (u32_to_le (of_nat n))"
  then have "unat ?w \<le> 10000"
    by (simp add: looks_pgwire_def sint_range)
  moreover have "unat ?w = 65536 * (n div 256 mod 256) + 16777216 * (n mod 256)"
  proof -
    have "unat (of_nat n :: u32) = n"
      using assms by (simp add: unat_of_nat)
    then have 1: "le_dec (rev (u32_to_le (of_nat n))) = 65536 * (n div 256 mod 256) + 16777216 * (n mod 256)"
      using assms by (simp add: u32_to_le_def le_enc_4 unat_of_nat)
    have "65536 * (n div 256 mod 256) + 16777216 * (n mod 256) < 2 ^ 32"
      using mod_less_divisor [of 256 n] mod_less_divisor [of 256 "n div 256"] by simp
    then show ?thesis
      unfolding u32_from_be_def u32_from_le_def 1 by (simp del: of_nat_add of_nat_mult add: unat_of_nat)
  qed
  ultimately have "n div 256 mod 256 = 0" "n mod 256 = 0"
    using big_parts by metis+
  moreover have "n div 256 mod 256 = n div 256"
    using assms by simp
  ultimately show False
    using assms div_mult_mod_eq [of n 256] by simp
qed

lemma serve_framed:
  assumes "0 < length q" "length q < 65536"
  shows "serve_connection E std_text salt (le_frame q @ rest) =
           sthen (serve_query E std_text q) (serve_connection E std_text salt rest)"
proof -
  have len: "unat (of_nat (length q) :: u32) = length q"
    using assms by (simp add: unat_of_nat)
  have inp: "take 4 (le_frame q @ rest) = u32_to_le (of_nat (length q))" "drop 4 (le_frame q @ rest) = q @ rest"
      "\<not> length (le_frame q @ rest) < 4"
    by (simp_all add: le_frame_def)
  show ?thesis
    unfolding serve_connection.simps [of _ _ _ "le_frame q @ rest"] inp Let_def if_not_P [OF inp(3)]
      if_not_P [OF not_pgwire [OF assms]]
    using assms len by (simp add: MAX_QUERY_def)
qed

lemma serve_queries:
  assumes "\<forall>q\<in>set qs. 0 < length q \<and> length q < 65536"
  shows "serve_connection E std_text salt (concat (map le_frame qs)) = for_each (serve_query E std_text) qs"
  using assms
proof (induction qs)
  case Nil
  then show ?case by (simp add: serve_connection.simps)
next
  case (Cons q qs)
  then show ?case by (simp add: serve_framed)
qed

lemma run_query_out: "run_query E sql c = (r, c') \<Longrightarrow> cn_out c' = cn_out c"
  by (auto simp: run_query_def Let_def split: sum.splits prod.splits)

lemma query_response_out: "query_response E std_text q c = (r, c') \<Longrightarrow> cn_out c' = cn_out c"
  by (auto simp: query_response_def dest: run_query_out split: sum.splits prod.splits if_splits)

lemma serve_query_out:
  assumes "serve_query E std_text q c = (Inr (), c')"
  shows "\<exists>r. cn_out c' = cn_out c @ le_frame (as_bytes r)"
proof (cases "query_response E std_text (from_utf8_lossy q) c")
  case (Pair r c1)
  then show ?thesis
    using assms query_response_out [OF Pair]
    by (cases r) (auto simp: serve_query_def send_def)
qed

lemma for_each_serve_out:
  assumes "for_each (serve_query E std_text) qs c = (Inr (), c')"
  shows "\<exists>rs. length rs = length qs \<and> cn_out c' = cn_out c @ concat (map (\<lambda>r. le_frame (as_bytes r)) rs)"
  using assms
proof (induction qs arbitrary: c)
  case (Cons q qs)
  then obtain c1 where 1: "serve_query E std_text q c = (Inr (), c1)" and 2: "for_each (serve_query E std_text) qs c1 = (Inr (), c')"
    by (auto simp: sthen_def sbind_apply split: sum.splits prod.splits)
  obtain r rs where "cn_out c1 = cn_out c @ le_frame (as_bytes r)" "length rs = length qs"
      "cn_out c' = cn_out c1 @ concat (map (\<lambda>r. le_frame (as_bytes r)) rs)"
    using serve_query_out [OF 1] Cons.IH [OF 2] by blast
  then show ?case
    by (intro exI [of _ "r # rs"]) simp
qed simp


lemma parse_tx: "parse ''BEGIN'' = Inr Begin" "parse ''COMMIT'' = Inr Commit" "parse ''ROLLBACK'' = Inr Rollback"
  by (simp_all add: parse_def parse_body_def text_eval)


lemma run_tx_end:
  assumes "sql \<in> {''COMMIT'', ''ROLLBACK''}"
  shows "run_query E sql c =
    (Inl (Message ''No transaction in progress''), c\<lparr>cn_db := snd (init_default_schema (env_store E) (env_json E) (cn_db c))\<rparr>)"
  using assms by (auto simp: run_query_def parse_tx executor_new_def exec_commit_def exec_rollback_def throw_msg_def Let_def)

lemma lossy_tx: "from_utf8_lossy (as_bytes ''COMMIT'') = ''COMMIT''" "from_utf8_lossy (as_bytes ''ROLLBACK'') = ''ROLLBACK''"
  by (rule from_utf8_lossy_as_bytes, simp add: ascii_valid)+


text \<open>
  (C27) The length-prefixed protocol serves the queries of a client in order: for queries between 1
  and 65535 bytes, the connection does exactly what running the queries one after the other does,
  and when all of them return, the client has received one framed response per query and nothing
  else.
\<close>

theorem server_serves_in_order:
  assumes "\<forall>q\<in>set qs. 0 < length q \<and> length q < 65536"
      and "serve_connection E std_text salt (concat (map le_frame qs)) c = (r, c')"
  shows "for_each (serve_query E std_text) qs c = (r, c') \<and>
    (r = Inr () \<longrightarrow> (\<exists>rs. length rs = length qs \<and> cn_out c' = cn_out c @ concat (map (\<lambda>r. le_frame (as_bytes r)) rs)))"
  using assms(2) for_each_serve_out [of E std_text qs c c'] unfolding serve_queries [OF assms(1)] by blast

theorem server_serves_in_order_witness:
  "\<forall>db. \<exists>r c' rs. for_each (serve_query sample_env (\<lambda>_. ''io'')) [as_bytes ''COMMIT''] \<lparr>cn_db = db, cn_tx = 1, cn_out = []\<rparr> = (r, c') \<and>
     r = Inr () \<and> length rs = 1 \<and> cn_out c' = concat (map (\<lambda>r. le_frame (as_bytes r)) rs)"
proof
  fix db :: "(nat \<times> (32 word \<times> nat \<times> bool) list) database"
  let ?c = "\<lparr>cn_db = db, cn_tx = 1, cn_out = []\<rparr>" and ?q = "as_bytes ''COMMIT''"
  have q: "\<forall>q\<in>set [?q]. 0 < length q \<and> length q < 65536"
    by simp
  obtain c1 where run: "serve_query sample_env (\<lambda>_. ''io'') ?q ?c = (Inr (), c1)"
    using lossy_tx run_tx_end [of "''COMMIT''" sample_env ?c]
    by (simp add: serve_query_def query_response_def fatal_def error_text_def send_def)
  then have "serve_connection sample_env (\<lambda>_. ''io'') [] (concat (map le_frame [?q])) ?c = (Inr (), c1)"
    unfolding serve_queries [OF q] by (simp add: sthen_def sbind_apply del: list.map)
  from server_serves_in_order [OF q this]
  show "\<exists>r c' rs. for_each (serve_query sample_env (\<lambda>_. ''io'')) [?q] ?c = (r, c') \<and>
     r = Inr () \<and> length rs = 1 \<and> cn_out c' = concat (map (\<lambda>r. le_frame (as_bytes r)) rs)"
    by auto
qed

section \<open>Findings of the network layer\<close>

lemma take_drop_be: "take 4 (u32_to_be w @ xs) = u32_to_be w" "drop 4 (u32_to_be w @ xs) = xs"
  by simp_all

lemma read_body_short:
  assumes "n < 2 ^ 31" "8 \<le> n" "length rest < n - 4"
  shows "read_startup (u32_to_be (of_nat n) @ rest) c = (Inl UnexpectedEof, c)"
proof -
  have "read_body (u32_to_be (of_nat n) @ rest) = Inl UnexpectedEof"
    using assms by (simp add: read_body_def body_len_def i32_small)
  then show ?thesis
    using assms by (simp add: read_startup_def i32_small sbind_apply)
qed

text \<open>
  (C35) No PostgreSQL client gets an answer through the server. The server consumes the four length
  bytes of the first packet before it hands the socket to the handler, which reads a length of its
  own: it takes the protocol version 3.0 (or the SSL request code) for the length of the packet and
  waits for that many bytes. Whatever the rest of the start-up packet holds, the connection ends
  with nothing sent.
\<close>

theorem server_startup_unanswered:
  assumes "n \<in> {8..10000}" "code \<in> {196608, 80877103}" "length rest < code - 4"
  shows "serve_connection E std_text salt (u32_to_be (of_nat n) @ u32_to_be (of_nat code) @ rest) c = (Inr (), c)"
proof -
  have pg: "looks_pgwire (u32_to_be (of_nat n))"
    using assms(1) by (simp add: looks_pgwire_def signed_of_nat signed_take_bit_int_eq_self)
  have "read_startup (u32_to_be (of_nat code) @ rest) c = (Inl UnexpectedEof, c)"
    using assms(2,3) by (intro read_body_short) auto
  then have "handle_connection E std_text salt (u32_to_be (of_nat code) @ rest) c = (Inl UnexpectedEof, c)"
    by (simp add: handle_connection_def)
  then show ?thesis
    using pg by (simp add: serve_connection.simps Let_def fatal_def)
qed

theorem server_startup_unanswered_witness:
  "\<forall>db. serve_connection sample_env (\<lambda>_. ''io'') [1, 2, 3, 4]
     (u32_to_be (of_nat 14) @ u32_to_be (of_nat 196608) @ as_bytes ''user'' @ [0, 0])
     \<lparr>cn_db = db, cn_tx = 1, cn_out = []\<rparr> = (Inr (), \<lparr>cn_db = db, cn_tx = 1, cn_out = []\<rparr>)"
  by (intro allI server_startup_unanswered) simp_all

text \<open>
  (C36) A transaction does not span two requests. Every query runs in an executor of its own, so a
  \<open>COMMIT\<close> or \<open>ROLLBACK\<close> that arrives on a connection is refused in every state of it, also
  after a \<open>BEGIN\<close> that was answered as started.
\<close>

theorem network_transaction_refused:
  assumes "sql \<in> {''COMMIT'', ''ROLLBACK''}"
  shows "serve_query E std_text (as_bytes sql) c =
    (Inr (), c\<lparr>cn_db := snd (init_default_schema (env_store E) (env_json E) (cn_db c)),
                cn_out := cn_out c @ le_frame (as_bytes ''Error: No transaction in progress'')\<rparr>)"
proof -
  have "from_utf8_lossy (as_bytes sql) = sql"
    using assms lossy_tx by blast
  then show ?thesis
    using run_tx_end [OF assms, of E c]
    by (simp add: serve_query_def query_response_def fatal_def error_text_def send_def)
qed

theorem network_transaction_refused_witness:
  "\<forall>c. fst (serve_query sample_env (\<lambda>_. ''io'') (as_bytes ''COMMIT'') c) = Inr ()"
  using network_transaction_refused [of "''COMMIT''" sample_env "\<lambda>_. ''io''"] by simp

end
