(* ===== verification/Commands.thy ===== *)
theory Commands
  imports Server
begin

text \<open>
  The command line (\<open>src/main.rs\<close>, \<open>src/cli/mod.rs\<close>): the subcommands on the files of a
  machine. The file system is a map from paths to files; creating directories does not show in
  it. What a command prints is modelled for the shell only. A command that fails says nothing
  about the files it leaves, so the commands return the new files or an error.

  The encoding of the configuration is the \<open>toml\<close> crate's: \<open>to_toml\<close> and \<open>from_toml\<close> are
  arguments.
\<close>

section \<open>Files and paths\<close>

type_synonym file_system = "string \<rightharpoonup> dfile"

text \<open>The subcommands of \<open>cli::Commands\<close>.\<close>

datatype command =
    CInit string
  | CStart string
  | CStop
  | CShell
  | CBackup string
  | CRestore string
  | CConfig
  | CVersion
  | CBenchmark

definition DEFAULT_CONFIG_FILE :: string where
  "DEFAULT_CONFIG_FILE = ''magnum.toml''"

definition path_join :: "string \<Rightarrow> string \<Rightarrow> string" where
  "path_join dir file_name = dir @ ''/'' @ file_name"

abbreviation data_path :: "string \<Rightarrow> string" where
  "data_path dir \<equiv> path_join dir ''magnum.data''"

abbreviation wal_path :: "string \<Rightarrow> string" where
  "wal_path dir \<equiv> path_join dir ''magnum.wal''"

text \<open>Opening with \<open>create(true)\<close> gives an empty file where there is none.\<close>

definition file_at :: "file_system \<Rightarrow> string \<Rightarrow> dfile" where
  "file_at fs p = (case fs p of Some f \<Rightarrow> f | None \<Rightarrow> empty_file)"

definition open_at :: "'c cache_ops \<Rightarrow> checksum \<Rightarrow> config \<Rightarrow> file_system \<Rightarrow> 'c database res" where
  "open_at L crc cfg fs =
     (let dir = path (storage cfg) in db_open L crc cfg (file_at fs (data_path dir)) (file_at fs (wal_path dir)))"

text \<open>The files of an open database in its directory.\<close>

definition stored_at :: "config \<Rightarrow> 'c database \<Rightarrow> file_system \<Rightarrow> file_system" where
  "stored_at cfg db fs =
     (let dir = path (storage cfg); fs1 = fs(data_path dir \<mapsto> db_data db)
      in case db_wal db of None \<Rightarrow> fs1 | Some w \<Rightarrow> fs1(wal_path dir \<mapsto> wal_file w))"

text \<open>\<open>if src.exists() { fs::copy(src, dst)? }\<close>: the copy is not forced to the device.\<close>

definition copy_file :: "string \<Rightarrow> string \<Rightarrow> file_system \<Rightarrow> file_system" where
  "copy_file src dst fs =
     (case fs src of
        None \<Rightarrow> fs
      | Some f \<Rightarrow> fs(dst \<mapsto> \<lparr>content = content f, durable = durable (file_at fs dst)\<rparr>))"

section \<open>The subcommands\<close>

definition cmd_init :: "(config \<Rightarrow> string res) \<Rightarrow> string \<Rightarrow> file_system \<Rightarrow> file_system res" where
  "cmd_init to_toml dir fs =
     rbind (to_toml config_default) (\<lambda>config_toml.
       let p = path_join dir ''magnumdb.toml''
       in Inr (fs(p \<mapsto> \<lparr>content = as_bytes config_toml, durable = durable (file_at fs p)\<rparr>)))"

text \<open>The server that \<open>start\<close> runs.\<close>

definition cmd_start ::
    "'c cache_ops \<Rightarrow> checksum \<Rightarrow> (string \<Rightarrow> config res) \<Rightarrow> string \<Rightarrow> file_system \<Rightarrow> 'c database server res" where
  "cmd_start L crc from_toml config_path fs =
     rbind (case fs config_path of
              Some f \<Rightarrow> rbind (from_utf8 (content f)) from_toml
            | None \<Rightarrow> Inr config_default) (\<lambda>cfg.
     rbind (open_at L crc cfg fs) (\<lambda>db.
       Inr (server_new db (host (network cfg) @ '':'' @ nat_str (unat (port (network cfg)))))))"

definition cmd_backup :: "'c cache_ops \<Rightarrow> checksum \<Rightarrow> string \<Rightarrow> file_system \<Rightarrow> file_system res" where
  "cmd_backup L crc destination fs =
     rbind (open_at L crc config_default fs) (\<lambda>db.
       case db_close L db of
         (Inl e, _) \<Rightarrow> Inl e
       | (Inr _, db') \<Rightarrow>
           let dir = path (storage config_default)
           in Inr (copy_file (wal_path dir) (wal_path destination)
                (copy_file (data_path dir) (data_path destination) (stored_at config_default db' fs))))"

definition cmd_restore :: "string \<Rightarrow> file_system \<Rightarrow> file_system" where
  "cmd_restore source fs =
     (let dir = path (storage config_default)
      in copy_file (wal_path source) (wal_path dir) (copy_file (data_path source) (data_path dir) fs))"

text \<open>\<open>{:05}\<close>.\<close>

definition pad_5 :: "nat \<Rightarrow> string" where
  "pad_5 n = replicate (5 - length (nat_str n)) (CHR ''0'') @ nat_str n"

definition cmd_benchmark :: "'c cache_ops \<Rightarrow> checksum \<Rightarrow> file_system \<Rightarrow> 'c database res" where
  "cmd_benchmark L crc fs =
     rbind (open_at L crc config_default fs) (\<lambda>db.
       case for_each (\<lambda>i. db_put L crc (as_bytes (''bench_key_'' @ pad_5 i)) (as_bytes (''bench_val_'' @ pad_5 i)))
              [0..<10000] db of
         (Inl e, _) \<Rightarrow> Inl e
       | (Inr _, db') \<Rightarrow> Inr db')"

section \<open>The shell\<close>

record 's shell =
  sh_executor :: "'s executor"
  sh_out :: string

definition print :: "string \<Rightarrow> ('s shell, unit) M" where
  "print s = modify (\<lambda>sh. sh\<lparr>sh_out := sh_out sh @ s\<rparr>)"

definition println :: "string \<Rightarrow> ('s shell, unit) M" where
  "println s = print (s @ [newline])"

definition shell_statement :: "'s sql_env \<Rightarrow> (error \<Rightarrow> string) \<Rightarrow> string \<Rightarrow> ('s shell, unit) M" where
  "shell_statement E std_text input = (\<lambda>sh.
     case parse input of
       Inl e \<Rightarrow> if fatal e then (Inl e, sh) else println (error_text std_text e) sh
     | Inr stmt \<Rightarrow>
         (case execute E stmt (sh_executor sh) of
            (Inr out, ex) \<Rightarrow> println out (sh\<lparr>sh_executor := ex\<rparr>)
          | (Inl e, ex) \<Rightarrow>
              if fatal e then (Inl e, sh\<lparr>sh_executor := ex\<rparr>)
              else println (''Error: '' @ error_text std_text e) (sh\<lparr>sh_executor := ex\<rparr>)))"

text \<open>
  The loop on the lines that standard input still holds. At the end of the input \<open>read_line\<close>
  returns \<open>Ok(0)\<close>, not an error (that is for input that is no UTF-8 and is left out): the empty line is skipped and the next read finds the end again.
\<close>

fun shell_loop :: "'s sql_env \<Rightarrow> (error \<Rightarrow> string) \<Rightarrow> string list \<Rightarrow> ('s shell, unit) M" where
  "shell_loop E std_text [] = sthen (print ''magnum> '') (throw Diverges)"
| "shell_loop E std_text (line # inputs) =
     sthen (print ''magnum> '')
       (let input = trim line in
        if input = [] then shell_loop E std_text inputs
        else if eq_ignore_case input ''exit;'' \<or> eq_ignore_case input ''quit;'' then ret ()
        else sthen (shell_statement E std_text input) (shell_loop E std_text inputs))"

definition CARGO_PKG_VERSION :: string where
  "CARGO_PKG_VERSION = ''0.4.8''"

definition shell_banner :: string where
  "shell_banner = ''MagnumDB Interactive Shell v'' @ CARGO_PKG_VERSION @ [newline] @
     ''Type '' @ quoted ''exit;'' @ '' or Ctrl-C to quit.'' @ [newline, newline]"

definition cmd_shell :: "'s sql_env \<Rightarrow> (error \<Rightarrow> string) \<Rightarrow> string list \<Rightarrow> 's \<Rightarrow> unit res \<times> 's shell" where
  "cmd_shell E std_text inputs db = shell_loop E std_text inputs \<lparr>sh_executor = executor_new E 1 db, sh_out = shell_banner\<rparr>"

section \<open>The program\<close>

text \<open>
  What a run of the program leaves: the files, the server that \<open>start\<close> then runs, the shell when
  it is left, or the database of the benchmark when the process ends.
\<close>

datatype 'c outcome =
    Done file_system
  | Serving "'c database server"
  | Shelled "unit res" "'c database shell"
  | Benched "'c database"

definition run_command ::
    "'c cache_ops \<Rightarrow> checksum \<Rightarrow> 'c database sql_env \<Rightarrow> (error \<Rightarrow> string) \<Rightarrow> (config \<Rightarrow> string res) \<Rightarrow>
     (string \<Rightarrow> config res) \<Rightarrow> string list \<Rightarrow> command option \<Rightarrow> file_system \<Rightarrow> 'c outcome res" where
  "run_command L crc E std_text to_toml from_toml stdin cmd fs =
     (case cmd of
        Some (CInit dir) \<Rightarrow> rbind (cmd_init to_toml dir fs) (\<lambda>fs'. Inr (Done fs'))
      | Some (CStart config_path) \<Rightarrow> rbind (cmd_start L crc from_toml config_path fs) (\<lambda>srv. Inr (Serving srv))
      | Some CStop \<Rightarrow> Inr (Done fs)
      | Some CShell \<Rightarrow>
          rbind (open_at L crc config_default fs) (\<lambda>db.
            case cmd_shell E std_text stdin db of (r, sh) \<Rightarrow> Inr (Shelled r sh))
      | Some (CBackup destination) \<Rightarrow> rbind (cmd_backup L crc destination fs) (\<lambda>fs'. Inr (Done fs'))
      | Some (CRestore source) \<Rightarrow> Inr (Done (cmd_restore source fs))
      | Some CConfig \<Rightarrow> rbind (to_toml config_default) (\<lambda>_. Inr (Done fs))
      | Some CVersion \<Rightarrow> Inr (Done fs)
      | Some CBenchmark \<Rightarrow> rbind (cmd_benchmark L crc fs) (\<lambda>db. Inr (Benched db))
      | None \<Rightarrow> Inr (Done fs))"

section \<open>Backup and restore\<close>

text \<open>Opening a data file depends on its contents only, not on what is on the device.\<close>

lemma file_read_content: "content g = content f \<Longrightarrow> file_read off n g = file_read off n f"
  by (simp add: file_read_def)

lemma pager_open_content:
  assumes "content g = content f" "pager_open f = Inr p"
  shows "\<exists>p'. pager_open g = Inr p' \<and> num_pages p' = num_pages p \<and> content (pfile p') = content (pfile p)"
  using assms
  by (auto simp: pager_open_def pager_write_page_def pager_read_page_def file_write_def file_read_def Let_def split: sum.splits if_splits prod.splits)

lemma data_map_content:
  assumes "content g = content f" "data_map f lsn n h es"
  shows "data_map g lsn n h es"
proof -
  obtain p where p: "pager_open f = Inr p" "num_pages p = n" "pager_map p lsn h es"
    using assms(2) by (auto simp: data_map_def)
  obtain p' where p': "pager_open g = Inr p'" "num_pages p' = num_pages p" "content (pfile p') = content (pfile p)"
    using pager_open_content [OF assms(1) p(1)] by blast
  have at: "page_at p' q = page_at p q" for q
    using p'(2,3) by (simp add: page_at_def)
  have "pager_inv p' []"
    using p(3) p'(2,3) by (simp add: pager_map_def pager_inv_def at pager_wf_def)
  then have "pager_map p' lsn h es"
    using p(3) by (intro pager_map_cong [OF p(3)]) (auto simp: p'(2) at pager_map_def)
  with p' p(2) show ?thesis
    by (auto simp: data_map_def)
qed

lemma path_join_inject [simp]: "path_join d f = path_join e f \<longleftrightarrow> d = e"
  by (simp add: path_join_def)

lemma data_not_wal [simp]: "data_path d \<noteq> wal_path e" "wal_path e \<noteq> data_path d"
proof -
  have "last (data_path d) \<noteq> last (wal_path e)"
    by (simp add: path_join_def)
  then show "data_path d \<noteq> wal_path e" "wal_path e \<noteq> data_path d"
    by auto
qed

text \<open>What a backup leaves in its directory.\<close>

lemma backup_files:
  assumes "open_at L crc config_default fs = Inr db" "db_close L db = (Inr (), db')" "db_wal db' = Some w"
    and "destination \<noteq> path (storage config_default)"
  obtains fs1 where "cmd_backup L crc destination fs = Inr fs1"
    "map_option content (fs1 (data_path destination)) = Some (content (db_data db'))"
    "map_option content (fs1 (wal_path destination)) = Some (content (wal_file w))"
proof -
  have "cmd_backup L crc destination fs =
      Inr (copy_file (wal_path (path (storage config_default))) (wal_path destination)
        (copy_file (data_path (path (storage config_default))) (data_path destination) (stored_at config_default db' fs)))"
    by (simp add: cmd_backup_def assms(1,2) Let_def)
  then show thesis
    by (rule that) (use assms(4) in \<open>simp_all add: copy_file_def stored_at_def Let_def assms(3)\<close>)
qed

lemma restored_files:
  assumes "fs (data_path source) = Some f" "fs (wal_path source) = Some g"
  shows "content (file_at (cmd_restore source fs) (data_path (path (storage config_default)))) = content f"
    and "content (file_at (cmd_restore source fs) (wal_path (path (storage config_default)))) = content g"
  using assms by (auto simp: cmd_restore_def copy_file_def file_at_def Let_def)

text \<open>
  (C14) A backup can be restored: \<open>backup\<close> of a database that opens succeeds, and whatever
  happens to the files of the database after that, as long as those in the backup directory keep
  their contents, \<open>restore\<close> followed by opening gives a database with exactly the entries of the
  one that was backed up.
\<close>

theorem backup_restore:
  assumes "lru_cache L ok" and "open_at L crc config_default fs = Inr db" and "db_map L ok crc lsn db h es log"
    and "destination \<noteq> path (storage config_default)"
  shows "\<exists>fs1. cmd_backup L crc destination fs = Inr fs1 \<and>
    (\<forall>fs2. fs2 (data_path destination) = fs1 (data_path destination) \<longrightarrow> fs2 (wal_path destination) = fs1 (wal_path destination) \<longrightarrow>
      (\<exists>db2. open_at L crc config_default (cmd_restore destination fs2) = Inr db2 \<and>
         (\<forall>k. fst (db_get L k db2) = Inr (map_of es k))))"
proof -
  from assms(1) have tp: "tree_pool L ok"
    by (intro tree_pool.intro pool_cache.intro)
  have on: "enabled (wal_cfg config_default)"
    by (simp add: config_default_def)
  obtain db1 w where 1: "db_close L db = (Inr (), db1)"
    "data_map (crashed_data db1) (of_nat (length log)) (bt_size (db_index db)) h es"
    "file_crash (db_data db1) = db_data db1" "db_wal db1 = Some w" "content (wal_file w) = []"
    using tree_pool.db_close_spec [OF tp assms(3)] by (auto simp: runs_def)
  obtain fs1 f g where b: "cmd_backup L crc destination fs = Inr fs1" "fs1 (data_path destination) = Some f"
    "fs1 (wal_path destination) = Some g" "content f = content (db_data db1)" "content g = []"
  proof (rule backup_files [OF assms(2) 1(1,4) assms(4)])
    fix fs1
    assume "cmd_backup L crc destination fs = Inr fs1"
      "map_option content (fs1 (data_path destination)) = Some (content (db_data db1))"
      "map_option content (fs1 (wal_path destination)) = Some (content (wal_file w))"
    then show thesis
      using that 1(5) by auto
  qed
  have "\<exists>db2. open_at L crc config_default (cmd_restore destination fs2) = Inr db2 \<and>
      (\<forall>k. fst (db_get L k db2) = Inr (map_of es k))"
    if fs2: "fs2 (data_path destination) = fs1 (data_path destination)" "fs2 (wal_path destination) = fs1 (wal_path destination)" for fs2
  proof -
    let ?F = "file_at (cmd_restore destination fs2) (data_path (path (storage config_default)))"
      and ?G = "file_at (cmd_restore destination fs2) (wal_path (path (storage config_default)))"
    have c: "content ?F = content (crashed_data db1)" "content ?G = []"
      using restored_files [of fs2 destination f g] fs2 b(2-5) 1(3) by (simp_all add: crashed_data_def)
    obtain w2 where w2: "wal_recover crc (of_nat (length log)) (wal_open ?G) = (Inr [], w2)"
      using logs_recover [of ?G crc "[]"] c(2) by auto
    obtain db2 h2 where 2: "db_open L crc config_default ?F ?G = Inr db2"
      "bt_map L ok (of_nat (length log)) (db_index db2) h2 (foldl replayed es [])"
      by (rule tree_pool.db_open_spec [OF tp data_map_content [OF c(1) 1(2)] on w2]) auto
    have "fst (db_get L k db2) = Inr (map_of es k)" for k
      using tree_pool.db_get_spec [OF tp 2(2), of k] by simp
    then show ?thesis
      using 2(1) by (simp add: open_at_def Let_def)
  qed
  with b(1) show ?thesis
    by blast
qed

theorem backup_restore_witness:
  "\<exists>fs1. cmd_backup lru_list sum_crc ''/backup'' Map.empty = Inr fs1 \<and>
     (\<exists>db2. open_at lru_list sum_crc config_default (cmd_restore ''/backup'' fs1) = Inr db2 \<and>
        fst (db_get lru_list [1] db2) = Inr None)"
proof -
  have on: "enabled (wal_cfg config_default)"
    by (simp add: config_default_def)
  obtain db where db: "db_open lru_list sum_crc config_default empty_file empty_file = Inr db"
    "db_map lru_list lru_list_ok sum_crc 0 db 0 [] []"
    using on by (rule list_db_exists)
  then have "open_at lru_list sum_crc config_default Map.empty = Inr db" "''/backup'' \<noteq> path (storage config_default)"
    by (simp_all add: open_at_def file_at_def config_default_def)
  from backup_restore [OF lru_list.lru_cache_axioms this(1) db(2) this(2)] show ?thesis
    by auto
qed

section \<open>The shell runs a script\<close>

text \<open>No statement of the list panics when they run one after the other.\<close>

fun completes :: "'s sql_env \<Rightarrow> statement list \<Rightarrow> 's executor \<Rightarrow> bool" where
  "completes E [] ex = True"
| "completes E (st # sts) ex =
     ((case fst (execute E st ex) of Inl e \<Rightarrow> \<not> fatal e | Inr _ \<Rightarrow> True) \<and> completes E sts (snd (execute E st ex)))"

definition statement_line :: "string \<Rightarrow> statement \<Rightarrow> bool" where
  "statement_line line st \<longleftrightarrow> parse (trim line) = Inr st \<and> trim line \<noteq> [] \<and>
     \<not> eq_ignore_case (trim line) ''exit;'' \<and> \<not> eq_ignore_case (trim line) ''quit;''"

lemma shell_statement_runs:
  assumes "parse input = Inr st" "case fst (execute E st (sh_executor sh)) of Inl e \<Rightarrow> \<not> fatal e | Inr _ \<Rightarrow> True"
  shows "\<exists>out. shell_statement E std_text input sh =
    (Inr (), sh\<lparr>sh_executor := snd (execute E st (sh_executor sh)), sh_out := sh_out sh @ out\<rparr>)"
  using assms
  by (cases "execute E st (sh_executor sh)")
    (auto simp: shell_statement_def println_def print_def split: sum.splits)

text \<open>
  (C31) The shell keeps one session: the statements of a script, one per line and ended by
  \<open>exit;\<close>, act on the database exactly as the statements run one after the other in one executor,
  so a transaction may span lines. The shell then ends normally.
\<close>

theorem shell_runs_script:
  assumes "list_all2 statement_line script sts" and "completes E sts (sh_executor sh)"
  shows "\<exists>out. shell_loop E std_text (script @ ''exit;'' # rest) sh =
    (Inr (), sh\<lparr>sh_executor := run_statements E sts (sh_executor sh), sh_out := out\<rparr>)"
  using assms
proof (induction script sts arbitrary: sh rule: list_all2_induct)
  case Nil
  then show ?case
    by (intro exI [of _ "sh_out sh @ ''magnum> ''"]) (simp add: print_def text_eval eq_ignore_case_def)
next
  case (Cons line script st sts)
  let ?sh = "sh\<lparr>sh_out := sh_out sh @ ''magnum> ''\<rparr>"
  have line: "parse (trim line) = Inr st" "trim line \<noteq> []" "\<not> eq_ignore_case (trim line) ''exit;''" "\<not> eq_ignore_case (trim line) ''quit;''"
    using Cons.hyps(1) by (simp_all add: statement_line_def)
  obtain out where out: "shell_statement E std_text (trim line) ?sh =
      (Inr (), ?sh\<lparr>sh_executor := snd (execute E st (sh_executor sh)), sh_out := out\<rparr>)"
    using shell_statement_runs [OF line(1), of E ?sh] Cons.prems by auto
  let ?sh1 = "?sh\<lparr>sh_executor := snd (execute E st (sh_executor sh)), sh_out := out\<rparr>"
  have "\<exists>out. shell_loop E std_text (script @ ''exit;'' # rest) ?sh1 =
      (Inr (), ?sh1\<lparr>sh_executor := run_statements E sts (sh_executor ?sh1), sh_out := out\<rparr>)"
    using Cons.prems by (intro Cons.IH) simp
  with line out show ?case
    by (simp add: print_def Let_def)
qed

theorem shell_runs_script_witness:
  "\<exists>db0 db out. db_open lru_list sum_crc config_default empty_file empty_file = Inr db0 \<and>
     db_put lru_list sum_crc pets_key (as_bytes pets_schema) db0 = (Inr (), db) \<and>
     shell_loop sample_env (\<lambda>_. ''io'') ([''BEGIN'', '' ROLLBACK ''] @ ''exit;'' # []) \<lparr>sh_executor = new_session db, sh_out = []\<rparr> =
       (Inr (), \<lparr>sh_executor = run_statements sample_env [Begin, Rollback] (new_session db), sh_out = out\<rparr>)"
proof -
  obtain db0 db where db: "db_open lru_list sum_crc config_default empty_file empty_file = Inr db0"
    "db_put lru_list sum_crc pets_key (as_bytes pets_schema) db0 = (Inr (), db)"
    "db_holds lru_list lru_list_ok sum_crc 0 db [(pets_key, as_bytes pets_schema)] []"
    by (rule pets_db [of "[]"]) auto
  let ?sh = "\<lparr>sh_executor = new_session db, sh_out = []\<rparr>"
  have env: "env_store sample_env = database_ops lru_list sum_crc"
    by (simp add: sample_env_def)
  have new: "db_holds lru_list lru_list_ok sum_crc 0 (ex_db (new_session db)) [(pets_key, as_bytes pets_schema)] []"
      "\<not> in_transaction (new_session db)" "list_all buffers []"
    using db(3) by (simp_all add: new_session_def)
  note store = lru_session(1) [OF lru_list.lru_cache_axioms env]
  obtain ex1 where "execute sample_env Begin (new_session db) = (Inr ''Query OK, transaction started.'', ex1)"
    using session_store.exec_beginE [OF store, OF new(1,2)] by metis
  moreover obtain ex2 where "execute sample_env Rollback (run_statements sample_env [Begin] (new_session db)) =
      (Inr ''Query OK, transaction rolled back.'', ex2)"
    using session_store.rollback_spec [OF store, OF new] by (elim exE conjE)
  ultimately have runs: "completes sample_env [Begin, Rollback] (sh_executor ?sh)"
    by simp
  have "list_all2 statement_line [''BEGIN'', '' ROLLBACK ''] [Begin, Rollback]"
    by (simp add: statement_line_def text_eval eq_ignore_case_def) (simp add: parse_tx)
  from shell_runs_script [OF this runs, of "\<lambda>_. ''io''" "[]"] obtain out where
    "shell_loop sample_env (\<lambda>_. ''io'') ([''BEGIN'', '' ROLLBACK ''] @ ''exit;'' # []) ?sh =
      (Inr (), \<lparr>sh_executor = run_statements sample_env [Begin, Rollback] (new_session db), sh_out = out\<rparr>)"
    by auto
  with db(1,2) show ?thesis
    by (intro exI conjI)
qed

text \<open>
  At the end of its input the shell does not end: a script without \<open>exit;\<close> or \<open>quit;\<close> never
  makes it return, because \<open>read_line\<close> reports the end of the input as an empty line, which the
  loop skips.
\<close>

theorem shell_without_exit:
  assumes "\<forall>line\<in>set script. \<not> eq_ignore_case (trim line) ''exit;'' \<and> \<not> eq_ignore_case (trim line) ''quit;''"
  shows "\<exists>e. fst (shell_loop E std_text script sh) = Inl e \<and> fatal e"
  using assms
proof (induction script arbitrary: sh)
  case Nil
  then show ?case by (simp add: print_def fatal_def)
next
  case (Cons line script)
  let ?sh = "sh\<lparr>sh_out := sh_out sh @ ''magnum> ''\<rparr>"
  have "\<exists>e. fst (sthen (shell_statement E std_text (trim line)) (shell_loop E std_text script) ?sh) = Inl e \<and> fatal e"
  proof (cases "shell_statement E std_text (trim line) ?sh")
    case (Pair r sh1)
    have "fatal e" if "r = Inl e" for e
      using Pair that by (auto simp: shell_statement_def println_def print_def split: sum.splits prod.splits if_splits)
    with Pair Cons show ?thesis
      by (cases r) simp_all
  qed
  with Cons show ?case
    by (simp add: print_def Let_def)
qed

theorem shell_without_exit_witness:
  "\<forall>sh. \<exists>e. fst (shell_loop sample_env (\<lambda>_. ''io'') [''SHOW TABLES''] sh) = Inl e \<and> fatal e"
  by (intro allI shell_without_exit) (simp add: eq_ignore_case_def text_eval)

end
