(* ===== verification/Network.thy ===== *)
theory Network
  imports Commands
begin

text \<open>
  Queries that arrive on a connection, on a database that holds the tables: the executor that
  every query creates, an \<open>INSERT\<close> and a \<open>SELECT\<close> in the terms of the table a client sees, and the
  frames that answer them.
\<close>

section \<open>Queries of a connection\<close>

text \<open>The catalog has its default schema and its default role.\<close>

definition initialised :: "(key \<times> bytes) list \<Rightarrow> bool" where
  "initialised es \<longleftrightarrow> map_of es (as_bytes (schema_key DEFAULT_SCHEMA)) \<noteq> None \<and> map_of es (as_bytes (user_key ''postgres'')) \<noteq> None"

context session_store
begin

lemma executor_newE:
  assumes "room db es ws" "initialised es"
  obtains db' where "executor_new E n db = \<lparr>ex_db = db', in_transaction = False, current_tx_id = 0, write_buffer = [], tx_id_counter = n\<rparr>"
    "room db' es ws"
proof -
  obtain db1 where 1: "st_get (env_store E) (as_bytes (schema_key DEFAULT_SCHEMA)) db = (Inr (map_of es (as_bytes (schema_key DEFAULT_SCHEMA))), db1)" "room db1 es ws"
    using assms(1) by (rule reads.getE)
  obtain db2 where 2: "st_get (env_store E) (as_bytes (user_key ''postgres'')) db1 = (Inr (map_of es (as_bytes (user_key ''postgres''))), db2)" "room db2 es ws"
    using 1(2) by (rule reads.getE)
  have "init_default_schema (env_store E) (env_json E) db = (Inr (), db2)"
    using 1(1) 2(1) assms(2) by (auto simp: init_default_schema_def initialised_def Let_def)
  then show thesis
    using 2(2) by (intro that [of db2]) (simp_all add: executor_new_def)
qed

lemma query_insert_spec:
  assumes room: "room (cn_db c) es (row_puts t 1 rows @ ws)" and init: "initialised es" and sql: "parse sql = Inr (Insert t values_list)"
    and name: "\<not> prefix RESERVED_PREFIX t" "plain_name t"
    and schema: "map_of es (as_bytes (legacy_key t)) = Some sb" "from_utf8 sb = Inr schema"
    and cat: "catalog_lookup (env_json E) es DEFAULT_SCHEMA t = Inr cat"
    and rows: "list_all2 (\<lambda>vals r. check_values cat (extract_col_names schema) vals = Inr r) values_list rows" "distinct (map hd rows)"
    "\<forall>r\<in>set rows. map_of es (row_key t (hd r)) = None" and index: "with_prefix (as_bytes (index_prefix t)) es = []"
  obtains c1 es1 ws1 where "run_query E sql c = (Inr (rows_message (length rows) ''inserted''), c1)" "room (cn_db c1) es1 ws1"
    "es1 = fold (\<lambda>(k, v). ins_entry k v) (row_puts t 1 rows) es" "meta es1 = meta es"
proof -
  obtain db where db: "executor_new E (cn_tx c) (cn_db c) =
      \<lparr>ex_db = db, in_transaction = False, current_tx_id = 0, write_buffer = [], tx_id_counter = cn_tx c\<rparr>" "room db es (row_puts t 1 rows @ ws)"
    using room init by (rule executor_newE)
  let ?ex = "executor_new E (cn_tx c) (cn_db c)"
  have tx: "active_tx ?ex = 1" "buffer_puts ?ex ps = []" for ps
    by (simp_all add: db(1) active_tx_def buffer_puts_def)
  have "ex_sees ?ex es es (row_puts t (active_tx ?ex) rows @ ws)"
    unfolding tx using db(2) by (simp add: db(1) sees_def ex_view_def)
  from exec_insert_spec [OF this name schema cat rows index]
  obtain ex' es' where ex': "execute E (Insert t values_list) ?ex = (Inr (rows_message (length rows) ''inserted''), ex')"
    "ex_sees ex' es' (fold (\<lambda>(k, v). ins_entry k v) (row_puts t 1 rows) es) ws" "meta es' = meta es" "write_buffer ex' = []"
    unfolding tx by blast
  obtain ws1 where "room (ex_db ex') es' ws1" "fold (\<lambda>(k, v). ins_entry k v) (row_puts t 1 rows) es = ex_view ex' es'"
    using ex'(2) by (rule seesD)
  moreover have "ex_view ex' es' = es'"
    by (simp add: ex_view_def ex'(4))
  ultimately show thesis
    using ex'(1,3) by (intro that [of "c\<lparr>cn_db := ex_db ex', cn_tx := tx_id_counter ex'\<rparr>" es' ws1]) (simp_all add: run_query_def sql Let_def)
qed

lemma query_select_spec:
  assumes room: "room (cn_db c) es ws" and init: "initialised es" and sql: "parse sql = Inr (Select t None None None)"
    and name: "plain_name t" and schema: "map_of es (as_bytes (legacy_key t)) = Some sb" "from_utf8 sb = Inr schema"
    and cat: "catalog_lookup (env_json E) es DEFAULT_SCHEMA t = Inr cat" and tab: "stores t es tab"
  obtains c1 where "run_query E sql c = (Inr (format_table_output (extract_col_names schema) (map (\<lambda>e. pad_row cat (snd e)) tab)), c1)"
    "room (cn_db c1) es ws"
proof -
  obtain db where db: "executor_new E (cn_tx c) (cn_db c) =
      \<lparr>ex_db = db, in_transaction = False, current_tx_id = 0, write_buffer = [], tx_id_counter = cn_tx c\<rparr>" "room db es ws"
    using room init by (rule executor_newE)
  let ?ex = "executor_new E (cn_tx c) (cn_db c)"
  have ex: "room (ex_db ?ex) es ws" "sorted_keys (write_buffer ?ex)" "ex_view ?ex es = es"
    using db(2) by (simp_all add: db(1) ex_view_def)
  have none: "map_of es (as_bytes (sec_key t c v)) = None" if "None = Some (c, v)" for c v
    using that by simp
  obtain db1 where "execute E (Select t None None None) ?ex =
      (rbind (select_rows (extract_col_names schema) None None None (map (\<lambda>e. pad_row cat (snd e)) tab))
        (\<lambda>rs. Inr (format_table_output (extract_col_names schema) rs)), ?ex\<lparr>ex_db := db1\<rparr>)" "room db1 es ws"
    using view.select_spec [OF ex(1,2) name, unfolded ex(3), OF schema cat stores_decode [OF tab] none] by metis
  then show thesis
    by (intro that [of "c\<lparr>cn_db := db1\<rparr>"])
      (simp_all add: run_query_def sql Let_def db(1) select_rows_def where_rows_def order_rows_def slice_rows_def)
qed

end

lemma initialised_meta:
  assumes "meta es1 = meta es" "initialised es"
  shows "initialised es1"
proof -
  have "prefix (as_bytes RESERVED_PREFIX) (as_bytes (schema_key DEFAULT_SCHEMA))" "prefix (as_bytes RESERVED_PREFIX) (as_bytes (user_key ''postgres''))"
    unfolding prefix_bytes by (simp_all add: RESERVED_PREFIX_def schema_key_def user_key_def)
  then show ?thesis
    using assms meta_map_of [of _ es1 es] by (simp add: initialised_def)
qed

lemma serve_query_ok:
  assumes "run_query E sql c = (Inr r, c1)" "valid_str sql"
  shows "serve_query E std_text (as_bytes sql) c = (Inr (), c1\<lparr>cn_out := cn_out c @ le_frame (as_bytes r)\<rparr>)"
  using assms run_query_out [OF assms(1)] by (simp add: serve_query_def query_response_def send_def)

lemma run_query_cn_out: "run_query E sql (c\<lparr>cn_out := out\<rparr>) = (case run_query E sql c of (r, c1) \<Rightarrow> (r, c1\<lparr>cn_out := out\<rparr>))"
  by (simp add: run_query_def Let_def split: sum.split prod.split)

lemma serve_two:
  assumes "run_query E q c = (Inr r, c1)" "run_query E q' c1 = (Inr r', c2)" "valid_str q" "valid_str q'"
    and "0 < length q" "length q < 65536" "0 < length q'" "length q' < 65536"
  shows "\<exists>c'. serve_connection E std_text salt (le_frame (as_bytes q) @ le_frame (as_bytes q')) c = (Inr (), c') \<and>
    cn_out c' = cn_out c @ le_frame (as_bytes r) @ le_frame (as_bytes r')"
proof -
  let ?c1 = "c1\<lparr>cn_out := cn_out c @ le_frame (as_bytes r)\<rparr>"
  have 1: "serve_query E std_text (as_bytes q) c = (Inr (), ?c1)"
    using assms(1,3) by (rule serve_query_ok)
  have "run_query E q' ?c1 = (Inr r', c2\<lparr>cn_out := cn_out ?c1\<rparr>)"
    using assms(2) by (simp add: run_query_cn_out)
  then have 2: "serve_query E std_text (as_bytes q') ?c1 = (Inr (), c2\<lparr>cn_out := cn_out ?c1 @ le_frame (as_bytes r')\<rparr>)"
    using serve_query_ok [OF _ assms(4)] by fastforce
  have "serve_connection E std_text salt (concat (map le_frame [as_bytes q, as_bytes q'])) = for_each (serve_query E std_text) [as_bytes q, as_bytes q']"
    using assms(5-8) by (intro serve_queries) simp
  then show ?thesis
    using 1 2 by simp
qed

end
