(* ===== verification/Changes.thy ===== *)
theory Changes
  imports Tables
begin

text \<open>
  Changes to tables: what \<open>UPDATE\<close> and \<open>DELETE\<close> do to the rows a session sees, for a table without
  secondary indexes. Updates are covered inside and outside a transaction, deletions inside one,
  where they go to the write buffer.
\<close>

section \<open>Rows that a condition picks\<close>

text \<open>The condition of an \<open>UPDATE\<close> or \<open>DELETE\<close> on a row, and when it can be evaluated on every row.\<close>

definition wanted :: "string list \<Rightarrow> (string \<times> string) option \<Rightarrow> row \<Rightarrow> bool" where
  "wanted cols where_clause r =
     (case where_clause of
        None \<Rightarrow> True
      | Some (c, v) \<Rightarrow> (case column_index cols c of Some i \<Rightarrow> r ! i = v | None \<Rightarrow> False))"

definition where_ok :: "string list \<Rightarrow> (string \<times> string) option \<Rightarrow> row list \<Rightarrow> bool" where
  "where_ok cols where_clause rows =
     (case where_clause of
        None \<Rightarrow> True
      | Some (c, v) \<Rightarrow> (case column_index cols c of Some i \<Rightarrow> list_all (\<lambda>r. i < length r) rows | None \<Rightarrow> False))"

lemma matching_rows_filter: "list_all (\<lambda>r. i < length r) rows \<Longrightarrow> matching_rows i v rows = Inr (filter (\<lambda>r. r ! i = v) rows)"
  by (induction rows) (simp_all add: row_at_def)

lemma target_rows_spec:
  "where_ok cols wc rows \<Longrightarrow> target_rows cols wc rows ex = (Inr (filter (wanted cols wc) rows), ex)"
  by (cases wc) (auto simp: where_ok_def wanted_def [abs_def] target_rows_def column_of_def ok_or_else_def ok_or_def matching_rows_filter
    split: option.splits)

text \<open>Every row is filed under its first value.\<close>

definition keyed :: "string \<Rightarrow> table_schema option \<Rightarrow> (key \<times> row) list \<Rightarrow> bool" where
  "keyed t cat tab \<longleftrightarrow> list_all (\<lambda>(k, r). pad_row cat r \<noteq> [] \<and> k = row_key t (hd (pad_row cat r))) tab"

abbreviation shown :: "table_schema option \<Rightarrow> (key \<times> row) list \<Rightarrow> row list" where
  "shown cat tab \<equiv> map (\<lambda>e. pad_row cat (snd e)) tab"

lemma pad_row_length [simp]: "length r' = length (pad_row cat r) \<Longrightarrow> pad_row cat r' = r'"
  by (auto simp: pad_row_def split: option.splits)

section \<open>Changes to sorted lists of entries\<close>

lemma fold_ins_above:
  "\<forall>e\<in>set ps. k < fst e \<Longrightarrow> fold (\<lambda>(k, v). ins_entry k v) ps ((k, x) # xs) = (k, x) # fold (\<lambda>(k, v). ins_entry k v) ps xs"
  by (induction ps arbitrary: xs) auto

lemma fold_ins_present:
  "sorted_keys xs \<Longrightarrow> fold (\<lambda>(k, v). ins_entry k v) (map (\<lambda>e. (fst e, f e)) (filter Q xs)) xs =
     map (\<lambda>e. (fst e, if Q e then f e else snd e)) xs"
proof (induction xs)
  case (Cons e xs)
  obtain k x where e: "e = (k, x)"
    by (cases e)
  from Cons.prems have "\<forall>e'\<in>set (map (\<lambda>e. (fst e, f e)) (filter Q xs)). k < fst e'" "sorted_keys xs"
    by (auto simp: e)
  with Cons.IH show ?case
    by (simp add: e fold_ins_above)
qed simp

lemma fold_del_filter: "fold del_entry ks es = filter (\<lambda>e. fst e \<notin> set ks) es"
  by (induction ks arbitrary: es) (simp_all add: del_entry_def conj_commute)

lemma map_of_fold_del: "k \<notin> set ks \<Longrightarrow> map_of (fold del_entry ks es) k = map_of es k"
  by (induction ks arbitrary: es) (simp_all add: map_of_del_entry)

lemma list_all2_fold_ins:
  "list_all2 (\<lambda>e f. fst e = fst f \<and> P (snd e) (snd f)) as bs \<Longrightarrow> list_all2 (\<lambda>e f. fst e = fst f \<and> P (snd e) (snd f)) ps qs \<Longrightarrow>
   list_all2 (\<lambda>e f. fst e = fst f \<and> P (snd e) (snd f)) (fold (\<lambda>(k, v). ins_entry k v) ps as) (fold (\<lambda>(k, v). ins_entry k v) qs bs)"
proof (induction ps arbitrary: qs as bs)
  case (Cons p ps)
  then obtain k v w qs' where "p = (k, v)" "qs = (k, w) # qs'" "P v w"
    "list_all2 (\<lambda>e f. fst e = fst f \<and> P (snd e) (snd f)) ps qs'"
    by (cases p) (auto simp: list_all2_Cons1)
  then show ?case
    using Cons.IH list_all2_ins_entry [of P as bs v w k] Cons.prems(1) by simp
qed simp

lemma filter_fold_ins:
  "sorted_keys es \<Longrightarrow> \<forall>e\<in>set ps. P (fst e) \<Longrightarrow>
     filter (\<lambda>e. P (fst e)) (fold (\<lambda>(k, v). ins_entry k v) ps es) = fold (\<lambda>(k, v). ins_entry k v) ps (filter (\<lambda>e. P (fst e)) es)"
  by (induction ps arbitrary: es) (auto simp: filter_ins_entry sorted_ins_entry)

lemma map_of_fold_ins: "sorted_keys es \<Longrightarrow> k \<notin> fst ` set ps \<Longrightarrow> map_of (fold (\<lambda>(k, v). ins_entry k v) ps es) k = map_of es k"
  by (induction ps arbitrary: es) (auto simp: map_of_ins_entry sorted_ins_entry)

lemma stores_sorted:
  assumes "sorted_keys vs" "stores t vs tab"
  shows "sorted_keys tab"
proof -
  have "map fst (with_prefix (as_bytes (t @ '':'')) vs) = map fst tab"
    using assms(2) unfolding stores_def by (induction rule: list_all2_induct) auto
  then show ?thesis
    using sorted_filter_keys [OF assms(1)] by metis
qed

section \<open>The table after a change\<close>

definition table_update :: "table_schema option \<Rightarrow> (row \<Rightarrow> bool) \<Rightarrow> nat \<Rightarrow> string \<Rightarrow> (key \<times> row) list \<Rightarrow> (key \<times> row) list" where
  "table_update cat P j v tab = map (\<lambda>e. (fst e, if P (pad_row cat (snd e)) then (pad_row cat (snd e))[j := v] else snd e)) tab"

definition table_delete :: "table_schema option \<Rightarrow> (row \<Rightarrow> bool) \<Rightarrow> (key \<times> row) list \<Rightarrow> (key \<times> row) list" where
  "table_delete cat P tab = filter (\<lambda>e. \<not> P (pad_row cat (snd e))) tab"

lemma shown_update: "shown cat (table_update cat P j v tab) = map (\<lambda>r. if P r then r[j := v] else r) (shown cat tab)"
  by (auto simp: table_update_def)

lemma shown_delete: "shown cat (table_delete cat P tab) = filter (\<lambda>r. \<not> P r) (shown cat tab)"
  by (simp add: table_delete_def filter_map comp_def)

text \<open>The entries an update writes: the changed rows under the keys they had.\<close>

definition update_puts :: "string \<Rightarrow> u64 \<Rightarrow> nat \<Rightarrow> string \<Rightarrow> row list \<Rightarrow> (key \<times> bytes) list" where
  "update_puts t tx j v rows = map (\<lambda>r. (row_key t (hd r), encode_values_mvcc (r[j := v]) tx 0)) rows"

lemma row_key_prefix [simp]: "prefix (as_bytes t @ [byte_of (CHR '':'')]) (row_key t pk)"
  by (simp add: row_key_def)

lemma keyed_targets:
  assumes "keyed t cat tab"
  shows "map (\<lambda>r. (row_key t (hd r), g r)) (filter P (shown cat tab)) =
    map (\<lambda>e. (fst e, g (pad_row cat (snd e)))) (filter (\<lambda>e. P (pad_row cat (snd e))) tab)"
  using assms by (induction tab) (auto simp: keyed_def)

lemma stores_update:
  assumes "sorted_keys vs" "stores t vs tab" "keyed t cat tab" "\<forall>r\<in>set (shown cat tab). row_ok r" "row_ok [v]"
  shows "stores t (fold (\<lambda>(k, v). ins_entry k v) (update_puts t tx j v (filter P (shown cat tab))) vs) (table_update cat P j v tab)"
proof -
  let ?R = "\<lambda>e f. fst e = fst f \<and> decode_values (snd e) = Inr (snd f)" and ?ts = "filter P (shown cat tab)"
  have "row_ok (r[j := v])" if "r \<in> set ?ts" for r
    using assms(4,5) that set_update_subset_insert [of r j v] unfolding row_ok_def by fastforce
  then have "list_all2 ?R (update_puts t tx j v ?ts) (map (\<lambda>r. (row_key t (hd r), r[j := v])) ?ts)"
    unfolding update_puts_def list_all2_map1 list_all2_map2 by (simp add: list_all2_same)
  from list_all2_fold_ins [OF assms(2) [unfolded stores_def] this]
  have "list_all2 ?R (with_prefix (as_bytes (t @ '':'')) (fold (\<lambda>(k, v). ins_entry k v) (update_puts t tx j v ?ts) vs))
      (fold (\<lambda>(k, v). ins_entry k v) (map (\<lambda>r. (row_key t (hd r), r[j := v])) ?ts) tab)"
    by (subst filter_fold_ins [OF assms(1)]) (simp_all add: update_puts_def)
  then show ?thesis
    unfolding stores_def keyed_targets [OF assms(3)] fold_ins_present [OF stores_sorted [OF assms(1,2)]] table_update_def .
qed

lemma stores_without:
  assumes "stores t vs tab"
  shows "stores t (filter (\<lambda>e. fst e \<notin> K) vs) (filter (\<lambda>e. fst e \<notin> K) tab)"
proof -
  have "list_all2 (\<lambda>e f. fst e = fst f \<and> decode_values (snd e) = Inr (snd f))
      (filter (\<lambda>e. fst e \<notin> K) (with_prefix (as_bytes (t @ '':'')) vs)) (filter (\<lambda>e. fst e \<notin> K) tab)"
    using assms unfolding stores_def by (induction rule: list_all2_induct) auto
  then show ?thesis
    unfolding stores_def by (simp add: conj_commute)
qed

lemma stores_delete:
  assumes "sorted_keys vs" "stores t vs tab" "keyed t cat tab"
  shows "stores t (fold del_entry (map (\<lambda>r. row_key t (hd r)) (filter P (shown cat tab))) vs) (table_delete cat P tab)"
proof -
  let ?ks = "map fst (filter (\<lambda>e. P (pad_row cat (snd e))) tab)"
  have ks: "map (\<lambda>r. row_key t (hd r)) (filter P (shown cat tab)) = ?ks"
    using arg_cong [OF keyed_targets [OF assms(3), of id P], of "map fst"] by (simp add: comp_def)
  have "inj_on fst (set tab)"
    using stores_sorted [OF assms(1,2)] by (simp add: strict_sorted_iff distinct_map)
  then have "filter (\<lambda>e. fst e \<notin> set ?ks) tab = table_delete cat P tab"
    unfolding table_delete_def by (intro filter_cong) (auto dest: inj_onD)
  then show ?thesis
    using stores_without [OF assms(2), of "set ?ks"] unfolding ks fold_del_filter by simp
qed

section \<open>The statements\<close>

context session_store
begin

lemma select_all_spec:
  assumes sees: "ex_sees ex es vs ws" and name: "plain_name t"
    and schema: "map_of vs (as_bytes (legacy_key t)) = Some sb" "from_utf8 sb = Inr schema"
    and cat: "catalog_lookup (env_json E) es DEFAULT_SCHEMA t = Inr cat" and tab: "stores t vs tab"
  shows "\<exists>ex'. execute E (Select t None None None) ex = (Inr (format_table_output (extract_col_names schema) (shown cat tab)), ex')"
proof -
  obtain ws1 where 1: "room (ex_db ex) es ws1" "sorted_keys (write_buffer ex)" "vs = ex_view ex es"
    using sees by (rule seesD)
  have none: "map_of es (as_bytes (sec_key t c v)) = None" if "None = Some (c, v)" for c v
    using that by simp
  obtain db where "execute E (Select t None None None) ex =
      (rbind (select_rows (extract_col_names schema) None None None (shown cat tab))
        (\<lambda>rs. Inr (format_table_output (extract_col_names schema) rs)), ex\<lparr>ex_db := db\<rparr>)"
    using 1(1,2) name schema(1) [unfolded 1(3)] schema(2) cat stores_decode [OF tab, unfolded 1(3)] none by (rule view.select_spec)
  then show ?thesis
    by (simp add: select_rows_def where_rows_def order_rows_def slice_rows_def)
qed

lemma sees_scan:
  assumes "ex_sees ex es vs ws"
  obtains db where "ex_scan E k ex = (Inr (with_prefix (as_bytes k) es), ex\<lparr>ex_db := db\<rparr>)" "ex_sees (ex\<lparr>ex_db := db\<rparr>) es vs ws"
proof -
  obtain ws1 where 1: "room (ex_db ex) es ws1" "\<not> in_transaction ex \<longrightarrow> ws1 = ws"
    using assms by (rule seesD)
  obtain db where "ex_scan E k ex = (Inr (with_prefix (as_bytes k) es), ex\<lparr>ex_db := db\<rparr>)" "room db es ws1"
    using 1(1) by (rule view.ex_scanE)
  with sees_db [OF assms 1(2)] that show thesis
    by blast
qed

lemma update_row_spec:
  fixes ex :: "'s executor"
  defines "tx \<equiv> active_tx ex"
  assumes sees: "ex_sees ex es vs ((row_key t (hd r), encode_values_mvcc (r[j := v]) tx 0) # ws)" and len: "j < length r"
    and index: "with_prefix (as_bytes (index_prefix t)) es = []" and name: "\<not> prefix RESERVED_PREFIX t"
  shows "\<exists>ex' es'. update_row E t col j v unique r ex = (Inr (), ex') \<and>
    ex_sees ex' es' (ins_entry (row_key t (hd r)) (encode_values_mvcc (r[j := v]) tx 0) vs) ws \<and> meta es' = meta es \<and> active_tx ex' = tx"
proof -
  let ?k = "row_key t (hd r)" and ?v = "encode_values_mvcc (r[j := v]) tx 0"
  obtain db1 where 1: "ex_scan E (index_prefix t) ex = (Inr [], ex\<lparr>ex_db := db1\<rparr>)" "ex_sees (ex\<lparr>ex_db := db1\<rparr>) es vs ((?k, ?v) # ws)"
    using sees_scan [OF sees, of "index_prefix t"] index by auto
  obtain db2 where 2: "ex_scan E (index_prefix t) (ex\<lparr>ex_db := db1\<rparr>) = (Inr [], ex\<lparr>ex_db := db2\<rparr>)"
    "ex_sees (ex\<lparr>ex_db := db2\<rparr>) es vs ((?k, ?v) # ws)"
    using sees_scan [OF 1(2), of "index_prefix t"] index by auto
  have tx: "active_tx (ex\<lparr>ex_db := db2\<rparr>) = tx"
    by (simp add: tx_def active_tx_def)
  obtain ex3 es3 where 3: "write_entry E ?k ?v (ex\<lparr>ex_db := db2\<rparr>) = (Inr (), ex3)" "ex_sees ex3 es3 (ins_entry ?k ?v vs) ws"
    "es3 = (if in_transaction ex then es else ins_entry ?k ?v es)" "active_tx ex3 = tx"
    using write_entry_spec [OF 2(2)] tx by auto
  have "sorted_keys es"
    using sees by (rule seesD)
  then have "meta es3 = meta es"
    using meta_ins_entry row_key_not_reserved [OF name] by (simp add: 3(3))
  moreover have "r ! 0 = hd r"
    using len by (cases r) simp_all
  then have "update_row E t col j v unique r ex = (Inr (), ex3)"
    using len 1(1) 2(1) 3(1) tx
    by (simp add: update_row_def Let_def sec_idx_remove_for_column_def sec_idx_add_for_column_def)
  ultimately show ?thesis
    using 3(2,4) by auto
qed

lemma update_rows_spec:
  assumes "ex_sees ex es vs (update_puts t (active_tx ex) j v rows @ ws)" "\<forall>r\<in>set rows. j < length r"
    "with_prefix (as_bytes (index_prefix t)) es = []" "\<not> prefix RESERVED_PREFIX t"
  shows "\<exists>ex' es'. for_each (update_row E t col j v unique) rows ex = (Inr (), ex') \<and>
    ex_sees ex' es' (fold (\<lambda>(k, v). ins_entry k v) (update_puts t (active_tx ex) j v rows) vs) ws \<and> meta es' = meta es"
  using assms
proof (induction rows arbitrary: ex es vs)
  case Nil
  then show ?case by (auto simp: update_puts_def)
next
  case (Cons r rows)
  let ?tx = "active_tx ex"
  let ?k = "row_key t (hd r)" and ?v = "encode_values_mvcc (r[j := v]) ?tx 0"
  have "ex_sees ex es vs ((?k, ?v) # update_puts t ?tx j v rows @ ws)" "j < length r"
    using Cons.prems(1,2) by (simp_all add: update_puts_def)
  from update_row_spec [OF this Cons.prems(3,4)] obtain ex1 es1 where 1: "update_row E t col j v unique r ex = (Inr (), ex1)"
    "ex_sees ex1 es1 (ins_entry ?k ?v vs) (update_puts t ?tx j v rows @ ws)" "meta es1 = meta es" "active_tx ex1 = ?tx"
    by blast
  then obtain ex2 es2 where "for_each (update_row E t col j v unique) rows ex1 = (Inr (), ex2)"
    "ex_sees ex2 es2 (fold (\<lambda>(k, v). ins_entry k v) (update_puts t ?tx j v rows) (ins_entry ?k ?v vs)) ws" "meta es2 = meta es1"
    using Cons.IH [of ex1 es1 "ins_entry ?k ?v vs"] Cons.prems(2-4) index_meta [OF 1(3)] by auto
  then show ?case
    using 1(1,3) by (auto simp: update_puts_def)
qed

text \<open>The rows an \<open>UPDATE\<close> or \<open>DELETE\<close> works on.\<close>

lemma columns_rows:
  assumes sees: "ex_sees ex es vs ws" and name: "plain_name t"
    and schema: "map_of vs (as_bytes (legacy_key t)) = Some sb" "from_utf8 sb = Inr schema"
    and cat: "catalog_lookup (env_json E) es DEFAULT_SCHEMA t = Inr cat" and tab: "stores t vs tab"
  obtains db1 db2 db3 where "table_columns E t t ex = (Inr (extract_col_names schema), ex\<lparr>ex_db := db1\<rparr>)"
    "on_db (get_table_schema (env_store E) (env_json E) DEFAULT_SCHEMA t) (ex\<lparr>ex_db := db1\<rparr>) = (Inr cat, ex\<lparr>ex_db := db2\<rparr>)"
    "scan_table_rows E t (ex\<lparr>ex_db := db2\<rparr>) = (Inr (shown cat tab), ex\<lparr>ex_db := db3\<rparr>)"
    "ex_sees (ex\<lparr>ex_db := db3\<rparr>) es vs ws"
proof -
  obtain ws1 where 0: "room (ex_db ex) es ws1" "sorted_keys (write_buffer ex)" "vs = ex_view ex es" "\<not> in_transaction ex \<longrightarrow> ws1 = ws"
    using sees by (rule seesD)
  obtain db1 where 1: "table_columns E t t ex = (Inr (extract_col_names schema), ex\<lparr>ex_db := db1\<rparr>)" "room db1 es ws1"
    using 0(1,2) schema(1) [unfolded 0(3)] schema(2) by (rule view.table_columnsE)
  obtain db2 where 2: "on_db (get_table_schema (env_store E) (env_json E) DEFAULT_SCHEMA t) (ex\<lparr>ex_db := db1\<rparr>) =
      (Inr cat, ex\<lparr>ex_db := db2\<rparr>)" "room db2 es ws1"
    using view.ex_schemaE [of "ex\<lparr>ex_db := db1\<rparr>" es ws1 "env_json E" DEFAULT_SCHEMA t] 1(2) cat by auto
  obtain db3 where 3: "scan_table_rows E t (ex\<lparr>ex_db := db2\<rparr>) = (Inr (shown cat tab), ex\<lparr>ex_db := db3\<rparr>)" "room db3 es ws1"
    using view.scan_table_rowsE [of "ex\<lparr>ex_db := db2\<rparr>" es ws1 t, OF _ plain_qualified [OF name] cat] 2(2)
      stores_decode [OF tab, of cat] 0(3) by (auto simp: ex_view_db)
  show thesis
    using that [OF 1(1) 2(1) 3(1)] sees_db [OF sees 0(4) 3(2)] by blast
qed

lemma update_select_spec:
  fixes cols where_clause schema
  defines "P \<equiv> wanted (extract_col_names schema) where_clause"
  assumes name: "\<not> prefix RESERVED_PREFIX t" "plain_name t"
    and sees: "ex_sees ex es vs (update_puts t (active_tx ex) j v (filter P (shown cat tab)) @ ws)"
    and schema: "map_of vs (as_bytes (legacy_key t)) = Some sb" "from_utf8 sb = Inr schema"
    and cat: "catalog_lookup (env_json E) es DEFAULT_SCHEMA t = Inr cat"
    and index: "with_prefix (as_bytes (index_prefix t)) es = []" and tab: "stores t vs tab" "keyed t cat tab"
    and col: "column_index (extract_col_names schema) col = Some j" "check_update cat j v = Inr unique"
    and rows: "where_ok (extract_col_names schema) where_clause (shown cat tab)" "\<forall>r\<in>set (shown cat tab). j < length r \<and> row_ok r" "row_ok [v]"
  shows "\<exists>ex1 ex2. execute E (Update t col v where_clause) ex =
      (Inr (rows_message (length (filter P (shown cat tab))) ''updated''), ex1) \<and>
    execute E (Select t None None None) ex1 = (Inr (format_table_output (extract_col_names schema)
      (map (\<lambda>r. if P r then r[j := v] else r) (shown cat tab))), ex2)"
proof -
  let ?cols = "extract_col_names schema" and ?ts = "filter P (shown cat tab)"
  let ?ps = "update_puts t (active_tx ex) j v ?ts"
  obtain db1 db2 db3 where 1: "table_columns E t t ex = (Inr ?cols, ex\<lparr>ex_db := db1\<rparr>)"
    "on_db (get_table_schema (env_store E) (env_json E) DEFAULT_SCHEMA t) (ex\<lparr>ex_db := db1\<rparr>) = (Inr cat, ex\<lparr>ex_db := db2\<rparr>)"
    "scan_table_rows E t (ex\<lparr>ex_db := db2\<rparr>) = (Inr (shown cat tab), ex\<lparr>ex_db := db3\<rparr>)" "ex_sees (ex\<lparr>ex_db := db3\<rparr>) es vs (?ps @ ws)"
    using sees name(2) schema cat tab(1) by (rule columns_rows)
  have tx: "active_tx (ex\<lparr>ex_db := db3\<rparr>) = active_tx ex"
    by (simp add: active_tx_def)
  have "\<forall>r\<in>set ?ts. j < length r"
    using rows(2) by auto
  from update_rows_spec [OF _ this index name(1), of "ex\<lparr>ex_db := db3\<rparr>" vs v ws, unfolded tx, OF 1(4)]
  obtain ex1 es1 where 2: "for_each (update_row E t col j v unique) ?ts (ex\<lparr>ex_db := db3\<rparr>) = (Inr (), ex1)"
    "ex_sees ex1 es1 (fold (\<lambda>(k, v). ins_entry k v) ?ps vs) ws" "meta es1 = meta es"
    by blast
  have upd: "execute E (Update t col v where_clause) ex = (Inr (rows_message (length ?ts) ''updated''), ex1)"
    using 1(1-3) 2(1) col target_rows_spec [OF rows(1), of "ex\<lparr>ex_db := db3\<rparr>", folded P_def]
    by (simp add: exec_update_def plain_qualified [OF name(2)] column_of_def ok_or_else_def ok_or_def)
  have vs: "sorted_keys vs"
    using sees by (rule seesD) (auto simp: sorted_view)
  have "as_bytes (legacy_key t) \<notin> fst ` set ?ps"
    using row_key_not_reserved [OF name(1)] reserved_keys(1) [of t] by (auto simp: update_puts_def)
  then have key: "map_of (fold (\<lambda>(k, v). ins_entry k v) ?ps vs) (as_bytes (legacy_key t)) = Some sb"
    using map_of_fold_ins [OF vs] schema(1) by simp
  have new: "stores t (fold (\<lambda>(k, v). ins_entry k v) ?ps vs) (table_update cat P j v tab)"
    using rows(2,3) by (intro stores_update [OF vs tab]) simp_all
  have "catalog_lookup (env_json E) es1 DEFAULT_SCHEMA t = Inr cat"
    using catalog_lookup_meta [OF 2(3)] cat by simp
  from select_all_spec [OF 2(2) name(2) key schema(2) this new, unfolded shown_update] upd show ?thesis
    by blast
qed

text \<open>Inside a transaction a deletion is an entry of the write buffer.\<close>

lemma delete_row_spec:
  assumes sees: "ex_sees ex es vs ws" "in_transaction ex" and row: "r \<noteq> []" and index: "with_prefix (as_bytes (index_prefix t)) es = []"
  shows "\<exists>ex'. delete_row E t cols r ex = (Inr (), ex') \<and> ex_sees ex' es (del_entry (row_key t (hd r)) vs) ws \<and> in_transaction ex'"
proof -
  let ?k = "row_key t (hd r)"
  obtain db where 1: "ex_scan E (index_prefix t) ex = (Inr [], ex\<lparr>ex_db := db\<rparr>)" "ex_sees (ex\<lparr>ex_db := db\<rparr>) es vs ws"
    using sees_scan [OF sees(1), of "index_prefix t"] index by auto
  define ex1 where "ex1 = ex\<lparr>ex_db := db\<rparr>"
  obtain ws1 where 2: "room (ex_db ex1) es ws1" "sorted_keys (write_buffer ex1)" "vs = ex_view ex1 es" "sorted_keys es"
    using 1(2) unfolding ex1_def by (rule seesD)
  have tx: "in_transaction ex1"
    using sees(2) by (simp add: ex1_def)
  have "ex_sees (ex1\<lparr>write_buffer := ins_entry ?k None (write_buffer ex1)\<rparr>) es (del_entry ?k vs) ws"
    using 2 tx apply_ins [of "write_buffer ex1" es ?k None] by (auto simp: sees_def ex_view_def sorted_ins_entry)
  moreover have "row_at r 0 = Inr (hd r)"
    using row by (cases r) (simp_all add: row_at_def)
  ultimately show ?thesis
    using 1(1) tx by (auto simp: delete_row_def remove_all_secondary_indexes_def remove_entry_def ex1_def)
qed

lemma delete_rows_spec:
  assumes "ex_sees ex es vs ws" "in_transaction ex" "\<forall>r\<in>set rows. r \<noteq> []" "with_prefix (as_bytes (index_prefix t)) es = []"
  shows "\<exists>ex'. for_each (delete_row E t cols) rows ex = (Inr (), ex') \<and>
    ex_sees ex' es (fold del_entry (map (\<lambda>r. row_key t (hd r)) rows) vs) ws \<and> in_transaction ex'"
  using assms
proof (induction rows arbitrary: ex vs)
  case (Cons r rows)
  obtain ex1 where 1: "delete_row E t cols r ex = (Inr (), ex1)" "ex_sees ex1 es (del_entry (row_key t (hd r)) vs) ws" "in_transaction ex1"
    using delete_row_spec [OF Cons.prems(1,2) _ Cons.prems(4), of r cols] Cons.prems(3) by auto
  moreover have "\<forall>r\<in>set rows. r \<noteq> []"
    using Cons.prems(3) by simp
  ultimately show ?case
    using Cons.IH [OF 1(2,3) _ Cons.prems(4)] by simp
qed auto

lemma delete_select_spec:
  fixes cols where_clause schema
  defines "P \<equiv> wanted (extract_col_names schema) where_clause"
  assumes name: "\<not> prefix RESERVED_PREFIX t" "plain_name t" and sees: "ex_sees ex es vs ws" "in_transaction ex"
    and schema: "map_of vs (as_bytes (legacy_key t)) = Some sb" "from_utf8 sb = Inr schema"
    and cat: "catalog_lookup (env_json E) es DEFAULT_SCHEMA t = Inr cat"
    and index: "with_prefix (as_bytes (index_prefix t)) es = []" and tab: "stores t vs tab" "keyed t cat tab"
    and rows: "where_ok (extract_col_names schema) where_clause (shown cat tab)"
  shows "\<exists>ex1 ex2. execute E (Delete t where_clause) ex =
      (Inr (rows_message (length (filter P (shown cat tab))) ''deleted''), ex1) \<and>
    execute E (Select t None None None) ex1 =
      (Inr (format_table_output (extract_col_names schema) (filter (\<lambda>r. \<not> P r) (shown cat tab))), ex2)"
proof -
  let ?cols = "extract_col_names schema" and ?ts = "filter P (shown cat tab)"
  let ?vs = "fold del_entry (map (\<lambda>r. row_key t (hd r)) ?ts) vs"
  obtain ws1 where 0: "room (ex_db ex) es ws1" "sorted_keys (write_buffer ex)" "vs = ex_view ex es"
    using sees(1) by (rule seesD)
  obtain db1 where 1: "table_columns E t t ex = (Inr ?cols, ex\<lparr>ex_db := db1\<rparr>)" "room db1 es ws1"
    using 0(1,2) schema(1) [unfolded 0(3)] schema(2) by (rule view.table_columnsE)
  obtain db2 where 2: "scan_table_rows E t (ex\<lparr>ex_db := db1\<rparr>) = (Inr (shown cat tab), ex\<lparr>ex_db := db2\<rparr>)" "room db2 es ws1"
    using view.scan_table_rowsE [of "ex\<lparr>ex_db := db1\<rparr>" es ws1 t, OF _ plain_qualified [OF name(2)] cat] 1(2)
      stores_decode [OF tab(1), of cat] 0(3) by (auto simp: ex_view_db)
  have "ex_sees (ex\<lparr>ex_db := db2\<rparr>) es vs ws"
    using sees 2(2) by (auto simp: sees_def ex_view_db)
  moreover have "\<forall>r\<in>set ?ts. r \<noteq> []"
    using tab(2) by (auto simp: keyed_def list_all_iff)
  ultimately obtain ex1 where 3: "for_each (delete_row E t ?cols) ?ts (ex\<lparr>ex_db := db2\<rparr>) = (Inr (), ex1)" "ex_sees ex1 es ?vs ws"
    using delete_rows_spec [of "ex\<lparr>ex_db := db2\<rparr>" es vs ws ?ts t ?cols] sees(2) index by auto
  have del: "execute E (Delete t where_clause) ex = (Inr (rows_message (length ?ts) ''deleted''), ex1)"
    using 1(1) 2(1) 3(1) target_rows_spec [OF rows, of "ex\<lparr>ex_db := db2\<rparr>", folded P_def]
    by (simp add: exec_delete_def plain_qualified [OF name(2)])
  have vs: "sorted_keys vs"
    using sees(1) by (rule seesD) (auto simp: sorted_view)
  have "as_bytes (legacy_key t) \<notin> set (map (\<lambda>r. row_key t (hd r)) ?ts)"
    using row_key_not_reserved [OF name(1)] reserved_keys(1) [of t] by auto
  then have key: "map_of ?vs (as_bytes (legacy_key t)) = Some sb"
    using map_of_fold_del schema(1) by metis
  have new: "stores t ?vs (table_delete cat P tab)"
    by (rule stores_delete [OF vs tab])
  from select_all_spec [OF 3(2) name(2) key schema(2) cat new, unfolded shown_delete] del show ?thesis
    by blast
qed

end

section \<open>Properties\<close>

text \<open>
  (C8) An update changes the rows it names and no others: on a table without indexes, in or out of
  a transaction, \<open>UPDATE\<close> of a column to a value that passes its checks reports the number of rows
  that meet the condition, and \<open>SELECT *\<close> then prints the same rows in the same order, with the
  new value in that column of exactly the rows that met it.
\<close>

theorem sql_update_select:
  assumes "lru_cache L ok" and "env_store E = database_ops L crc"
    and "\<not> prefix RESERVED_PREFIX t" and "plain_name t"
    and "sees (db_holds L ok crc lsn) ex es vs
      (update_puts t (active_tx ex) j v (filter (wanted (extract_col_names schema) where_clause) (shown cat tab)) @ ws)"
    and "map_of vs (as_bytes (legacy_key t)) = Some sb" and "from_utf8 sb = Inr schema"
    and "catalog_lookup (env_json E) es DEFAULT_SCHEMA t = Inr cat"
    and "with_prefix (as_bytes (index_prefix t)) es = []" and "stores t vs tab" and "keyed t cat tab"
    and "column_index (extract_col_names schema) col = Some j" and "check_update cat j v = Inr unique"
    and "where_ok (extract_col_names schema) where_clause (shown cat tab)"
    and "\<forall>r\<in>set (shown cat tab). j < length r \<and> row_ok r" and "row_ok [v]"
  shows "\<exists>ex1 ex2. execute E (Update t col v where_clause) ex =
      (Inr (rows_message (length (filter (wanted (extract_col_names schema) where_clause) (shown cat tab))) ''updated''), ex1) \<and>
    execute E (Select t None None None) ex1 = (Inr (format_table_output (extract_col_names schema)
      (map (\<lambda>r. if wanted (extract_col_names schema) where_clause r then r[j := v] else r) (shown cat tab))), ex2)"
  using session_store.update_select_spec [OF lru_session(1) [OF assms(1,2)], OF assms(3-16)] .

text \<open>A session in a transaction that has inserted two rows.\<close>

definition pets_tab :: "(key \<times> row) list" where
  "pets_tab = [(row_key ''pets'' ''1'', [''1'', ''rex'']), (row_key ''pets'' ''2'', [''2'', ''tom''])]"

definition pets_buffer :: "(key \<times> bytes option) list" where
  "pets_buffer = map (\<lambda>(k, r). (k, Some (encode_values_mvcc r 1 0))) pets_tab"

definition pets_tx :: "'s \<Rightarrow> 's executor" where
  "pets_tx db = \<lparr>ex_db = db, in_transaction = True, current_tx_id = 1, write_buffer = pets_buffer, tx_id_counter = 2\<rparr>"

definition pets_entries :: "(key \<times> bytes) list" where
  "pets_entries = (pets_key, as_bytes pets_schema) # map (\<lambda>(k, r). (k, encode_values_mvcc r 1 0)) pets_tab"

lemma pets_entries_sorted: "sorted_keys pets_entries"
proof -
  have "byte_of (CHR ''_'') < byte_of (CHR ''p'')" "byte_of (CHR ''1'') < byte_of (CHR ''2'')"
    by (simp_all add: word_less_nat_alt unat_byte_of of_char_def)
  then show ?thesis
    by (simp add: pets_entries_def pets_tab_def pets_key_def legacy_key_def row_key_def)
qed

lemma pets_view: "ex_view (pets_tx db) [(pets_key, as_bytes pets_schema)] = pets_entries"
proof -
  have "fold apply_entry pets_buffer = fold (\<lambda>(k, v). ins_entry k v) (map (\<lambda>(k, r). (k, encode_values_mvcc r 1 0)) pets_tab)"
    by (simp add: pets_buffer_def pets_tab_def fun_eq_iff)
  then show ?thesis
    using fold_ins_sorted [of "[(pets_key, as_bytes pets_schema)]" "map (\<lambda>(k, r). (k, encode_values_mvcc r 1 0)) pets_tab"] pets_entries_sorted
    by (simp add: ex_view_def pets_tx_def pets_entries_def)
qed

lemma pets_tx_sees:
  obtains db0 db where "db_open lru_list sum_crc config_default empty_file empty_file = Inr db0"
    "db_put lru_list sum_crc pets_key (as_bytes pets_schema) db0 = (Inr (), db)"
    "\<And>ws. sees (db_holds lru_list lru_list_ok sum_crc 0) (pets_tx db) [(pets_key, as_bytes pets_schema)] pets_entries ws"
proof -
  obtain db0 db where "db_open lru_list sum_crc config_default empty_file empty_file = Inr db0"
    "db_put lru_list sum_crc pets_key (as_bytes pets_schema) db0 = (Inr (), db)"
    "db_holds lru_list lru_list_ok sum_crc 0 db [(pets_key, as_bytes pets_schema)] []"
    by (rule pets_db [of "[]"]) simp_all
  moreover have "sorted_keys (write_buffer (pets_tx db))"
    using pets_entries_sorted by (simp add: pets_tx_def pets_buffer_def pets_entries_def pets_tab_def)
  ultimately show thesis
    by (intro that) (auto simp: sees_def pets_view, auto simp: pets_tx_def)
qed

lemma pets_tab_stores: "stores ''pets'' pets_entries pets_tab"
proof -
  have "with_prefix (as_bytes (''pets'' @ '':'')) pets_entries = map (\<lambda>(k, r). (k, encode_values_mvcc r 1 0)) pets_tab"
    by (simp add: pets_entries_def pets_tab_def pets_key_def legacy_key_def row_key_def)
  then show ?thesis
    unfolding stores_def by (simp add: pets_tab_def ascii_valid)
qed

lemma pets_tab_shown: "shown (Some pets_table) pets_tab = [[''1'', ''rex''], [''2'', ''tom'']]"
  by (simp add: pets_tab_def pad_row_def pets_table_def schema_new_def)

lemma pets_tab_keyed: "keyed ''pets'' (Some pets_table) pets_tab"
  by (simp add: keyed_def pets_tab_def pad_row_def pets_table_def schema_new_def)

lemma pets_entries_schema: "map_of pets_entries (as_bytes (legacy_key ''pets'')) = Some (as_bytes pets_schema)"
  by (simp add: pets_entries_def pets_key_def)

lemma pets_where: "column_index [''id'', ''name''] ''id'' = Some 0" "column_index [''id'', ''name''] ''name'' = Some 1"
  by (simp_all add: column_index_def)

lemma pets_update_ok: "check_update (Some pets_table) 1 ''max'' = Inr False"
  by (simp add: check_update_def pets_table_def schema_new_def column_new_def Let_def parse_str_def text_eval eq_ignore_case_def)

theorem sql_update_select_witness:
  "\<exists>db0 db ex1 ex2. db_open lru_list sum_crc config_default empty_file empty_file = Inr db0 \<and>
     db_put lru_list sum_crc pets_key (as_bytes pets_schema) db0 = (Inr (), db) \<and>
     execute sample_env (Update ''pets'' ''name'' ''max'' (Some (''id'', ''2''))) (pets_tx db) = (Inr ''Query OK, 1 row updated.'', ex1) \<and>
     execute sample_env (Select ''pets'' None None None) ex1 =
       (Inr (format_table_output [''id'', ''name''] [[''1'', ''rex''], [''2'', ''max'']]), ex2)"
proof -
  obtain db0 db where db: "db_open lru_list sum_crc config_default empty_file empty_file = Inr db0"
    "db_put lru_list sum_crc pets_key (as_bytes pets_schema) db0 = (Inr (), db)"
    "\<And>ws. sees (db_holds lru_list lru_list_ok sum_crc 0) (pets_tx db) [(pets_key, as_bytes pets_schema)] pets_entries ws"
    by (rule pets_tx_sees) blast
  have env: "env_store sample_env = database_ops lru_list sum_crc"
    by (simp add: sample_env_def)
  have col: "column_index (extract_col_names pets_schema) ''name'' = Some 1"
    "where_ok (extract_col_names pets_schema) (Some (''id'', ''2'')) (shown (Some pets_table) pets_tab)"
    by (simp_all add: pets_columns pets_where where_ok_def pets_tab_shown)
  have ok: "\<forall>r\<in>set (shown (Some pets_table) pets_tab). 1 < length r \<and> row_ok r" "row_ok [''max'']"
    by (simp_all add: pets_tab_shown ascii_valid)
  show ?thesis
    using sql_update_select [OF lru_list.lru_cache_axioms env pets_name(1,2) db(3) pets_entries_schema pets_ascii pets_catalog pets_index
        pets_tab_stores pets_tab_keyed col(1) pets_update_ok col(2) ok] db(1,2)
    by (auto simp: pets_tab_shown pets_columns wanted_def pets_where rows_message_def)
qed

text \<open>
  (C9) A deletion removes the rows it names and no others: inside a transaction, on a table without
  indexes, \<open>DELETE\<close> reports the number of rows that meet the condition, and \<open>SELECT *\<close> then prints
  exactly the rows that did not meet it, in the order they had, whether they are in the
  store or in the write buffer.
\<close>

theorem sql_delete_select:
  assumes "lru_cache L ok" and "env_store E = database_ops L crc"
    and "\<not> prefix RESERVED_PREFIX t" and "plain_name t"
    and "sees (db_holds L ok crc lsn) ex es vs ws" and "in_transaction ex"
    and "map_of vs (as_bytes (legacy_key t)) = Some sb" and "from_utf8 sb = Inr schema"
    and "catalog_lookup (env_json E) es DEFAULT_SCHEMA t = Inr cat"
    and "with_prefix (as_bytes (index_prefix t)) es = []" and "stores t vs tab" and "keyed t cat tab"
    and "where_ok (extract_col_names schema) where_clause (shown cat tab)"
  shows "\<exists>ex1 ex2. execute E (Delete t where_clause) ex =
      (Inr (rows_message (length (filter (wanted (extract_col_names schema) where_clause) (shown cat tab))) ''deleted''), ex1) \<and>
    execute E (Select t None None None) ex1 = (Inr (format_table_output (extract_col_names schema)
      (filter (\<lambda>r. \<not> wanted (extract_col_names schema) where_clause r) (shown cat tab))), ex2)"
  using session_store.delete_select_spec [OF lru_session(1) [OF assms(1,2)], OF assms(3-13)] .

theorem sql_delete_select_witness:
  "\<exists>db0 db ex1 ex2. db_open lru_list sum_crc config_default empty_file empty_file = Inr db0 \<and>
     db_put lru_list sum_crc pets_key (as_bytes pets_schema) db0 = (Inr (), db) \<and>
     execute sample_env (Delete ''pets'' (Some (''name'', ''rex''))) (pets_tx db) = (Inr ''Query OK, 1 row deleted.'', ex1) \<and>
     execute sample_env (Select ''pets'' None None None) ex1 = (Inr (format_table_output [''id'', ''name''] [[''2'', ''tom'']]), ex2)"
proof -
  obtain db0 db where db: "db_open lru_list sum_crc config_default empty_file empty_file = Inr db0"
    "db_put lru_list sum_crc pets_key (as_bytes pets_schema) db0 = (Inr (), db)"
    "\<And>ws. sees (db_holds lru_list lru_list_ok sum_crc 0) (pets_tx db) [(pets_key, as_bytes pets_schema)] pets_entries ws"
    by (rule pets_tx_sees) blast
  have env: "env_store sample_env = database_ops lru_list sum_crc"
    by (simp add: sample_env_def)
  have tx: "in_transaction (pets_tx db)"
    by (simp add: pets_tx_def)
  have col: "where_ok (extract_col_names pets_schema) (Some (''name'', ''rex'')) (shown (Some pets_table) pets_tab)"
    by (simp add: pets_columns pets_where where_ok_def pets_tab_shown)
  show ?thesis
    using sql_delete_select [OF lru_list.lru_cache_axioms env pets_name(1,2) db(3) tx pets_entries_schema pets_ascii pets_catalog pets_index
        pets_tab_stores pets_tab_keyed col] db(1,2)
    by (auto simp: pets_tab_shown pets_columns wanted_def pets_where rows_message_def)
qed

end
