(* ===== verification/Spec2Isabelle.thy ===== *)
theory Spec2Isabelle
  imports Network Changes
begin

text \<open>
  A verification development for MagnumDB, a relational database engine in Rust: a storage engine
  (data file, buffer pool, B+ tree, write-ahead log), an SQL layer (parser, catalog, operators,
  executor), a network layer (a length-prefixed protocol and the PostgreSQL protocol) and a command
  line. File names below are relative to \<open>src/\<close> of the crate.

  \<^bold>\<open>The program.\<close> \<open>main.rs\<close> opens a \<open>Database\<close> and runs a server, a shell, a backup or a restore. The
  server reads queries from a socket, \<open>Parser::parse\<close> turns the text into a \<open>Statement\<close>, an \<open>Executor\<close>
  runs it. The executor keeps rows, schemas and secondary indexes as keys and values of the
  \<open>Database\<close>, and buffers the writes of a transaction until \<open>COMMIT\<close>. \<open>Database\<close> logs every write in
  the write-ahead log and applies it to a B+ tree whose nodes are pages of a buffer pool over a pager.

  \<^bold>\<open>The theories\<close>, in the order of their imports.
  \<^item> \<open>Prelude\<close>, \<open>Bytes\<close>, \<open>Files\<close>: machine integers as words, errors as values, the state monad
    \<open>('s, 'a) M\<close> with its total-correctness predicate \<open>runs\<close>, little-endian encoding and slices, a file
    with its contents and what the device holds after a power failure.
  \<^item> \<open>Pager\<close> (\<open>storage/pager.rs\<close>), \<open>Lru\<close> and \<open>BufferPool\<close> (\<open>storage/buffer_pool.rs\<close>): the data file
    with its free list; the contract of the \<open>lru\<close> crate as the locale \<open>lru_cache\<close>, interpreted on a list
    of entries; the pool as a refinement of an array of pages.
  \<^item> \<open>Node\<close>, \<open>Trees\<close>, \<open>BTree\<close>, \<open>BTreeMap\<close>, \<open>BTreeOps\<close> (\<open>storage/btree.rs\<close>): the page format of nodes;
    abstract trees with their invariants and the sorted list of entries they stand for; the operations
    as the code has them; that they refine a sorted map, splits, overflow chains and reopening included.
  \<^item> \<open>Wal\<close> (\<open>wal/mod.rs\<close>): the frames of the log, appending, recovery, checkpoint. What recovery returns
    is \<open>delivered\<close>, a specification on the list of logged operations.
  \<^item> \<open>Config\<close>, \<open>Database\<close>, \<open>Store\<close> (\<open>config/mod.rs\<close>, \<open>storage/mod.rs\<close>): opening with replay, the
    transactional operations, closing; the contract \<open>key_store\<close> that the SQL layer relies on, and that
    the database keeps it for every cache.
  \<^item> \<open>Texts\<close>, \<open>F64\<close>, \<open>SqlTypes\<close> (\<open>sql/types.rs\<close>): strings as UTF-8 bytes with the operations of
    \<open>str\<close>, binary64 numbers, values and schemas.
  \<^item> \<open>Volcano\<close> (\<open>sql/volcano.rs\<close>): the operators as one datatype \<open>plan\<close> with \<open>open\<close>, \<open>next\<close> and \<open>close\<close>,
    and that running a plan delivers what relational algebra gives it.
  \<^item> \<open>Rows\<close>, \<open>Catalog\<close> (\<open>sql/catalog.rs\<close>), \<open>Parser\<close> (\<open>sql/parser.rs\<close>), \<open>Executor\<close>
    (\<open>sql/executor.rs\<close>, \<open>sql/optimizer.rs\<close>): the row encoding, the catalog, every statement of the
    parser, every statement of the executor. \<open>Parser\<close> also shows that parsing ends and that
    \<open>INSERT\<close> statements survive printing and parsing.
  \<^item> \<open>Sessions\<close>, \<open>Tables\<close>, \<open>Changes\<close>: what a session sees (database and write buffer), which statements
    only buffer, commit and rollback, insertion and selection on a table as a sorted map, updates, and
    deletions inside a transaction.
  \<^item> \<open>Pgwire\<close>, \<open>Server\<close> (\<open>network/pgwire.rs\<close>, \<open>network/server.rs\<close>): both protocols on the bytes a
    client sends and the bytes it gets.
  \<^item> \<open>Commands\<close> (\<open>main.rs\<close>, \<open>cli/mod.rs\<close>): the subcommands on a map of files, the shell.
  \<^item> \<open>Network\<close> and this theory: queries of a connection on a database that holds tables, and the
    property that spans all layers.

  \<^bold>\<open>State and operations.\<close> A Rust struct is a record with the fields of the struct, a method that
  changes it is a function in the state monad with the method's name (prefixed by its component where
  two components share a name: \<open>pager_\<close>, \<open>pool_\<close>, \<open>bt_\<close>, \<open>wal_\<close>, \<open>db_\<close>, \<open>exec_\<close>, \<open>cmd_\<close>). \<open>?\<close> is \<open>sbind\<close>
  or \<open>rbind\<close>; the state is returned on the error branch too. A panic is the error \<open>Panic\<close>, an endless
  loop the error \<open>Diverges\<close>. The database that the server shares between connections is part of the
  state of the connection that runs.

  \<^bold>\<open>Contracts.\<close> \<open>lru_cache\<close> is what the buffer pool asks of its cache. \<open>key_reader\<close> and \<open>key_store\<close> are
  what the SQL layer asks of the database, \<open>session_reader\<close> and \<open>session_store\<close> the same for an executor;
  they are interpreted on \<open>Database\<close> over the list cache, and \<open>lru_store\<close> and \<open>lru_session\<close> give them for
  every cache that keeps \<open>lru_cache\<close>. The properties are stated for every such cache.

  \<^bold>\<open>Bounds and fuel.\<close> Loops of the tree that follow page pointers run on fuel computed from the number
  of pages, and the refinement lemmas show the result, so the fuel is enough wherever the tree is well
  formed. The parser recurses on fuel \<open>length + 1\<close>; \<open>parse_terminates\<close> shows that this satisfies the
  recursion of the source. The operators, \<open>startup_params\<close>, \<open>pg_loop\<close> and \<open>serve_connection\<close> are total
  by a measure. \<open>db_holds db es ws\<close> says that the database stands for the entries \<open>es\<close> and has room for
  the puts \<open>ws\<close>: page numbers are 32 bits wide, nodes must fit in a page after a split by count, and a
  value of 12 bytes that looks like an overflow reference is excluded. \<open>small_puts_fit\<close> shows that puts of
  up to 168 bytes have room; the witnesses use it.

  \<^bold>\<open>Parameters.\<close> The \<open>lru\<close> crate (\<open>cache_ops\<close>), the CRC (\<open>checksum\<close>), \<open>serde_json\<close> (a record of the four
  functions used), MD5, the random salt of a connection, TOML, and the texts the standard library
  prints for its own errors are arguments. \<open>json_ok\<close>, that decoding undoes encoding, is the only
  assumption on \<open>serde_json\<close>.

  \<^bold>\<open>Not modelled.\<close>
  \<^item> Concurrency: locks, \<open>Arc\<close>, tokio tasks, the accept loop, the semaphore's queue and the idle timeout
    of the server. Each operation is one sequential step and one connection runs at a time.
  \<^item> Failures of the operating system other than reading past the end of a file; memory exhaustion;
    writes to a socket that fail.
  \<^item> The contents of the files after an operation that opened them failed.
  \<^item> Letters beyond ASCII in case mapping and white space beyond ASCII in trimming.
  \<^item> The order \<open>sort_by\<close> gives when the comparison is no total order, where the standard library leaves
    it open: the model takes that of insertion sort.
  \<^item> Logging, the argument parser (\<open>clap\<close>), what commands other than the shell print, the clock of the
    benchmark; module declarations, examples, benchmarks and tests.
\<close>

section \<open>A property of the whole program\<close>

text \<open>
  (C1) From the bytes a client sends to the bytes it gets back: on a connection of the
  length-prefixed protocol, an \<open>INSERT\<close> of rows that pass the checks of the table and have new
  keys, followed by a \<open>SELECT *\<close> of the table, is answered by exactly two frames, the confirmation
  with the number of rows and the table with the old rows and the new ones, each once and in the
  order of the keys. The parser, the executor with its catalog, the row encoding, the tree, the
  pages, the log and the protocol are the definitions of this development; the cache is any that
  keeps its contract.
\<close>

theorem server_insert_select:
  assumes "lru_cache L ok" and "env_store E = database_ops L crc"
    and "db_holds L ok crc lsn (cn_db c) es (row_puts t 1 rows @ ws)" and "initialised es"
    and "\<not> prefix RESERVED_PREFIX t" and "plain_name t" and "query_name t"
    and "map_of es (as_bytes (legacy_key t)) = Some sb" and "from_utf8 sb = Inr schema"
    and "catalog_lookup (env_json E) es DEFAULT_SCHEMA t = Inr cat"
    and "with_prefix (as_bytes (index_prefix t)) es = []" and "stores t es tab"
    and "list_all2 (\<lambda>vals r. check_values cat (extract_col_names schema) vals = Inr r) values_list rows"
    and "distinct (map hd rows)" and "\<forall>r\<in>set rows. map_of es (row_key t (hd r)) = None" and "\<forall>r\<in>set rows. row_ok r"
    and "values_list \<noteq> []" and "\<forall>r\<in>set values_list. r \<noteq> [] \<and> (\<forall>v\<in>set r. plain_value v)"
    and "find_str '' UNION '' (to_uppercase (print_insert t values_list)) = None"
    and "valid_str (print_insert t values_list)" and "valid_str (''SELECT * FROM '' @ t)" and "length (print_insert t values_list) < 65536"
  shows "\<exists>c'. serve_connection E std_text salt
      (le_frame (as_bytes (print_insert t values_list)) @ le_frame (as_bytes (''SELECT * FROM '' @ t))) c = (Inr (), c') \<and>
    cn_out c' = cn_out c @ le_frame (as_bytes (rows_message (length rows) ''inserted'')) @
      le_frame (as_bytes (format_table_output (extract_col_names schema) (map (\<lambda>e. pad_row cat (snd e)) (table_insert t rows tab))))"
proof -
  let ?ins = "print_insert t values_list" and ?sel = "''SELECT * FROM '' @ t"
  note store = lru_session(1) [OF assms(1,2)]
  have parse: "parse ?ins = Inr (Insert t values_list)" "parse ?sel = Inr (Select t None None None)"
    using insert_parses [of t values_list] parse_select_star assms(7,17-19) query_name_trim [of t] by (auto simp: query_name_def)
  obtain c1 es1 ws1 where 1: "run_query E ?ins c = (Inr (rows_message (length rows) ''inserted''), c1)" "db_holds L ok crc lsn (cn_db c1) es1 ws1"
    "es1 = fold (\<lambda>(k, v). ins_entry k v) (row_puts t 1 rows) es" "meta es1 = meta es"
    using session_store.query_insert_spec [OF store, OF assms(3,4) parse(1) assms(5,6,8-10,13-15,11)] by blast
  have es: "sorted_keys es"
    using key_reader.sorted [OF key_store.reader [OF lru_store(1) [OF assms(1)]], OF assms(3)] .
  have tab: "stores t es1 (table_insert t rows tab)"
    unfolding 1(3) using es assms(12,16) by (rule stores_insert)
  have schema: "map_of es1 (as_bytes (legacy_key t)) = Some sb" "catalog_lookup (env_json E) es1 DEFAULT_SCHEMA t = Inr cat"
    using meta_map_of [OF reserved_keys(1) 1(4)] catalog_lookup_meta [OF 1(4)] assms(8,10) by simp_all
  obtain c2 where 2: "run_query E ?sel c1 =
      (Inr (format_table_output (extract_col_names schema) (map (\<lambda>e. pad_row cat (snd e)) (table_insert t rows tab))), c2)"
    using session_store.query_select_spec [OF store, OF 1(2) initialised_meta [OF 1(4) assms(4)] parse(2) assms(6) schema(1) assms(9) schema(2) tab] by blast
  show ?thesis
    using 1(1) 2 assms(20-22) by (intro serve_two) (simp_all add: print_insert_def)
qed

theorem server_insert_select_witness:
  "\<exists>db0 db1 db2 db3 c'. db_open lru_list sum_crc config_default empty_file empty_file = Inr db0 \<and>
     db_put lru_list sum_crc pets_key (as_bytes pets_schema) db0 = (Inr (), db1) \<and>
     db_put lru_list sum_crc (as_bytes (user_key ''postgres'')) [1] db1 = (Inr (), db2) \<and>
     db_put lru_list sum_crc (as_bytes (schema_key DEFAULT_SCHEMA)) (as_bytes ''registered'') db2 = (Inr (), db3) \<and>
     serve_connection sample_env (\<lambda>_. ''io'') [] (le_frame (as_bytes (print_insert ''pets'' [[''1'', ''rex'']])) @
       le_frame (as_bytes (''SELECT * FROM '' @ ''pets''))) \<lparr>cn_db = db3, cn_tx = 1, cn_out = []\<rparr> = (Inr (), c') \<and>
     cn_out c' = le_frame (as_bytes ''Query OK, 1 row inserted.'') @
       le_frame (as_bytes (format_table_output [''id'', ''name''] [[''1'', ''rex'']]))"
proof -
  let ?ks = "as_bytes (schema_key DEFAULT_SCHEMA)" and ?ku = "as_bytes (user_key ''postgres'')" and ?reg = "as_bytes ''registered''"
  let ?rows = "[[''1'', ''rex'']]" and ?ps = "as_bytes pets_schema"
  let ?row = "row_puts ''pets'' 1 ?rows"
  let ?es = "[(?ks, ?reg), (?ku, [1]), (pets_key, ?ps)]"
  have "list_all small_put (put_entries ((?ku, [1]) # (?ks, ?reg) # ?row))" "length ((?ku, [1]) # (?ks, ?reg) # ?row) \<le> 100"
    by (simp_all add: row_puts_def row_key_def encode_values_mvcc_def encode_value_def user_key_def schema_key_def DEFAULT_SCHEMA_def)
  then obtain db0 db1 where 1: "db_open lru_list sum_crc config_default empty_file empty_file = Inr db0"
    "db_put lru_list sum_crc pets_key ?ps db0 = (Inr (), db1)"
    "db_holds lru_list lru_list_ok sum_crc 0 db1 [(pets_key, ?ps)] ((?ku, [1]) # (?ks, ?reg) # ?row)"
    by (rule pets_db)
  have keys: "?ks < ?ku" "?ks < pets_key" "?ku < pets_key"
    by (simp_all add: user_key_def schema_key_def DEFAULT_SCHEMA_def pets_key_def legacy_key_def byte_of_def)
  obtain db2 where 2: "db_put lru_list sum_crc ?ku [1] db1 = (Inr (), db2)"
    "db_holds lru_list lru_list_ok sum_crc 0 db2 [(?ku, [1]), (pets_key, ?ps)] ((?ks, ?reg) # ?row)"
    using list_store.store.putE [OF 1(3)] keys by (auto simp: database_ops_def)
  obtain db3 where 3: "db_put lru_list sum_crc ?ks ?reg db2 = (Inr (), db3)" "db_holds lru_list lru_list_ok sum_crc 0 db3 ?es ?row"
    using list_store.store.putE [OF 2(2)] keys by (auto simp: database_ops_def)
  have other: "map_of ?es k = map_of [(pets_key, ?ps)] k" if "k \<noteq> ?ks" "k \<noteq> ?ku" for k
    using that by simp
  have init: "initialised ?es"
    using keys by (simp add: initialised_def)
  have schema: "map_of ?es (as_bytes (legacy_key ''pets'')) = Some ?ps"
    using keys pets_name(3) by (intro other [THEN trans]) (auto simp: pets_key_def)
  have same: "map_of ?es (as_bytes (table_key DEFAULT_SCHEMA ''pets'')) = map_of [(pets_key, ?ps)] (as_bytes (table_key DEFAULT_SCHEMA ''pets''))"
    by (rule other) (simp_all add: table_key_def schema_key_def user_key_def)
  have old: "map_of ?es (as_bytes (legacy_key ''pets'')) = map_of [(pets_key, ?ps)] (as_bytes (legacy_key ''pets''))"
    using keys by (intro other) (auto simp: pets_key_def)
  have cat: "catalog_lookup (env_json sample_env) ?es DEFAULT_SCHEMA ''pets'' = Inr (Some pets_table)"
    using pets_catalog [of "env_json sample_env"] by (simp only: catalog_lookup_def same old)
  have index: "with_prefix (as_bytes (index_prefix ''pets'')) ?es = []"
    using pets_index by (simp add: prefix_bytes) (simp add: index_prefix_def schema_key_def user_key_def)
  have tab: "stores ''pets'' ?es []"
    using pets_stores unfolding stores_def by (simp add: prefix_bytes del: map_append) (simp add: schema_key_def user_key_def)
  have new: "\<forall>r\<in>set ?rows. map_of ?es (row_key ''pets'' (hd r)) = None"
    using pets_rows(3) other by (simp add: row_key_def schema_key_def user_key_def)
  have txts: "query_name ''pets''" "?rows \<noteq> []" "\<forall>r\<in>set ?rows. r \<noteq> [] \<and> (\<forall>v\<in>set r. plain_value v)"
      "find_str '' UNION '' (to_uppercase (print_insert ''pets'' ?rows)) = None" "valid_str (print_insert ''pets'' ?rows)"
      "valid_str (''SELECT * FROM '' @ ''pets'')" "length (print_insert ''pets'' ?rows) < 65536"
    by (simp_all add: query_name_def plain_value_def text_eval print_insert_def print_tuple_def quote_value_def quote_def ascii_valid)
  have env: "env_store sample_env = database_ops lru_list sum_crc"
      "db_holds lru_list lru_list_ok sum_crc 0 (cn_db \<lparr>cn_db = db3, cn_tx = 1, cn_out = []\<rparr>) ?es (?row @ [])"
    using 3(2) by (simp_all add: sample_env_def)
  from server_insert_select [OF lru_list.lru_cache_axioms env init pets_name(1,2) txts(1) schema pets_ascii cat index tab
      pets_rows(1,2) new pets_rows(4) txts(2-7), of "\<lambda>_. ''io''" "[]"] 1(1,2) 2(1) 3(1)
  show ?thesis
    by (auto simp: pets_columns table_insert_def pad_row_def pets_table_def schema_new_def rows_message_def)
qed

end
